(* ===== verification/Sc_Prelude.thy ===== *)
theory Sc_Prelude
  imports Main "HOL-Library.Word" "HOL-Library.Finite_Map" "HOL-Library.List_Lexorder"
    "HOL-Library.Char_ord"
begin

unbundle bit_operations_syntax

text \<open>
  The prelude of the development: the machine types of the Rust sources, the standard library's
  checked, saturating and overflowing arithmetic on them, big-endian and little-endian byte
  strings, UTF-8, results with errors as values, and the generic lemmas the components share.
  Arithmetic written with a plain \<open>+\<close>, \<open>-\<close> or \<open>*\<close> in the sources wraps around in the release
  profile (\<open>Cargo.toml\<close> sets no \<open>overflow-checks\<close>), as it does on words.
\<close>

section \<open>Machine types\<close>

type_synonym u8 = "8 word"
type_synonym u16 = "16 word"
type_synonym u32 = "32 word"
type_synonym u64 = "64 word"
type_synonym u128 = "128 word"
type_synonym bytes = "u8 list"

text \<open>\<open>wire_simps\<close> collects the equations of the byte-level readers and writers,
  \<open>u256_simps\<close> the value lemmas of the 256-bit integers, \<open>state_simps\<close> the frame lemmas of the
  account state.\<close>

named_theorems wire_simps
named_theorems u256_simps
named_theorems state_simps

section \<open>Checked and saturating arithmetic\<close>

definition checked_add :: "'a::len word \<Rightarrow> 'a word \<Rightarrow> 'a word option" where
  "checked_add a b = (if unat a + unat b < 2 ^ LENGTH('a) then Some (a + b) else None)"

definition checked_sub :: "'a::len word \<Rightarrow> 'a word \<Rightarrow> 'a word option" where
  "checked_sub a b = (if b \<le> a then Some (a - b) else None)"

definition saturating_add :: "'a::len word \<Rightarrow> 'a word \<Rightarrow> 'a word" where
  "saturating_add a b = (if unat a + unat b < 2 ^ LENGTH('a) then a + b else - 1)"

definition saturating_sub :: "'a::len word \<Rightarrow> 'a word \<Rightarrow> 'a word" where
  "saturating_sub a b = (if b \<le> a then a - b else 0)"

definition saturating_mul :: "'a::len word \<Rightarrow> 'a word \<Rightarrow> 'a word" where
  "saturating_mul a b = (if unat a * unat b < 2 ^ LENGTH('a) then a * b else - 1)"

definition overflowing_sub :: "'a::len word \<Rightarrow> 'a word \<Rightarrow> 'a word \<times> bool" where
  "overflowing_sub a b = (a - b, a < b)"

lemma unat_bound: "unat x < 2 ^ LENGTH('a)" for x :: "'a::len word"
  by (rule unsigned_less)

lemma checked_add_Some_iff:
  "checked_add a b = Some c \<longleftrightarrow> c = a + b \<and> unat c = unat a + unat b"
  for a b c :: "'a::len word"
  unfolding checked_add_def unat_add_lem by (cases "unat (a + b) = unat a + unat b") auto

lemma checked_sub_Some_iff:
  "checked_sub a b = Some c \<longleftrightarrow> c = a - b \<and> unat a = unat c + unat b"
  for a b c :: "'a::len word"
  by (auto simp: checked_sub_def unat_sub word_le_nat_alt)

lemma checked_sub_add:
  "checked_add a b = Some c \<Longrightarrow> checked_sub c b = Some a"
  by (auto simp: checked_add_Some_iff checked_sub_Some_iff)

lemma checked_add_sub:
  "checked_sub a b = Some c \<Longrightarrow> checked_add c b = Some a"
  by (auto simp: checked_add_Some_iff checked_sub_Some_iff)

lemma checked_add_0 [simp]: "checked_add a 0 = Some a"
  by (simp add: checked_add_Some_iff)

lemma checked_sub_0 [simp]: "checked_sub a 0 = Some a"
  by (simp add: checked_sub_Some_iff)

lemma checked_sub_None_iff: "checked_sub a b = None \<longleftrightarrow> a < b"
  by (auto simp: checked_sub_def)

lemma checked_add_None_iff:
  "checked_add a b = None \<longleftrightarrow> 2 ^ LENGTH('a) \<le> unat a + unat b" for a b :: "'a::len word"
  by (auto simp: checked_add_def)

lemma unat_saturating_sub: "unat (saturating_sub a b) = unat a - unat b"
  by (simp add: saturating_sub_def unat_sub word_le_nat_alt)

lemma unat_saturating_add:
  "unat (saturating_add a b) = min (unat a + unat b) (2 ^ LENGTH('a) - 1)" for a b :: "'a::len word"
proof (cases "unat a + unat b < 2 ^ LENGTH('a)")
  case True
  then have "unat (a + b) = unat a + unat b" by (metis unat_add_lem)
  with True show ?thesis by (simp add: saturating_add_def)
next
  case False
  then show ?thesis by (simp add: saturating_add_def unsigned_minus_1_eq_mask mask_eq_exp_minus_1)
qed

lemma unat_saturating_mul:
  "unat (saturating_mul a b) = min (unat a * unat b) (2 ^ LENGTH('a) - 1)" for a b :: "'a::len word"
proof (cases "unat a * unat b < 2 ^ LENGTH('a)")
  case True
  then have "unat (a * b) = unat a * unat b" by (metis unat_mult_lem)
  with True show ?thesis by (simp add: saturating_mul_def)
next
  case False
  then show ?thesis by (simp add: saturating_mul_def unsigned_minus_1_eq_mask mask_eq_exp_minus_1)
qed

section \<open>Results\<close>

text \<open>A Rust \<open>Result<T, E>\<close> is \<open>'e + 'a\<close> with the error on the left; \<open>bind_res\<close> is the
  operator \<open>?\<close>, and \<open>ok_or\<close> turns an option into a result.\<close>

fun bind_res :: "'e + 'a \<Rightarrow> ('a \<Rightarrow> 'e + 'b) \<Rightarrow> 'e + 'b" where
  "bind_res (Inl e) f = Inl e"
| "bind_res (Inr a) f = f a"

fun ok_or :: "'a option \<Rightarrow> 'e \<Rightarrow> 'e + 'a" where
  "ok_or None e = Inl e"
| "ok_or (Some a) e = Inr a"

fun is_ok :: "'e + 'a \<Rightarrow> bool" where
  "is_ok (Inl e) = False"
| "is_ok (Inr a) = True"

lemma bind_res_Inr_iff: "bind_res m f = Inr b \<longleftrightarrow> (\<exists>a. m = Inr a \<and> f a = Inr b)"
  by (cases m) auto

lemma bind_res_InrE [elim!]:
  assumes "bind_res m f = Inr b"
  obtains a where "m = Inr a" and "f a = Inr b"
  using assms by (auto simp: bind_res_Inr_iff)

lemma bind_res_Inl_iff:
  "bind_res m f = Inl e \<longleftrightarrow> m = Inl e \<or> (\<exists>a. m = Inr a \<and> f a = Inl e)"
  by (cases m) auto

lemma ok_or_Inr_iff [simp]: "ok_or x e = Inr a \<longleftrightarrow> x = Some a"
  by (cases x) auto

lemma is_ok_iff: "is_ok m \<longleftrightarrow> (\<exists>a. m = Inr a)"
  by (cases m) auto

lemma bind_res_assoc: "bind_res (bind_res m f) g = bind_res m (\<lambda>x. bind_res (f x) g)"
  by (cases m) auto

text \<open>A loop that stops at the first error: \<open>for x in xs { s = f(s, x)?; }\<close>.\<close>

fun foldM :: "('s \<Rightarrow> 'x \<Rightarrow> 'e + 's) \<Rightarrow> 's \<Rightarrow> 'x list \<Rightarrow> 'e + 's" where
  "foldM f s [] = Inr s"
| "foldM f s (x # xs) = bind_res (f s x) (\<lambda>s'. foldM f s' xs)"

lemma foldM_append: "foldM f s (xs @ ys) = bind_res (foldM f s xs) (\<lambda>s'. foldM f s' ys)"
  by (induction xs arbitrary: s) (simp_all add: bind_res_assoc)

lemma foldM_invariant:
  assumes "foldM f s xs = Inr t" and "P s"
    and "\<And>u x v. x \<in> set xs \<Longrightarrow> P u \<Longrightarrow> f u x = Inr v \<Longrightarrow> P v"
  shows "P t"
  using assms by (induction xs arbitrary: s) auto

text \<open>Collecting the results of a fallible function, \<open>iter.map(f).collect::<Result<_, _>>()\<close>.\<close>

fun mapM :: "('a \<Rightarrow> 'e + 'b) \<Rightarrow> 'a list \<Rightarrow> 'e + 'b list" where
  "mapM f [] = Inr []"
| "mapM f (x # xs) = bind_res (f x) (\<lambda>y. bind_res (mapM f xs) (\<lambda>ys. Inr (y # ys)))"

lemma mapM_cong [fundef_cong]:
  "xs = ys \<Longrightarrow> (\<And>x. x \<in> set ys \<Longrightarrow> f x = g x) \<Longrightarrow> mapM f xs = mapM g ys"
  by (induction ys arbitrary: xs) auto

lemma mapM_Inr: "(\<And>x. x \<in> set xs \<Longrightarrow> f x = Inr (g x)) \<Longrightarrow> mapM f xs = Inr (map g xs)"
  by (induction xs) auto

lemma mapM_Inl: "x \<in> set xs \<Longrightarrow> f x = Inl e \<Longrightarrow> \<exists>e'. mapM f xs = Inl e'"
proof (induction xs)
  case (Cons y ys)
  then show ?case by (cases "f y") auto
qed simp

section \<open>Byte strings\<close>

fun le_bytes :: "nat \<Rightarrow> nat \<Rightarrow> bytes" where
  "le_bytes 0 v = []"
| "le_bytes (Suc n) v = of_nat (v mod 256) # le_bytes n (v div 256)"

fun le_val :: "bytes \<Rightarrow> nat" where
  "le_val [] = 0"
| "le_val (b # bs) = unat b + 256 * le_val bs"

definition be_bytes :: "nat \<Rightarrow> nat \<Rightarrow> bytes" where
  "be_bytes n v = rev (le_bytes n v)"

definition be_val :: "bytes \<Rightarrow> nat" where
  "be_val bs = le_val (rev bs)"

lemma length_le_bytes [simp]: "length (le_bytes n v) = n"
  by (induction n arbitrary: v) auto

lemma length_be_bytes [simp]: "length (be_bytes n v) = n"
  by (simp add: be_bytes_def)

lemma le_val_le_bytes: "v < 256 ^ n \<Longrightarrow> le_val (le_bytes n v) = v"
proof (induction n arbitrary: v)
  case 0
  then show ?case by simp
next
  case (Suc n)
  then have "v div 256 < 256 ^ n" by (simp add: less_mult_imp_div_less mult.commute)
  then have "le_val (le_bytes n (v div 256)) = v div 256" by (rule Suc.IH)
  then show ?case by (simp add: unat_of_nat)
qed

lemma le_bytes_le_val [simp]: "le_bytes (length bs) (le_val bs) = bs"
proof (induction bs)
  case (Cons b bs)
  have "unat b < 256" using unat_bound [of b] by simp
  with Cons show ?case by simp
qed simp

lemma le_val_bound: "le_val bs < 256 ^ length bs"
proof (induction bs)
  case (Cons b bs)
  have "unat b < 256" using unat_bound [of b] by simp
  with Cons show ?case by simp
qed simp

lemma le_val_append: "le_val (xs @ ys) = le_val xs + 256 ^ length xs * le_val ys"
  by (induction xs) (simp_all add: algebra_simps)

lemma be_val_be_bytes: "v < 256 ^ n \<Longrightarrow> be_val (be_bytes n v) = v"
  by (simp add: be_val_def be_bytes_def le_val_le_bytes)

lemma be_bytes_be_val: "length bs = n \<Longrightarrow> be_bytes n (be_val bs) = bs"
  using le_bytes_le_val [of "rev bs"] by (simp add: be_val_def be_bytes_def)

lemma be_val_bound: "be_val bs < 256 ^ length bs"
  using le_val_bound [of "rev bs"] by (simp add: be_val_def)

lemma be_val_append: "be_val (xs @ ys) = be_val xs * 256 ^ length ys + be_val ys"
  by (simp add: be_val_def le_val_append)

lemma be_val_inj: "length xs = length ys \<Longrightarrow> be_val xs = be_val ys \<Longrightarrow> xs = ys"
  by (metis be_bytes_be_val)

definition to_be_bytes64 :: "u64 \<Rightarrow> bytes" where
  "to_be_bytes64 x = be_bytes 8 (unat x)"

definition from_be_bytes64 :: "bytes \<Rightarrow> u64" where
  "from_be_bytes64 bs = of_nat (be_val bs)"

definition to_le_bytes64 :: "u64 \<Rightarrow> bytes" where
  "to_le_bytes64 x = le_bytes 8 (unat x)"

definition to_be_bytes32 :: "u32 \<Rightarrow> bytes" where
  "to_be_bytes32 x = be_bytes 4 (unat x)"

definition from_be_bytes32 :: "bytes \<Rightarrow> u32" where
  "from_be_bytes32 bs = of_nat (be_val bs)"

lemma length_to_bytes [simp]:
  "length (to_be_bytes64 x) = 8" "length (to_le_bytes64 x) = 8" "length (to_be_bytes32 y) = 4"
  by (simp_all add: to_be_bytes64_def to_le_bytes64_def to_be_bytes32_def)

lemma from_to_be_bytes64 [simp]: "from_be_bytes64 (to_be_bytes64 x) = x"
  using unat_bound [of x]
  by (simp add: from_be_bytes64_def to_be_bytes64_def be_val_be_bytes)

lemma from_to_be_bytes32 [simp]: "from_be_bytes32 (to_be_bytes32 x) = x"
  using unat_bound [of x]
  by (simp add: from_be_bytes32_def to_be_bytes32_def be_val_be_bytes)

lemma unat_from_be_bytes64: "length bs = 8 \<Longrightarrow> unat (from_be_bytes64 bs) = be_val bs"
  using be_val_bound [of bs] by (simp add: from_be_bytes64_def unat_of_nat)

lemma unat_from_be_bytes32: "length bs = 4 \<Longrightarrow> unat (from_be_bytes32 bs) = be_val bs"
  using be_val_bound [of bs] by (simp add: from_be_bytes32_def unat_of_nat)

lemma to_from_be_bytes64: "length bs = 8 \<Longrightarrow> to_be_bytes64 (from_be_bytes64 bs) = bs"
  by (simp add: to_be_bytes64_def unat_from_be_bytes64 be_bytes_be_val)

lemma to_from_be_bytes32: "length bs = 4 \<Longrightarrow> to_be_bytes32 (from_be_bytes32 bs) = bs"
  by (simp add: to_be_bytes32_def unat_from_be_bytes32 be_bytes_be_val)

lemma to_le_bytes64_inj [simp]: "to_le_bytes64 x = to_le_bytes64 y \<longleftrightarrow> x = y"
proof
  assume "to_le_bytes64 x = to_le_bytes64 y"
  then have "le_val (le_bytes 8 (unat x)) = le_val (le_bytes 8 (unat y))"
    by (simp add: to_le_bytes64_def)
  moreover have "unat x < 256 ^ 8" "unat y < 256 ^ 8"
    using unat_bound [of x] unat_bound [of y] by simp_all
  ultimately have "unat x = unat y" by (simp only: le_val_le_bytes)
  then show "x = y" by (rule unsigned_word_eqI)
qed simp

lemma to_be_bytes64_inj [simp]: "to_be_bytes64 x = to_be_bytes64 y \<longleftrightarrow> x = y"
  by (metis from_to_be_bytes64)

lemma to_be_bytes32_inj [simp]: "to_be_bytes32 x = to_be_bytes32 y \<longleftrightarrow> x = y"
  by (metis from_to_be_bytes32)

text \<open>The array of 32 zero bytes, \<open>[0u8; 32]\<close>.\<close>

definition zero32 :: bytes where
  "zero32 = replicate 32 0"

lemma length_zero32 [simp]: "length zero32 = 32"
  by (simp add: zero32_def)

section \<open>Strings\<close>

text \<open>A Rust \<open>String\<close> is a sequence of bytes that is valid UTF-8. It is modelled by Isabelle's
  \<open>string\<close>, whose characters are bytes; \<open>as_bytes\<close> and \<open>from_utf8\<close> convert, and \<open>valid_utf8\<close> is
  the check of \<open>std::str::from_utf8\<close> (table 3-7 of the Unicode standard).\<close>

definition as_bytes :: "string \<Rightarrow> bytes" where
  "as_bytes s = map of_char s"

definition string_of_bytes :: "bytes \<Rightarrow> string" where
  "string_of_bytes bs = map (\<lambda>b. char_of (unat b)) bs"

definition cont :: "u8 \<Rightarrow> bool" where
  "cont b \<longleftrightarrow> 0x80 \<le> b \<and> b \<le> 0xBF"

fun valid_utf8 :: "bytes \<Rightarrow> bool" where
  "valid_utf8 [] = True"
| "valid_utf8 (b # bs) =
     (if b \<le> 0x7F then valid_utf8 bs
      else if 0xC2 \<le> b \<and> b \<le> 0xDF then
        (case bs of b1 # r \<Rightarrow> cont b1 \<and> valid_utf8 r | _ \<Rightarrow> False)
      else if 0xE0 \<le> b \<and> b \<le> 0xEF then
        (case bs of b1 # b2 # r \<Rightarrow>
           cont b1 \<and> (b = 0xE0 \<longrightarrow> 0xA0 \<le> b1) \<and> (b = 0xED \<longrightarrow> b1 \<le> 0x9F) \<and> cont b2 \<and> valid_utf8 r
         | _ \<Rightarrow> False)
      else if 0xF0 \<le> b \<and> b \<le> 0xF4 then
        (case bs of b1 # b2 # b3 # r \<Rightarrow>
           cont b1 \<and> (b = 0xF0 \<longrightarrow> 0x90 \<le> b1) \<and> (b = 0xF4 \<longrightarrow> b1 \<le> 0x8F) \<and> cont b2 \<and> cont b3
           \<and> valid_utf8 r
         | _ \<Rightarrow> False)
      else False)"

definition from_utf8 :: "bytes \<Rightarrow> string option" where
  "from_utf8 bs = (if valid_utf8 bs then Some (string_of_bytes bs) else None)"

lemma length_as_bytes [simp]: "length (as_bytes s) = length s"
  by (simp add: as_bytes_def)

lemma length_string_of_bytes [simp]: "length (string_of_bytes bs) = length bs"
  by (simp add: string_of_bytes_def)

lemma unat_of_char [simp]: "unat (of_char c :: u8) = of_char c"
proof -
  have "(of_char c :: u8) = of_nat (of_char c)" by (simp only: of_nat_of_char)
  then show ?thesis using nat_of_char_less_256 [of c] by (simp only: unat_of_nat) simp
qed

lemma string_of_bytes_as_bytes [simp]: "string_of_bytes (as_bytes s) = s"
  by (simp add: string_of_bytes_def as_bytes_def comp_def)

lemma as_bytes_string_of_bytes [simp]: "as_bytes (string_of_bytes bs) = bs"
proof -
  have "(of_char (char_of (unat b)) :: u8) = b" for b :: u8
  proof -
    have "unat b < 256" using unat_bound [of b] by simp
    then have "(of_char (char_of (unat b)) :: nat) = unat b" by simp
    then show ?thesis by (simp add: word_eq_iff_unsigned [where ?'a = nat])
  qed
  then show ?thesis by (simp add: string_of_bytes_def as_bytes_def comp_def)
qed

lemma as_bytes_inj [simp]: "as_bytes s = as_bytes t \<longleftrightarrow> s = t"
  by (metis string_of_bytes_as_bytes)

lemma from_utf8_as_bytes: "valid_utf8 (as_bytes s) \<Longrightarrow> from_utf8 (as_bytes s) = Some s"
  by (simp add: from_utf8_def)

lemma from_utf8_SomeD: "from_utf8 bs = Some s \<Longrightarrow> as_bytes s = bs"
  by (auto simp: from_utf8_def split: if_splits)

subsection \<open>Decimal numbers, joining and splitting\<close>

definition is_digit :: "char \<Rightarrow> bool" where
  "is_digit c \<longleftrightarrow> 48 \<le> (of_char c :: nat) \<and> (of_char c :: nat) \<le> 57"

definition digit_char :: "nat \<Rightarrow> char" where
  "digit_char d = char_of (48 + d)"

text \<open>\<open>format!("{n}")\<close> of an unsigned integer.\<close>

fun show_nat :: "nat \<Rightarrow> string" where
  "show_nat n = (if n < 10 then [digit_char n] else show_nat (n div 10) @ [digit_char (n mod 10)])"

declare show_nat.simps [simp del]

definition digits_val :: "string \<Rightarrow> nat" where
  "digits_val s = foldl (\<lambda>acc c. 10 * acc + (of_char c - 48)) 0 s"

text \<open>\<open>str::parse\<close> into an unsigned integer of \<open>w\<close> bits: an optional plus sign, at least one
  decimal digit, and a value that fits.\<close>

definition parse_uint :: "nat \<Rightarrow> string \<Rightarrow> nat option" where
  "parse_uint w s =
     (let ds = (case s of c # r \<Rightarrow> if c = CHR ''+'' \<and> r \<noteq> [] then r else s | [] \<Rightarrow> s)
      in if ds \<noteq> [] \<and> list_all is_digit ds \<and> digits_val ds < 2 ^ w then Some (digits_val ds) else None)"

fun join :: "string \<Rightarrow> string list \<Rightarrow> string" where
  "join sep [] = []"
| "join sep [x] = x"
| "join sep (x # y # ys) = x @ sep @ join sep (y # ys)"

fun split_on :: "char \<Rightarrow> string \<Rightarrow> string list" where
  "split_on d [] = [[]]"
| "split_on d (c # cs) =
     (if c = d then [] # split_on d cs
      else case split_on d cs of x # xs \<Rightarrow> (c # x) # xs | [] \<Rightarrow> [[c]])"

lemma of_char_digit_char: "d < 10 \<Longrightarrow> (of_char (digit_char d) :: nat) = 48 + d"
  by (simp add: digit_char_def)

lemma is_digit_digit_char: "d < 10 \<Longrightarrow> is_digit (digit_char d)"
  by (simp add: is_digit_def of_char_digit_char)

lemma show_nat_digits: "list_all is_digit (show_nat n)"
proof (induction n rule: show_nat.induct)
  case (1 n)
  then show ?case by (subst show_nat.simps) (simp add: is_digit_digit_char)
qed

lemma show_nat_nonempty [simp]: "show_nat n \<noteq> []"
  by (subst show_nat.simps) simp

lemma digits_val_snoc: "digits_val (s @ [c]) = 10 * digits_val s + (of_char c - 48)"
  by (simp add: digits_val_def)

lemma digits_val_show_nat [simp]: "digits_val (show_nat n) = n"
proof (induction n rule: show_nat.induct)
  case (1 n)
  show ?case
  proof (cases "n < 10")
    case True
    then show ?thesis by (subst show_nat.simps) (simp add: digits_val_def of_char_digit_char)
  next
    case False
    with 1 have "digits_val (show_nat (n div 10) @ [digit_char (n mod 10)]) = n"
      by (simp add: digits_val_snoc of_char_digit_char)
    with False show ?thesis by (subst show_nat.simps) simp
  qed
qed

lemma parse_uint_show_nat: "n < 2 ^ w \<Longrightarrow> parse_uint w (show_nat n) = Some n"
proof -
  obtain c r where s: "show_nat n = c # r" by (meson list.exhaust show_nat_nonempty)
  then have "c \<noteq> CHR ''+''" using show_nat_digits [of n] by (auto simp: is_digit_def)
  moreover assume "n < 2 ^ w"
  ultimately show ?thesis
    using show_nat_digits [of n] digits_val_show_nat [of n] by (simp add: parse_uint_def s)
qed

lemma split_on_nonempty [simp]: "split_on d s \<noteq> []"
  by (induction s) (auto split: list.split)

lemma split_on_none: "d \<notin> set s \<Longrightarrow> split_on d s = [s]"
  by (induction s) auto

lemma split_on_sep: "d \<notin> set s \<Longrightarrow> split_on d (s @ d # t) = s # split_on d t"
  by (induction s) auto

lemma split_on_join:
  "xs \<noteq> [] \<Longrightarrow> (\<And>x. x \<in> set xs \<Longrightarrow> d \<notin> set x) \<Longrightarrow> split_on d (join [d] xs) = xs"
  by (induction "[d]" xs rule: join.induct) (auto simp: split_on_none split_on_sep)

lemma set_join: "set (join sep xs) \<subseteq> set sep \<union> (\<Union>x \<in> set xs. set x)"
  by (induction sep xs rule: join.induct) auto

section \<open>Finite maps\<close>

text \<open>A \<open>HashMap\<close> is a finite map \<open>('k, 'v) fmap\<close>. \<open>get_or\<close> is
  \<open>map.get(k).map(f).unwrap_or(d)\<close>.\<close>

lemma fmlookup_fmupd_cases:
  "fmlookup (fmupd k v m) k' = (if k' = k then Some v else fmlookup m k')"
  by simp

lemma sum_fmdom'_remove:
  fixes f :: "'k \<Rightarrow> 'v \<Rightarrow> 'n::comm_monoid_add"
  assumes "fmlookup m k = Some v"
  shows "(\<Sum>j\<in>fmdom' m. f j (the (fmlookup m j)))
    = f k v + (\<Sum>j\<in>fmdom' m - {k}. f j (the (fmlookup m j)))"
proof -
  have "k \<in> fmdom' m" using assms by (simp add: fmlookup_dom'_iff)
  then show ?thesis using assms by (simp add: sum.remove [OF finite_fmdom'])
qed

end
