(* ===== verification/Sc_Abi.thy ===== *)
theory Sc_Abi
  imports Sc_Prelude
begin

text \<open>
  The ABI types of \<open>crates/strangecoin-core/src/abi/mod.rs\<close>: their canonical names, the parser of
  the names, and the document's format version gate. Characters are bytes: the parser only
  compares with ASCII characters, which no byte of a multi-byte UTF-8 sequence equals.
\<close>

section \<open>Types and their canonical names\<close>

datatype abi_type =
    AUint u16
  | AInt u16
  | ABool
  | AAddress
  | ABytes
  | AString
  | AArray abi_type
  | AFixedArray abi_type nat
  | ATuple "abi_type list"

record abi_param =
  param_name :: string
  param_type :: abi_type

text \<open>The last constructor stands for an index out of range, where the code panics.\<close>

datatype abi_error =
    ArityMismatch nat nat
  | TypeMismatch string string
  | InvalidBits u16
  | InvalidValue string
  | UnexpectedEnd nat
  | TrailingData nat nat
  | InvalidOffset u32 nat
  | NonCanonicalOffset u32 u32
  | InvalidUtf8
  | InvalidType string
  | NotImplementedVersion string
  | UnknownFormatVersion string
  | AbiPanic string

definition validate_bits :: "u16 \<Rightarrow> abi_error + unit" where
  "validate_bits bits = (if 8 \<le> bits \<and> bits \<le> 256 \<and> bits mod 8 = 0 then Inr () else Inl (InvalidBits bits))"

fun is_dynamic :: "abi_type \<Rightarrow> bool" where
  "is_dynamic (AUint _) = False"
| "is_dynamic (AInt _) = False"
| "is_dynamic ABool = False"
| "is_dynamic AAddress = False"
| "is_dynamic ABytes = True"
| "is_dynamic AString = True"
| "is_dynamic (AArray _) = True"
| "is_dynamic (AFixedArray elem _) = is_dynamic elem"
| "is_dynamic (ATuple elems) = list_ex is_dynamic elems"

text \<open>Sizes are \<open>usize\<close>: the product and the sum wrap at 64 bits.\<close>

fun static_size :: "abi_type \<Rightarrow> nat option" where
  "static_size (AUint _) = Some 32"
| "static_size (AInt _) = Some 32"
| "static_size ABool = Some 32"
| "static_size AAddress = Some 32"
| "static_size (AFixedArray elem len) = map_option (\<lambda>n. n * len mod 2 ^ 64) (static_size elem)"
| "static_size (ATuple elems) =
     foldl (\<lambda>acc s. Option.bind acc (\<lambda>total. map_option (\<lambda>n. (total + n) mod 2 ^ 64) s))
       (Some 0) (map static_size elems)"
| "static_size ABytes = None"
| "static_size AString = None"
| "static_size (AArray _) = None"

fun canonical_name :: "abi_type \<Rightarrow> string" where
  "canonical_name (AUint n) = ''uint'' @ show_nat (unat n)"
| "canonical_name (AInt n) = ''int'' @ show_nat (unat n)"
| "canonical_name ABool = ''bool''"
| "canonical_name AAddress = ''address''"
| "canonical_name ABytes = ''bytes''"
| "canonical_name AString = ''string''"
| "canonical_name (AArray elem) = canonical_name elem @ ''[]''"
| "canonical_name (AFixedArray elem len) = canonical_name elem @ ''['' @ show_nat len @ '']''"
| "canonical_name (ATuple elems) = ''('' @ join '','' (map canonical_name elems) @ '')''"

section \<open>Parsing a name\<close>

definition strip_suffix :: "string \<Rightarrow> string \<Rightarrow> string option" where
  "strip_suffix suf s =
     (if length suf \<le> length s \<and> drop (length s - length suf) s = suf
      then Some (take (length s - length suf) s) else None)"

definition strip_prefix :: "string \<Rightarrow> string \<Rightarrow> string option" where
  "strip_prefix pre s = (if take (length pre) s = pre then Some (drop (length pre) s) else None)"

text \<open>\<open>str::rfind\<close>: the position of the last occurrence of a character.\<close>

fun rfind :: "char \<Rightarrow> string \<Rightarrow> nat option" where
  "rfind d [] = None"
| "rfind d (c # cs) =
     (case rfind d cs of Some i \<Rightarrow> Some (Suc i) | None \<Rightarrow> if c = d then Some 0 else None)"

text \<open>The scan of a tuple's body: parts are cut at the commas outside every bracket.\<close>

fun split_top :: "nat \<Rightarrow> string \<Rightarrow> string \<Rightarrow> string list" where
  "split_top depth part [] = [part]"
| "split_top depth part (ch # rest) =
     (if ch = CHR ''('' \<or> ch = CHR ''['' then split_top (Suc depth) (part @ [ch]) rest
      else if ch = CHR '')'' \<or> ch = CHR '']'' then split_top (depth - 1) (part @ [ch]) rest
      else if ch = CHR '','' \<and> depth = 0 then part # split_top depth [] rest
      else split_top depth (part @ [ch]) rest)"

lemma split_top_shorter: "p \<in> set (split_top d part s) \<Longrightarrow> length p \<le> length part + length s"
proof (induction s arbitrary: d part)
  case (Cons c s)
  have "p = part \<or> (\<exists>d' part'. p \<in> set (split_top d' part' s) \<and> length part' \<le> Suc (length part))"
    using Cons.prems by (fastforce split: if_splits)
  with Cons.IH show ?case by fastforce
qed simp

lemma rfind_less: "rfind d s = Some i \<Longrightarrow> i < length s"
  by (induction s arbitrary: i) (auto split: option.splits if_splits)

function abi_parse :: "string \<Rightarrow> abi_error + abi_type" where
  "abi_parse s =
     (case strip_suffix ''[]'' s of
        Some inner \<Rightarrow> bind_res (abi_parse inner) (\<lambda>t. Inr (AArray t))
      | None \<Rightarrow>
        if s \<noteq> [] \<and> last s = CHR '']'' then
          (case rfind CHR ''['' s of
             Some opn \<Rightarrow>
               (let elem = take opn s; len_s = take (length s - 1 - (opn + 1)) (drop (opn + 1) s)
                in if len_s \<noteq> [] \<and> list_all is_digit len_s then
                     (case parse_uint 64 len_s of
                        None \<Rightarrow> Inl (InvalidType s)
                      | Some len \<Rightarrow>
                          if len = 0 then Inl (InvalidType s)
                          else bind_res (abi_parse elem) (\<lambda>t. Inr (AFixedArray t len)))
                   else Inl (InvalidType s))
           | None \<Rightarrow> Inl (InvalidType s))
        else if s \<noteq> [] \<and> hd s = CHR ''('' \<and> last s = CHR '')'' then
          (let inner = take (length s - 2) (drop 1 s)
           in if inner = [] then Inr (ATuple [])
              else bind_res (mapM abi_parse (split_top 0 [] inner)) (\<lambda>elems. Inr (ATuple elems)))
        else if s = ''bool'' then Inr ABool
        else if s = ''address'' then Inr AAddress
        else if s = ''bytes'' then Inr ABytes
        else if s = ''string'' then Inr AString
        else
          (case strip_prefix ''uint'' s of
             Some n \<Rightarrow>
               (case parse_uint 16 n of
                  None \<Rightarrow> Inl (InvalidType s)
                | Some bits \<Rightarrow>
                    if is_ok (validate_bits (of_nat bits)) then Inr (AUint (of_nat bits))
                    else Inl (InvalidType s))
           | None \<Rightarrow>
               (case strip_prefix ''int'' s of
                  Some n \<Rightarrow>
                    (case parse_uint 16 n of
                       None \<Rightarrow> Inl (InvalidType s)
                     | Some bits \<Rightarrow>
                         if is_ok (validate_bits (of_nat bits)) then Inr (AInt (of_nat bits))
                         else Inl (InvalidType s))
                | None \<Rightarrow> Inl (InvalidType s))))"
  by pat_completeness auto
termination
proof (relation "measure length")
  fix s inner
  assume "strip_suffix ''[]'' s = Some inner"
  then show "(inner, s) \<in> measure length" by (auto simp: strip_suffix_def split: if_splits)
next
  fix s opn elem len_s
  assume "rfind CHR ''['' s = Some opn" "elem = take opn s"
  then show "(elem, s) \<in> measure length" using rfind_less [of "CHR ''[''" s opn] by simp
next
  fix s inner p
  assume "s \<noteq> [] \<and> hd s = CHR ''('' \<and> last s = CHR '')''" and "inner = take (length s - 2) (drop 1 s)"
    and "p \<in> set (split_top 0 [] inner)"
  then show "(p, s) \<in> measure length" using split_top_shorter [of p 0 "[]" inner] by (cases s) auto
qed simp

declare abi_parse.simps [simp del]

section \<open>The parser inverts the canonical name\<close>

text \<open>The types a document can hold: integer widths are valid, and fixed lengths are positive
  machine integers.\<close>

fun wf_abi :: "abi_type \<Rightarrow> bool" where
  "wf_abi (AUint n) = is_ok (validate_bits n)"
| "wf_abi (AInt n) = is_ok (validate_bits n)"
| "wf_abi (AArray elem) = wf_abi elem"
| "wf_abi (AFixedArray elem len) = (wf_abi elem \<and> 0 < len \<and> len < 2 ^ 64)"
| "wf_abi (ATuple elems) = list_all wf_abi elems"
| "wf_abi _ = True"

lemma strip_suffix_append [simp]: "strip_suffix suf (s @ suf) = Some s"
  by (simp add: strip_suffix_def)

lemma strip_suffix_last: "s \<noteq> [] \<Longrightarrow> last s \<noteq> CHR '']'' \<Longrightarrow> strip_suffix ''[]'' s = None"
proof (rule ccontr)
  assume "s \<noteq> []" and last: "last s \<noteq> CHR '']''" and "strip_suffix ''[]'' s \<noteq> None"
  then have "drop (length s - 2) s = ''[]''"
    by (auto simp: strip_suffix_def numeral_2_eq_2 split: if_splits)
  then have "s = take (length s - 2) s @ ''[]''" by (metis append_take_drop_id)
  then have "last s = CHR '']''" by (metis last_appendR last.simps list.distinct(1))
  with last show False by simp
qed

lemma strip_suffix_digit: "is_digit c \<Longrightarrow> strip_suffix ''[]'' (s @ [c, CHR '']'']) = None"
  by (auto simp: strip_suffix_def is_digit_def)

lemma rfind_append_None: "rfind d t = None \<Longrightarrow> rfind d (s @ d # t) = Some (length s)"
  by (induction s) auto

lemma rfind_notin: "d \<notin> set s \<Longrightarrow> rfind d s = None"
  by (induction s) auto

lemma digits_no_char: "list_all is_digit s \<Longrightarrow> \<not> is_digit c \<Longrightarrow> c \<notin> set s"
  by (auto simp: list_all_iff)

text \<open>A canonical name is balanced: the scan of a tuple's body passes over it without cutting.\<close>

lemma split_top_plain:
  "(\<And>c. c \<in> set s \<Longrightarrow> c \<notin> set ''()[],'') \<Longrightarrow> split_top d part (s @ rest) = split_top d (part @ s) rest"
  by (induction s arbitrary: part) auto

lemma split_top_join_inner:
  assumes "\<And>x d part rest. x \<in> set xs \<Longrightarrow> split_top d part (x @ rest) = split_top d (part @ x) rest"
  shows "split_top (Suc d) part (join '','' xs @ rest) = split_top (Suc d) (part @ join '','' xs) rest"
  using assms by (induction "'',''" xs arbitrary: part rule: join.induct) auto

lemma plain_digits: "c \<in> set (show_nat n) \<Longrightarrow> c \<notin> set ''()[],''"
  using show_nat_digits [of n] by (auto simp: list_all_iff is_digit_def)

lemma split_top_name: "split_top d part (canonical_name t @ rest) = split_top d (part @ canonical_name t) rest"
proof (induction t arbitrary: d part rest)
  case (AUint n)
  then show ?case using split_top_plain [of "show_nat (unat n)"] plain_digits by simp
next
  case (AInt n)
  then show ?case using split_top_plain [of "show_nat (unat n)"] plain_digits by simp
next
  case (AFixedArray elem len)
  then show ?case using split_top_plain [of "show_nat len"] plain_digits by simp
next
  case (ATuple elems)
  then have "split_top (Suc d) (part @ ''('') (join '','' (map canonical_name elems) @ CHR '')'' # rest)
    = split_top (Suc d) ((part @ ''('') @ join '','' (map canonical_name elems)) (CHR '')'' # rest)" for d part rest
    by (intro split_top_join_inner) auto
  then show ?case by simp
qed simp_all

lemma split_top_join:
  "ts \<noteq> [] \<Longrightarrow> split_top 0 part (join '','' (map canonical_name ts))
     = (case ts of t # ts' \<Rightarrow> (part @ canonical_name t) # map canonical_name ts')"
proof (induction ts arbitrary: part)
  case (Cons t ts)
  show ?case
  proof (cases ts)
    case Nil
    then show ?thesis using split_top_name [of 0 part t "[]"] by simp
  next
    case (Cons u us)
    then show ?thesis using Cons.IH [of "[]"] by (simp add: split_top_name)
  qed
qed simp

lemma last_digits: "last (show_nat n) \<noteq> CHR '']''" "last (show_nat n) \<noteq> CHR '')''"
proof -
  have "is_digit (last (show_nat n))"
    using show_nat_digits [of n] by (simp add: list_all_iff)
  then show "last (show_nat n) \<noteq> CHR '']''" "last (show_nat n) \<noteq> CHR '')''"
    by (auto simp: is_digit_def)
qed

lemma abi_parse_int:
  assumes "is_ok (validate_bits n)"
  shows "abi_parse (''uint'' @ show_nat (unat n)) = Inr (AUint n)"
    and "abi_parse (''int'' @ show_nat (unat n)) = Inr (AInt n)"
proof -
  have p: "parse_uint 16 (show_nat (unat n)) = Some (unat n)"
    using unat_bound [of n] by (simp add: parse_uint_show_nat)
  show "abi_parse (''uint'' @ show_nat (unat n)) = Inr (AUint n)"
    using assms p by (subst abi_parse.simps) (simp add: strip_suffix_last last_digits strip_prefix_def)
  show "abi_parse (''int'' @ show_nat (unat n)) = Inr (AInt n)"
    using assms p by (subst abi_parse.simps) (simp add: strip_suffix_last last_digits strip_prefix_def)
qed

lemma abi_parse_fixed:
  assumes "abi_parse s = Inr t" and "0 < len" and "len < 2 ^ 64"
  shows "abi_parse (s @ ''['' @ show_nat len @ '']'') = Inr (AFixedArray t len)"
proof -
  obtain ds c where ds: "show_nat len = ds @ [c]" by (metis rev_exhaust show_nat_nonempty)
  have digits: "list_all is_digit (show_nat len)" by (rule show_nat_digits)
  then have "is_digit c" by (simp add: ds)
  then have "strip_suffix ''[]'' (s @ ''['' @ show_nat len @ '']'') = None"
    using strip_suffix_digit [of c "s @ ''['' @ ds"] by (simp add: ds)
  moreover have "CHR ''['' \<notin> set (show_nat len @ '']'')"
    using digits_no_char [OF digits, of "CHR ''[''"] by (simp add: is_digit_def)
  then have "rfind CHR ''['' (s @ ''['' @ show_nat len @ '']'') = Some (length s)"
    using rfind_append_None [OF rfind_notin] by simp
  ultimately show ?thesis
    using assms digits by (subst abi_parse.simps) (simp add: parse_uint_show_nat)
qed

lemma canonical_name_nonempty [simp]: "canonical_name t \<noteq> []"
  by (cases t) auto

lemma abi_parse_tuple:
  assumes "\<And>t. t \<in> set ts \<Longrightarrow> abi_parse (canonical_name t) = Inr t"
  shows "abi_parse (''('' @ join '','' (map canonical_name ts) @ '')'') = Inr (ATuple ts)"
proof (cases ts)
  case Nil
  then show ?thesis by (subst abi_parse.simps) (simp add: strip_suffix_last)
next
  case (Cons t us)
  then have ne: "join '','' (map canonical_name ts) \<noteq> []" by (cases us) auto
  have "split_top 0 [] (join '','' (map canonical_name ts)) = map canonical_name ts"
    using split_top_join [of ts "[]"] Cons by simp
  moreover have "mapM abi_parse (map canonical_name ts) = Inr ts"
    using assms by (induction ts) auto
  ultimately show ?thesis
    using ne by (subst abi_parse.simps) (simp add: strip_suffix_last)
qed

lemma abi_parse_scalar:
  "abi_parse ''bool'' = Inr ABool" "abi_parse ''address'' = Inr AAddress"
  "abi_parse ''bytes'' = Inr ABytes" "abi_parse ''string'' = Inr AString"
  by (subst abi_parse.simps, simp add: strip_suffix_last)+

lemma abi_parse_canonical_name: "wf_abi t \<Longrightarrow> abi_parse (canonical_name t) = Inr t"
proof (induction t)
  case (AArray t)
  then show ?case by (subst abi_parse.simps) simp
next
  case (AFixedArray t len)
  then show ?case using abi_parse_fixed [of "canonical_name t" t len] by simp
next
  case (ATuple ts)
  then show ?case using abi_parse_tuple [of ts] by (simp add: list_all_iff)
qed (simp_all add: abi_parse_int [simplified] abi_parse_scalar)

end
