(* ===== verification/Sc_Types.thy ===== *)
theory Sc_Types
  imports Sc_Abi
begin

text \<open>
  The data of the core crate: accounts, transactions, headers and blocks
  (\<open>crates/strangecoin-core/src/types.rs\<close>), execution results, receipts and the virtual machine
  interface (\<open>vm/\<close>), and the error type (\<open>error.rs\<close>). Third-party crates are the fields of the
  record \<open>ext\<close>, which the definitions that call them take as their first argument.
\<close>

section \<open>Third-party code\<close>

text \<open>A public key stands for its 33-byte compressed serialization, which is what
  \<open>PublicKey::serialize\<close> returns. \<open>hrp_parse\<close> tells whether \<open>Hrp::parse\<close> accepts a string;
  \<open>pk_from_slice\<close> is \<open>PublicKey::from_slice\<close>, with the text of its error; \<open>recover_ecdsa\<close> takes
  the digest, the 64 signature bytes and the recovery byte through \<open>Message::from_digest_slice\<close>,
  \<open>RecoveryId::from_i32\<close>, \<open>RecoverableSignature::from_compact\<close> and \<open>recover_ecdsa\<close>, all of whose
  errors the code maps to one.\<close>

type_synonym pubkey = bytes

record ext =
  blake3 :: "bytes \<Rightarrow> bytes"
  hex_encode :: "bytes \<Rightarrow> string"
  hex_decode :: "string \<Rightarrow> bytes option"
  hrp_parse :: "string \<Rightarrow> bool"
  bech32m_encode :: "string \<Rightarrow> bytes \<Rightarrow> string option"
  bech32_decode :: "string \<Rightarrow> (string \<times> bytes) option"
  pk_from_slice :: "bytes \<Rightarrow> string + pubkey"
  recover_ecdsa :: "bytes \<Rightarrow> bytes \<Rightarrow> u8 \<Rightarrow> pubkey option"

text \<open>What the code relies on: a digest has 32 bytes, and decoding an encoded string gives the
  bytes back.\<close>

definition hash32 :: "ext \<Rightarrow> bool" where
  "hash32 X \<longleftrightarrow> (\<forall>b. length (blake3 X b) = 32)"

definition hex_ok :: "ext \<Rightarrow> bool" where
  "hex_ok X \<longleftrightarrow> (\<forall>b. hex_decode X (hex_encode X b) = Some b)"

lemma hash32D [simp]: "hash32 X \<Longrightarrow> length (blake3 X b) = 32"
  by (simp add: hash32_def)

lemma hex_okD [simp]: "hex_ok X \<Longrightarrow> hex_decode X (hex_encode X b) = Some b"
  by (simp add: hex_ok_def)

section \<open>Errors\<close>

text \<open>\<open>Panic\<close> is not a constructor of \<open>CoreError\<close>: it stands for a call that panics (an
  \<open>expect\<close> on a failed decode, an \<open>assert\<close>), so that such a call is a value too.\<close>

datatype vm_error =
    OutOfGas
  | OutOfMemory
  | Reverted
  | HostFunctionError string string
  | ReentrancyDetected
  | MaxCallDepth
  | MaxCodeSize
  | MaxStoragePerContract
  | GasMeteringBug
  | NotImplementedFeature string

datatype core_error =
    InvalidSignature
  | InvalidNonce u64 u64
  | InvalidChainId u32 u32
  | InvalidDifficulty
  | TimestampTooOld
  | TimestampInFuture
  | GenesisMismatch bytes bytes
  | HexError
  | Secp256k1Error
  | InvalidCoinbaseAmount u64 u64
  | InsufficientBalance string u64 u64
  | StateOverflow
  | StateRootMismatch bytes bytes
  | PostStateRootMismatch bytes bytes
  | TxRootMismatch bytes bytes
  | WitnessVerificationFailed
  | ProofAccountMismatch
  | InvalidAddressChecksum
  | InvalidAddressFormat string
  | UnknownAddressHrp string
  | UnknownNetworkId u32
  | Bech32EncodeError
  | HeaderHashMismatch string string
  | UnsupportedTxType string
  | InvalidContractDeploy string
  | InvalidGasLimit string
  | VmExecution vm_error
  | Panic string

section \<open>Blocks\<close>

record block_header =
  hdr_index :: u64
  hdr_timestamp :: u64
  hdr_previous_hash :: string
  hdr_hash :: string
  hdr_nonce :: u64
  hdr_target :: string
  hdr_consensus_version :: u32
  hdr_state_root :: bytes
  hdr_tx_root :: bytes
  hdr_receipts_root :: bytes

section \<open>Accounts\<close>

record eoa_account =
  eoa_balance :: u64
  eoa_nonce :: u64

record contract_account =
  code_hash :: bytes
  storage_root :: bytes
  con_nonce :: u64
  con_balance :: u64

datatype account = Eoa eoa_account | Contract contract_account

definition account_default :: account where
  "account_default = Eoa \<lparr> eoa_balance = 0, eoa_nonce = 0 \<rparr>"

definition account_eoa :: "u64 \<Rightarrow> u64 \<Rightarrow> account" where
  "account_eoa balance nonce = Eoa \<lparr> eoa_balance = balance, eoa_nonce = nonce \<rparr>"

definition account_contract :: "bytes \<Rightarrow> bytes \<Rightarrow> account" where
  "account_contract ch sr = Contract \<lparr> code_hash = ch, storage_root = sr, con_nonce = 0, con_balance = 0 \<rparr>"

fun acc_balance :: "account \<Rightarrow> u64" where
  "acc_balance (Eoa a) = eoa_balance a"
| "acc_balance (Contract a) = con_balance a"

fun acc_nonce :: "account \<Rightarrow> u64" where
  "acc_nonce (Eoa a) = eoa_nonce a"
| "acc_nonce (Contract a) = con_nonce a"

fun acc_set_balance :: "u64 \<Rightarrow> account \<Rightarrow> account" where
  "acc_set_balance b (Eoa a) = Eoa (a\<lparr>eoa_balance := b\<rparr>)"
| "acc_set_balance b (Contract a) = Contract (a\<lparr>con_balance := b\<rparr>)"

fun acc_set_nonce :: "u64 \<Rightarrow> account \<Rightarrow> account" where
  "acc_set_nonce n (Eoa a) = Eoa (a\<lparr>eoa_nonce := n\<rparr>)"
| "acc_set_nonce n (Contract a) = Contract (a\<lparr>con_nonce := n\<rparr>)"

fun is_contract :: "account \<Rightarrow> bool" where
  "is_contract (Eoa _) = False"
| "is_contract (Contract _) = True"

fun as_contract :: "account \<Rightarrow> contract_account option" where
  "as_contract (Contract a) = Some a"
| "as_contract (Eoa _) = None"

fun acc_is_empty :: "account \<Rightarrow> bool" where
  "acc_is_empty (Eoa a) \<longleftrightarrow> eoa_balance a = 0 \<and> eoa_nonce a = 0"
| "acc_is_empty (Contract a) \<longleftrightarrow>
     con_balance a = 0 \<and> con_nonce a = 0 \<and> code_hash a = zero32 \<and> storage_root a = zero32"

text \<open>The flat JSON form of an account: the two extra keys are present for contracts only.\<close>

record account_flat =
  flat_balance :: u64
  flat_nonce :: u64
  flat_code_hash :: "bytes option"
  flat_storage_root :: "bytes option"

fun account_serialize :: "account \<Rightarrow> account_flat" where
  "account_serialize (Eoa a) =
     \<lparr> flat_balance = eoa_balance a, flat_nonce = eoa_nonce a, flat_code_hash = None, flat_storage_root = None \<rparr>"
| "account_serialize (Contract a) =
     \<lparr> flat_balance = con_balance a, flat_nonce = con_nonce a, flat_code_hash = Some (code_hash a),
       flat_storage_root = Some (storage_root a) \<rparr>"

definition account_deserialize :: "account_flat \<Rightarrow> string + account" where
  "account_deserialize flat =
     (case (flat_code_hash flat, flat_storage_root flat) of
        (None, None) \<Rightarrow> Inr (Eoa \<lparr> eoa_balance = flat_balance flat, eoa_nonce = flat_nonce flat \<rparr>)
      | (Some ch, sr) \<Rightarrow>
          Inr (Contract \<lparr> code_hash = ch, storage_root = (case sr of Some r \<Rightarrow> r | None \<Rightarrow> zero32),
            con_nonce = flat_nonce flat, con_balance = flat_balance flat \<rparr>)
      | (None, Some _) \<Rightarrow> Inl ''storage_root without code_hash is not a valid account'')"

lemma acc_set_simps [simp]:
  "acc_balance (acc_set_balance b a) = b" "acc_nonce (acc_set_balance b a) = acc_nonce a"
  "acc_nonce (acc_set_nonce n a) = n" "acc_balance (acc_set_nonce n a) = acc_balance a"
  "acc_set_balance b (acc_set_balance c a) = acc_set_balance b a"
  "acc_set_nonce n (acc_set_nonce m a) = acc_set_nonce n a"
  "acc_set_balance (acc_balance a) a = a" "acc_set_nonce (acc_nonce a) a = a"
  "is_contract (acc_set_balance b a) = is_contract a" "is_contract (acc_set_nonce n a) = is_contract a"
  by (cases a; simp)+

lemma acc_set_commute: "acc_set_balance b (acc_set_nonce n a) = acc_set_nonce n (acc_set_balance b a)"
  by (cases a) simp_all

lemma account_default_simps [simp]:
  "acc_balance account_default = 0" "acc_nonce account_default = 0" "acc_is_empty account_default"
  "\<not> is_contract account_default"
  by (simp_all add: account_default_def)

lemma acc_is_empty_balance: "acc_is_empty a \<Longrightarrow> acc_balance a = 0 \<and> acc_nonce a = 0"
  by (cases a) simp_all

section \<open>Transactions\<close>

record transfer_tx =
  t_from :: string
  t_to :: string
  t_amount :: u64
  t_fee :: u64
  t_nonce :: u64
  t_chain_id :: u32
  t_signature :: bytes
  t_is_coinbase :: bool

record create_tx =
  c_from :: string
  c_init_code :: bytes
  c_init_args :: bytes
  c_constructor_params :: "abi_param list"
  c_endowment :: u64
  c_gas_limit :: u64
  c_fee :: u64
  c_nonce :: u64
  c_chain_id :: u32
  c_signature :: bytes

record call_tx =
  k_from :: string
  k_to :: string
  k_data :: bytes
  k_value :: u64
  k_gas_limit :: u64
  k_fee :: u64
  k_nonce :: u64
  k_chain_id :: u32
  k_signature :: bytes

datatype transaction = Transfer transfer_tx | Create create_tx | Call call_tx

record block =
  blk_index :: u64
  blk_timestamp :: u64
  blk_transactions :: "transaction list"
  blk_previous_hash :: string
  blk_hash :: string
  blk_nonce :: u64
  blk_target :: string
  blk_consensus_version :: u32
  blk_state_root :: bytes
  blk_tx_root :: bytes
  blk_receipts_root :: bytes

definition header :: "block \<Rightarrow> block_header" where
  "header b = \<lparr> hdr_index = blk_index b, hdr_timestamp = blk_timestamp b,
     hdr_previous_hash = blk_previous_hash b, hdr_hash = blk_hash b, hdr_nonce = blk_nonce b,
     hdr_target = blk_target b, hdr_consensus_version = blk_consensus_version b,
     hdr_state_root = blk_state_root b, hdr_tx_root = blk_tx_root b,
     hdr_receipts_root = blk_receipts_root b \<rparr>"

definition from_header :: "block_header \<Rightarrow> transaction list \<Rightarrow> block" where
  "from_header h txs = \<lparr> blk_index = hdr_index h, blk_timestamp = hdr_timestamp h,
     blk_transactions = txs, blk_previous_hash = hdr_previous_hash h, blk_hash = hdr_hash h,
     blk_nonce = hdr_nonce h, blk_target = hdr_target h,
     blk_consensus_version = hdr_consensus_version h, blk_state_root = hdr_state_root h,
     blk_tx_root = hdr_tx_root h, blk_receipts_root = hdr_receipts_root h \<rparr>"

definition tx_transfer :: "string \<Rightarrow> string \<Rightarrow> u64 \<Rightarrow> u64 \<Rightarrow> u32 \<Rightarrow> transaction" where
  "tx_transfer from to amount nonce chain_id = Transfer \<lparr> t_from = from, t_to = to, t_amount = amount,
     t_fee = 0, t_nonce = nonce, t_chain_id = chain_id, t_signature = [], t_is_coinbase = False \<rparr>"

definition tx_coinbase :: "string \<Rightarrow> string \<Rightarrow> u64 \<Rightarrow> u32 \<Rightarrow> transaction" where
  "tx_coinbase from to amount chain_id = Transfer \<lparr> t_from = from, t_to = to, t_amount = amount,
     t_fee = 0, t_nonce = 0, t_chain_id = chain_id, t_signature = [], t_is_coinbase = True \<rparr>"

definition tx_create_with ::
  "string \<Rightarrow> bytes \<Rightarrow> bytes \<Rightarrow> abi_param list \<Rightarrow> u64 \<Rightarrow> u64 \<Rightarrow> u64 \<Rightarrow> u32 \<Rightarrow> transaction" where
  "tx_create_with from init_code init_args params endowment gas_limit nonce chain_id = Create
     \<lparr> c_from = from, c_init_code = init_code, c_init_args = init_args,
       c_constructor_params = params, c_endowment = endowment, c_gas_limit = gas_limit, c_fee = 0,
       c_nonce = nonce, c_chain_id = chain_id, c_signature = [] \<rparr>"

definition tx_create :: "string \<Rightarrow> bytes \<Rightarrow> bytes \<Rightarrow> u64 \<Rightarrow> u64 \<Rightarrow> u32 \<Rightarrow> transaction" where
  "tx_create from init_code init_args endowment nonce chain_id = Create
     \<lparr> c_from = from, c_init_code = init_code, c_init_args = init_args,
       c_constructor_params = [], c_endowment = endowment, c_gas_limit = 0, c_fee = 0,
       c_nonce = nonce, c_chain_id = chain_id, c_signature = [] \<rparr>"

definition tx_call ::
  "string \<Rightarrow> string \<Rightarrow> bytes \<Rightarrow> u64 \<Rightarrow> u64 \<Rightarrow> u64 \<Rightarrow> u32 \<Rightarrow> transaction" where
  "tx_call from to data value gas_limit nonce chain_id = Call
     \<lparr> k_from = from, k_to = to, k_data = data, k_value = value, k_gas_limit = gas_limit, k_fee = 0,
       k_nonce = nonce, k_chain_id = chain_id, k_signature = [] \<rparr>"

fun tx_sender :: "transaction \<Rightarrow> string" where
  "tx_sender (Transfer t) = t_from t"
| "tx_sender (Create t) = c_from t"
| "tx_sender (Call t) = k_from t"

fun tx_receiver :: "transaction \<Rightarrow> string option" where
  "tx_receiver (Transfer t) = Some (t_to t)"
| "tx_receiver (Create t) = None"
| "tx_receiver (Call t) = Some (k_to t)"

fun tx_nonce :: "transaction \<Rightarrow> u64" where
  "tx_nonce (Transfer t) = t_nonce t"
| "tx_nonce (Create t) = c_nonce t"
| "tx_nonce (Call t) = k_nonce t"

fun tx_chain_id :: "transaction \<Rightarrow> u32" where
  "tx_chain_id (Transfer t) = t_chain_id t"
| "tx_chain_id (Create t) = c_chain_id t"
| "tx_chain_id (Call t) = k_chain_id t"

fun tx_signature :: "transaction \<Rightarrow> bytes" where
  "tx_signature (Transfer t) = t_signature t"
| "tx_signature (Create t) = c_signature t"
| "tx_signature (Call t) = k_signature t"

fun tx_set_signature :: "bytes \<Rightarrow> transaction \<Rightarrow> transaction" where
  "tx_set_signature s (Transfer t) = Transfer (t\<lparr>t_signature := s\<rparr>)"
| "tx_set_signature s (Create t) = Create (t\<lparr>c_signature := s\<rparr>)"
| "tx_set_signature s (Call t) = Call (t\<lparr>k_signature := s\<rparr>)"

fun tx_fee :: "transaction \<Rightarrow> u64" where
  "tx_fee (Transfer t) = t_fee t"
| "tx_fee (Create t) = c_fee t"
| "tx_fee (Call t) = k_fee t"

fun tx_value :: "transaction \<Rightarrow> u64" where
  "tx_value (Transfer t) = t_amount t"
| "tx_value (Create t) = c_endowment t"
| "tx_value (Call t) = k_value t"

fun tx_is_coinbase :: "transaction \<Rightarrow> bool" where
  "tx_is_coinbase (Transfer t) = t_is_coinbase t"
| "tx_is_coinbase (Create _) = False"
| "tx_is_coinbase (Call _) = False"

lemma header_from_header [simp]: "header (from_header h txs) = h"
  by (simp add: header_def from_header_def)

lemma from_header_header [simp]: "from_header (header b) (blk_transactions b) = b"
  by (simp add: header_def from_header_def)

section \<open>Execution results and receipts\<close>

datatype tx_status = TxSuccess | TxReverted | TxOutOfGas | TxFailed

fun canonical_byte :: "tx_status \<Rightarrow> u8" where
  "canonical_byte TxSuccess = 0"
| "canonical_byte TxReverted = 1"
| "canonical_byte TxOutOfGas = 2"
| "canonical_byte TxFailed = 3"

record log =
  log_address :: string
  log_topics :: "bytes list"
  log_data :: bytes

record value_transfer =
  vt_from :: string
  vt_to :: string
  vt_amount :: u64

type_synonym contract_storage = "(bytes, bytes) fmap"
type_synonym contract_storage_map = "(string, contract_storage) fmap"

text \<open>The storage writes of an execution are a map of maps that the code iterates over; they are
  association lists here, in the order of the iteration, so that the theorems hold for every
  order.\<close>

record execution_result =
  res_gas_used :: u64
  res_logs :: "log list"
  res_status :: tx_status
  res_return_data :: bytes
  res_storage_overlay :: "(string \<times> (bytes \<times> bytes) list) list"
  res_value_transfers :: "value_transfer list"

record receipt =
  rc_txid :: bytes
  rc_gas_used :: u64
  rc_logs :: "log list"
  rc_status :: tx_status
  rc_block_height :: u64
  rc_tx_index :: u32
  rc_value_transfers :: "value_transfer list"

definition from_execution :: "bytes \<Rightarrow> u64 \<Rightarrow> u32 \<Rightarrow> execution_result \<Rightarrow> receipt" where
  "from_execution txid height tx_index res =
     \<lparr> rc_txid = txid, rc_gas_used = res_gas_used res, rc_logs = res_logs res,
       rc_status = res_status res, rc_block_height = height, rc_tx_index = tx_index,
       rc_value_transfers = res_value_transfers res \<rparr>"

definition from_vm_error :: "bytes \<Rightarrow> u64 \<Rightarrow> u32 \<Rightarrow> vm_error \<Rightarrow> u64 \<Rightarrow> receipt" where
  "from_vm_error txid height tx_index err gas_limit =
     \<lparr> rc_txid = txid, rc_gas_used = gas_limit, rc_logs = [],
       rc_status = (case err of OutOfGas \<Rightarrow> TxOutOfGas | _ \<Rightarrow> TxFailed),
       rc_block_height = height, rc_tx_index = tx_index, rc_value_transfers = [] \<rparr>"

section \<open>The virtual machine interface\<close>

record block_context =
  bc_height :: u64
  bc_timestamp :: u64
  bc_coinbase :: string
  bc_block_gas_limit :: u64

record execution_context =
  ctx_block :: block_header
  ctx_accounts :: "(string, account) fmap"
  ctx_caller :: string
  ctx_callee :: string
  ctx_value :: u64
  ctx_gas_limit :: u64
  ctx_gas_used :: u64
  ctx_depth :: u32
  ctx_reentrant :: bool
  ctx_read_only :: bool
  ctx_block_context :: block_context
  ctx_storage :: contract_storage_map
  ctx_storage_overlay :: contract_storage_map
  ctx_storage_address :: string
  ctx_input :: bytes

text \<open>The trait \<open>VmExecutor\<close>: an executor of type \<open>'v\<close> with its operations. Only
  \<open>register_code\<close> changes the executor.\<close>

record 'v vm_executor =
  vm_execute :: "'v \<Rightarrow> execution_context \<Rightarrow> vm_error + execution_result"
  vm_execute_constructor :: "'v \<Rightarrow> execution_context \<Rightarrow> vm_error + execution_result"
  vm_register_code :: "'v \<Rightarrow> string \<Rightarrow> bytes \<Rightarrow> vm_error + 'v"

definition BLOCK_GAS_LIMIT :: u64 where
  "BLOCK_GAS_LIMIT = 1000000"

definition MAX_CODE_SIZE :: nat where
  "MAX_CODE_SIZE = 24 * 1024"

definition MAX_STORAGE_PER_CONTRACT :: nat where
  "MAX_STORAGE_PER_CONTRACT = 1024 * 1024"

definition MAX_CALL_DEPTH :: u32 where
  "MAX_CALL_DEPTH = 1024"

section \<open>The flat form of an account\<close>

lemma account_serialize_roundtrip: "account_deserialize (account_serialize a) = Inr a"
  by (cases a) (simp_all add: account_deserialize_def)

end
