(* ===== verification/Sc_Codec.thy ===== *)
theory Sc_Codec
  imports Sc_Types
begin

text \<open>
  The canonical byte encoding of \<open>crates/strangecoin-core/src/serialize.rs\<close>: transactions, receipts,
  headers and blocks, their parsers, and the Merkle commitments over transaction ids and receipts.
  The readers take the whole buffer and an offset, and return the value with the new offset, as
  the code threads \<open>offset: &mut usize\<close>; a failed decode is the code's message.
\<close>

section \<open>Writers\<close>

definition FORMAT_VERSION :: u8 where "FORMAT_VERSION = 7"
definition TX_TAG_TRANSFER :: u8 where "TX_TAG_TRANSFER = 0"
definition TX_TAG_CREATE :: u8 where "TX_TAG_CREATE = 1"
definition TX_TAG_CALL :: u8 where "TX_TAG_CALL = 2"

lemmas wire_consts = FORMAT_VERSION_def TX_TAG_TRANSFER_def TX_TAG_CREATE_def TX_TAG_CALL_def

definition write_bytes :: "bytes \<Rightarrow> bytes" where
  "write_bytes b = to_be_bytes32 (of_nat (length b)) @ b"

definition write_string :: "string \<Rightarrow> bytes" where
  "write_string s = to_be_bytes32 (of_nat (length (as_bytes s))) @ as_bytes s"

definition write_bytes32 :: "ext \<Rightarrow> string \<Rightarrow> core_error + bytes" where
  "write_bytes32 X s =
     (case hex_decode X s of
        None \<Rightarrow> Inl (Panic ''Invalid hex hash'')
      | Some b \<Rightarrow> if length b = 32 then Inr b else Inl (Panic ''Expected 32-byte hash''))"

definition encode_constructor_params :: "abi_param list \<Rightarrow> string" where
  "encode_constructor_params params = join '','' (map (\<lambda>p. canonical_name (param_type p)) params)"

definition decode_constructor_params :: "string \<Rightarrow> string + abi_param list" where
  "decode_constructor_params raw =
     (if raw = [] then Inr []
      else mapM (\<lambda>name. case abi_parse name of
                    Inl _ \<Rightarrow> Inl ''Invalid constructor_params type''
                  | Inr t \<Rightarrow> Inr \<lparr> param_name = [], param_type = t \<rparr>)
             (split_on (CHR '','') raw))"

fun serialize_transaction :: "transaction \<Rightarrow> bytes" where
  "serialize_transaction (Transfer t) =
     FORMAT_VERSION # TX_TAG_TRANSFER # write_string (t_from t) @ write_string (t_to t)
       @ to_be_bytes64 (t_amount t) @ to_be_bytes64 (t_fee t) @ to_be_bytes64 (t_nonce t)
       @ to_be_bytes32 (t_chain_id t) @ [of_bool (t_is_coinbase t)]"
| "serialize_transaction (Create t) =
     FORMAT_VERSION # TX_TAG_CREATE # write_string (c_from t) @ write_bytes (c_init_code t)
       @ write_bytes (c_init_args t) @ write_string (encode_constructor_params (c_constructor_params t))
       @ to_be_bytes64 (c_endowment t) @ to_be_bytes64 (c_gas_limit t) @ to_be_bytes64 (c_fee t)
       @ to_be_bytes64 (c_nonce t) @ to_be_bytes32 (c_chain_id t)"
| "serialize_transaction (Call t) =
     FORMAT_VERSION # TX_TAG_CALL # write_string (k_from t) @ write_string (k_to t)
       @ write_bytes (k_data t) @ to_be_bytes64 (k_value t) @ to_be_bytes64 (k_gas_limit t)
       @ to_be_bytes64 (k_fee t) @ to_be_bytes64 (k_nonce t) @ to_be_bytes32 (k_chain_id t)"

definition serialize_transaction_signed :: "transaction \<Rightarrow> bytes" where
  "serialize_transaction_signed tx =
     serialize_transaction tx @ to_be_bytes32 (of_nat (length (tx_signature tx))) @ tx_signature tx"

definition txid :: "ext \<Rightarrow> transaction \<Rightarrow> bytes" where
  "txid X tx = blake3 X (serialize_transaction_signed tx)"

definition serialize_log :: "log \<Rightarrow> bytes" where
  "serialize_log l = write_string (log_address l) @ to_be_bytes32 (of_nat (length (log_topics l)))
     @ concat (log_topics l) @ write_bytes (log_data l)"

definition serialize_value_transfer :: "value_transfer \<Rightarrow> bytes" where
  "serialize_value_transfer v =
     write_string (vt_from v) @ write_string (vt_to v) @ to_be_bytes64 (vt_amount v)"

definition serialize_receipt :: "receipt \<Rightarrow> bytes" where
  "serialize_receipt r =
     FORMAT_VERSION # rc_txid r @ to_be_bytes64 (rc_block_height r) @ to_be_bytes32 (rc_tx_index r)
       @ to_be_bytes64 (rc_gas_used r) @ [canonical_byte (rc_status r)]
       @ to_be_bytes32 (of_nat (length (rc_logs r))) @ concat (map serialize_log (rc_logs r))
       @ to_be_bytes32 (of_nat (length (rc_value_transfers r)))
       @ concat (map serialize_value_transfer (rc_value_transfers r))"

definition serialize_header :: "ext \<Rightarrow> block_header \<Rightarrow> core_error + bytes" where
  "serialize_header X h =
     bind_res (write_bytes32 X (hdr_previous_hash h)) (\<lambda>previous_hash.
       case hex_decode X (hdr_target h) of
         None \<Rightarrow> Inl (Panic ''Invalid target hex'')
       | Some target_bytes \<Rightarrow>
           if length target_bytes \<noteq> 32 then Inl (Panic ''Target must be 32 bytes'')
           else Inr (FORMAT_VERSION # to_be_bytes64 (hdr_index h) @ to_be_bytes64 (hdr_timestamp h)
             @ previous_hash @ hdr_tx_root h @ target_bytes @ to_be_bytes64 (hdr_nonce h)
             @ to_be_bytes32 (hdr_consensus_version h) @ hdr_state_root h @ hdr_receipts_root h))"

definition HEADER_WIRE_LEN :: nat where
  "HEADER_WIRE_LEN = 1 + 8 + 8 + 32 + 32 + 32 + 8 + 4 + 32 + 32"

definition serialize_block_header :: "ext \<Rightarrow> block \<Rightarrow> core_error + bytes" where
  "serialize_block_header X b = serialize_header X (header b)"

definition header_hash :: "ext \<Rightarrow> block_header \<Rightarrow> core_error + bytes" where
  "header_hash X h = bind_res (serialize_header X h) (\<lambda>bs. Inr (blake3 X bs))"

definition block_hash :: "ext \<Rightarrow> block \<Rightarrow> core_error + bytes" where
  "block_hash X b = bind_res (serialize_block_header X b) (\<lambda>bs. Inr (blake3 X bs))"

definition serialize_block :: "ext \<Rightarrow> block \<Rightarrow> core_error + bytes" where
  "serialize_block X b =
     bind_res (serialize_block_header X b) (\<lambda>out.
       Inr (out @ to_be_bytes32 (of_nat (length (blk_transactions b)))
         @ concat (map (\<lambda>tx. to_be_bytes32 (of_nat (length (serialize_transaction_signed tx)))
             @ serialize_transaction_signed tx) (blk_transactions b))))"

section \<open>Merkle commitments\<close>

text \<open>One round of the loop: the hashes are taken in pairs (\<open>chunks(2)\<close>), a lone last one is paired
  with itself.\<close>

fun merkle_level :: "ext \<Rightarrow> bytes list \<Rightarrow> bytes list" where
  "merkle_level X [] = []"
| "merkle_level X [a] = [blake3 X (a @ a)]"
| "merkle_level X (a # b # hs) = blake3 X (a @ b) # merkle_level X hs"

lemma length_merkle_level: "length (merkle_level X hs) = (length hs + 1) div 2"
  by (induction X hs rule: merkle_level.induct) simp_all

function merkle_loop :: "ext \<Rightarrow> bytes list \<Rightarrow> bytes" where
  "merkle_loop X hs = (if length hs > 1 then merkle_loop X (merkle_level X hs) else hd hs)"
  by pat_completeness auto
termination
  by (relation "measure (\<lambda>(X, hs). length hs)") (auto simp: length_merkle_level)

declare merkle_loop.simps [simp del]

definition merkle_root :: "ext \<Rightarrow> bytes list \<Rightarrow> bytes" where
  "merkle_root X txids =
     (if txids = [] then zero32
      else if length txids = 1 then blake3 X (hd txids @ hd txids)
      else merkle_loop X txids)"

definition compute_tx_root :: "ext \<Rightarrow> transaction list \<Rightarrow> bytes" where
  "compute_tx_root X txs = (if txs = [] then zero32 else merkle_root X (map (txid X) txs))"

definition compute_receipts_root :: "ext \<Rightarrow> receipt list \<Rightarrow> bytes" where
  "compute_receipts_root X receipts =
     merkle_root X (sort (map (\<lambda>r. blake3 X (serialize_receipt r)) receipts))"

section \<open>Readers\<close>

definition read_u32_be :: "bytes \<Rightarrow> nat \<Rightarrow> string + u32 \<times> nat" where
  "read_u32_be bs offset =
     (if offset + 4 > length bs then Inl ''Buffer too short for u32''
      else Inr (from_be_bytes32 (take 4 (drop offset bs)), offset + 4))"

definition read_u64_be :: "bytes \<Rightarrow> nat \<Rightarrow> string + u64 \<times> nat" where
  "read_u64_be bs offset =
     (if offset + 8 > length bs then Inl ''Buffer too short for u64''
      else Inr (from_be_bytes64 (take 8 (drop offset bs)), offset + 8))"

definition read_string :: "bytes \<Rightarrow> nat \<Rightarrow> string + string \<times> nat" where
  "read_string bs offset =
     bind_res (read_u32_be bs offset) (\<lambda>(len, offset).
       if offset + unat len > length bs then Inl ''Buffer too short for string''
       else case from_utf8 (take (unat len) (drop offset bs)) of
              None \<Rightarrow> Inl ''Invalid UTF-8 in string''
            | Some s \<Rightarrow> Inr (s, offset + unat len))"

definition read_bytes :: "bytes \<Rightarrow> nat \<Rightarrow> string + bytes \<times> nat" where
  "read_bytes bs offset =
     bind_res (read_u32_be bs offset) (\<lambda>(len, offset).
       if offset + unat len > length bs then Inl ''Buffer too short for bytes''
       else Inr (take (unat len) (drop offset bs), offset + unat len))"

definition read_tx_tag :: "bytes \<Rightarrow> nat \<Rightarrow> string + u8 \<times> nat" where
  "read_tx_tag bs offset =
     (if offset \<ge> length bs then Inl ''Buffer too short for tx tag''
      else let tag = bs ! offset
           in if tag = TX_TAG_TRANSFER \<or> tag = TX_TAG_CREATE \<or> tag = TX_TAG_CALL
              then Inr (tag, offset + 1) else Inl ''Unknown transaction tag'')"

definition read_transfer_body :: "bytes \<Rightarrow> nat \<Rightarrow> string + transaction \<times> nat" where
  "read_transfer_body bs offset =
     bind_res (read_string bs offset) (\<lambda>(from, offset).
     bind_res (read_string bs offset) (\<lambda>(to, offset).
     bind_res (read_u64_be bs offset) (\<lambda>(amount, offset).
     bind_res (read_u64_be bs offset) (\<lambda>(fee, offset).
     bind_res (read_u64_be bs offset) (\<lambda>(nonce, offset).
     bind_res (read_u32_be bs offset) (\<lambda>(chain_id, offset).
       if offset \<ge> length bs then Inl ''Buffer too short for is_coinbase''
       else Inr (Transfer \<lparr> t_from = from, t_to = to, t_amount = amount, t_fee = fee, t_nonce = nonce,
              t_chain_id = chain_id, t_signature = [], t_is_coinbase = (bs ! offset \<noteq> 0) \<rparr>, offset + 1)))))))"

definition read_create_body :: "bytes \<Rightarrow> nat \<Rightarrow> string + transaction \<times> nat" where
  "read_create_body bs offset =
     bind_res (read_string bs offset) (\<lambda>(from, offset).
     bind_res (read_bytes bs offset) (\<lambda>(init_code, offset).
     bind_res (read_bytes bs offset) (\<lambda>(init_args, offset).
     bind_res (read_string bs offset) (\<lambda>(raw, offset).
     bind_res (decode_constructor_params raw) (\<lambda>params.
     bind_res (read_u64_be bs offset) (\<lambda>(endowment, offset).
     bind_res (read_u64_be bs offset) (\<lambda>(gas_limit, offset).
     bind_res (read_u64_be bs offset) (\<lambda>(fee, offset).
     bind_res (read_u64_be bs offset) (\<lambda>(nonce, offset).
     bind_res (read_u32_be bs offset) (\<lambda>(chain_id, offset).
       Inr (Create \<lparr> c_from = from, c_init_code = init_code, c_init_args = init_args,
         c_constructor_params = params, c_endowment = endowment, c_gas_limit = gas_limit, c_fee = fee,
         c_nonce = nonce, c_chain_id = chain_id, c_signature = [] \<rparr>, offset)))))))))))"

definition read_call_body :: "bytes \<Rightarrow> nat \<Rightarrow> string + transaction \<times> nat" where
  "read_call_body bs offset =
     bind_res (read_string bs offset) (\<lambda>(from, offset).
     bind_res (read_string bs offset) (\<lambda>(to, offset).
     bind_res (read_bytes bs offset) (\<lambda>(data, offset).
     bind_res (read_u64_be bs offset) (\<lambda>(value, offset).
     bind_res (read_u64_be bs offset) (\<lambda>(gas_limit, offset).
     bind_res (read_u64_be bs offset) (\<lambda>(fee, offset).
     bind_res (read_u64_be bs offset) (\<lambda>(nonce, offset).
     bind_res (read_u32_be bs offset) (\<lambda>(chain_id, offset).
       Inr (Call \<lparr> k_from = from, k_to = to, k_data = data, k_value = value, k_gas_limit = gas_limit,
         k_fee = fee, k_nonce = nonce, k_chain_id = chain_id, k_signature = [] \<rparr>, offset)))))))))"

definition deserialize_unsigned_body :: "bytes \<Rightarrow> nat \<Rightarrow> string + transaction \<times> nat" where
  "deserialize_unsigned_body bs offset =
     bind_res (read_tx_tag bs offset) (\<lambda>(tag, offset).
       if tag = TX_TAG_TRANSFER then read_transfer_body bs offset
       else if tag = TX_TAG_CREATE then read_create_body bs offset
       else if tag = TX_TAG_CALL then read_call_body bs offset
       else Inl ''Unknown transaction tag'')"

definition deserialize_transaction :: "bytes \<Rightarrow> string + transaction" where
  "deserialize_transaction bs =
     (if bs = [] then Inl ''Empty buffer''
      else if bs ! 0 \<noteq> FORMAT_VERSION then Inl ''Unsupported format version''
      else bind_res (deserialize_unsigned_body bs 1) (\<lambda>(tx, _). Inr tx))"

definition deserialize_transaction_signed :: "bytes \<Rightarrow> string + transaction" where
  "deserialize_transaction_signed bs =
     (if bs = [] then Inl ''Empty buffer''
      else if bs ! 0 \<noteq> FORMAT_VERSION then Inl ''Unsupported format version''
      else bind_res (deserialize_unsigned_body bs 1) (\<lambda>(tx, offset).
             bind_res (read_u32_be bs offset) (\<lambda>(sig_len, offset).
               if offset + unat sig_len \<noteq> length bs then Inl ''Signature length mismatch''
               else Inr (tx_set_signature (drop offset bs) tx))))"

text \<open>The panic of \<open>header_hash\<close> inside the decoder is the message \<open>panic\<close>; the target and the
  previous hash it re-decodes were just encoded.\<close>

definition deserialize_header :: "ext \<Rightarrow> bytes \<Rightarrow> string + block_header" where
  "deserialize_header X bs =
     (if length bs \<noteq> HEADER_WIRE_LEN then Inl ''Header length mismatch''
      else if bs ! 0 \<noteq> FORMAT_VERSION then Inl ''Unsupported format version''
      else
        bind_res (read_u64_be bs 1) (\<lambda>(index, offset).
        bind_res (read_u64_be bs offset) (\<lambda>(timestamp, offset).
          let previous_hash = hex_encode X (take 32 (drop offset bs)); offset = offset + 32;
              tx_root = take 32 (drop offset bs); offset = offset + 32;
              target = hex_encode X (take 32 (drop offset bs)); offset = offset + 32
          in bind_res (read_u64_be bs offset) (\<lambda>(nonce, offset).
             bind_res (read_u32_be bs offset) (\<lambda>(consensus_version, offset).
               let state_root = take 32 (drop offset bs); offset = offset + 32;
                   receipts_root = take 32 (drop offset bs);
                   h = \<lparr> hdr_index = index, hdr_timestamp = timestamp, hdr_previous_hash = previous_hash,
                         hdr_hash = [], hdr_nonce = nonce, hdr_target = target,
                         hdr_consensus_version = consensus_version, hdr_state_root = state_root,
                         hdr_tx_root = tx_root, hdr_receipts_root = receipts_root \<rparr>
               in case header_hash X h of
                    Inl _ \<Rightarrow> Inl ''panic''
                  | Inr hash \<Rightarrow> Inr (h\<lparr>hdr_hash := hex_encode X hash\<rparr>))))))"

fun read_txs :: "nat \<Rightarrow> bytes \<Rightarrow> nat \<Rightarrow> string + transaction list \<times> nat" where
  "read_txs 0 bs offset = Inr ([], offset)"
| "read_txs (Suc n) bs offset =
     bind_res (read_u32_be bs offset) (\<lambda>(tx_len, offset).
       if offset + unat tx_len > length bs then Inl ''Transaction length exceeds buffer''
       else bind_res (deserialize_transaction_signed (take (unat tx_len) (drop offset bs))) (\<lambda>tx.
              bind_res (read_txs n bs (offset + unat tx_len)) (\<lambda>(txs, offset). Inr (tx # txs, offset))))"

definition deserialize_block :: "ext \<Rightarrow> bytes \<Rightarrow> string + block" where
  "deserialize_block X bs =
     (if length bs < HEADER_WIRE_LEN + 4 then Inl ''Block too short''
      else bind_res (deserialize_header X (take HEADER_WIRE_LEN bs)) (\<lambda>h.
           bind_res (read_u32_be bs HEADER_WIRE_LEN) (\<lambda>(tx_count, offset).
             if unat tx_count > (length bs - offset) div 4 then Inl ''Transaction count exceeds buffer''
             else bind_res (read_txs (unat tx_count) bs offset) (\<lambda>(txs, offset).
                    if offset \<noteq> length bs then Inl ''Trailing bytes after block''
                    else Inr (from_header h txs)))))"

section \<open>Reading back what was written\<close>

text \<open>\<open>unread bs off r\<close>: at offset \<open>off\<close> of the buffer, \<open>r\<close> is what is left. Each reader has an
  elimination rule that consumes its prefix of \<open>r\<close> and continues.\<close>

definition unread :: "bytes \<Rightarrow> nat \<Rightarrow> bytes \<Rightarrow> bool" where
  "unread bs off r \<longleftrightarrow> off \<le> length bs \<and> drop off bs = r"

lemma unread_drop: "unread bs off r \<Longrightarrow> drop off bs = r"
  by (simp add: unread_def)

lemma unread_0: "unread bs 0 bs"
  by (simp add: unread_def)

lemma unread_start: "bs = r \<Longrightarrow> unread bs 0 r"
  by (simp add: unread_def)

lemma unread_length: "unread bs off r \<Longrightarrow> length bs = off + length r"
  by (auto simp: unread_def)

lemma unread_append: "unread bs off (a @ r) \<Longrightarrow> take (length a) (drop off bs) = a"
  by (simp add: unread_def)

lemma unread_advance: "unread bs off (a @ r) \<Longrightarrow> unread bs (off + length a) r"
proof -
  assume *: "unread bs off (a @ r)"
  have "drop (off + length a) bs = drop (length a) (drop off bs)" by (simp add: add.commute)
  with * unread_length [OF *] show ?thesis by (simp add: unread_def)
qed

lemma unread_nth: "unread bs off (x # r) \<Longrightarrow> bs ! off = x \<and> off < length bs"
proof -
  assume *: "unread bs off (x # r)"
  then have "drop off bs = x # r" by (simp add: unread_def)
  then show ?thesis
    by (metis drop_eq_Nil hd_drop_conv_nth list.distinct(1) list.sel(1) not_le)
qed

lemma unread_Cons: "unread bs off (x # r) \<Longrightarrow> unread bs (Suc off) r"
  using unread_advance [of bs off "[x]" r] by simp

lemma read_u32_unread:
  "unread bs off (to_be_bytes32 x @ r) \<Longrightarrow> read_u32_be bs off = Inr (x, off + 4) \<and> unread bs (off + 4) r"
  using unread_append [of bs off "to_be_bytes32 x" r] unread_advance [of bs off "to_be_bytes32 x" r]
    unread_length [of bs off "to_be_bytes32 x @ r"]
  by (auto simp: read_u32_be_def)

lemma read_u64_unread:
  "unread bs off (to_be_bytes64 x @ r) \<Longrightarrow> read_u64_be bs off = Inr (x, off + 8) \<and> unread bs (off + 8) r"
  using unread_append [of bs off "to_be_bytes64 x" r] unread_advance [of bs off "to_be_bytes64 x" r]
    unread_length [of bs off "to_be_bytes64 x @ r"]
  by (auto simp: read_u64_be_def)

lemma unat_of_nat_u32: "n < 2 ^ 32 \<Longrightarrow> unat (of_nat n :: u32) = n"
  by (simp add: unat_of_nat)

lemma read_u32E:
  assumes "unread bs off (to_be_bytes32 x @ r)" and "unread bs (off + 4) r \<Longrightarrow> f x (off + 4) = res"
  shows "bind_res (read_u32_be bs off) (\<lambda>(x, off). f x off) = res"
  using read_u32_unread [OF assms(1)] assms(2) by simp

lemma read_u64E:
  assumes "unread bs off (to_be_bytes64 x @ r)" and "unread bs (off + 8) r \<Longrightarrow> f x (off + 8) = res"
  shows "bind_res (read_u64_be bs off) (\<lambda>(x, off). f x off) = res"
  using read_u64_unread [OF assms(1)] assms(2) by simp

lemma read_bytes_unread:
  assumes "unread bs off (write_bytes b @ r)" and "length b < 2 ^ 32"
  shows "\<exists>off'. read_bytes bs off = Inr (b, off') \<and> unread bs off' r"
proof -
  have "unread bs off (to_be_bytes32 (of_nat (length b)) @ b @ r)" using assms by (simp add: write_bytes_def)
  note u = read_u32_unread [OF this]
  then have "take (length b) (drop (off + 4) bs) = b" "length bs = off + 4 + length b + length r"
    using unread_append [of bs "off + 4" b r] unread_length [of bs "off + 4" "b @ r"] by auto
  then show ?thesis
    using u assms(2) unread_advance [of bs "off + 4" b r]
    by (auto simp: read_bytes_def unat_of_nat_u32)
qed

text \<open>A string that a Rust \<open>String\<close> of wire length can hold.\<close>

definition wire_string :: "string \<Rightarrow> bool" where
  "wire_string s \<longleftrightarrow> valid_utf8 (as_bytes s) \<and> length s < 2 ^ 32"

lemma read_string_unread:
  assumes "unread bs off (write_string s @ r)" and "wire_string s"
  shows "\<exists>off'. read_string bs off = Inr (s, off') \<and> unread bs off' r"
proof -
  have "unread bs off (to_be_bytes32 (of_nat (length s)) @ as_bytes s @ r)"
    using assms by (simp add: write_string_def)
  note u = read_u32_unread [OF this]
  then have "take (length s) (drop (off + 4) bs) = as_bytes s" "length bs = off + 4 + length s + length r"
    using unread_append [of bs "off + 4" "as_bytes s" r] unread_length [of bs "off + 4" "as_bytes s @ r"]
    by auto
  then show ?thesis
    using u assms(2) unread_advance [of bs "off + 4" "as_bytes s" r]
    by (auto simp: read_string_def unat_of_nat_u32 wire_string_def from_utf8_as_bytes)
qed

lemma read_bytesE:
  assumes "unread bs off (write_bytes b @ r)" and "length b < 2 ^ 32"
    and "\<And>off'. unread bs off' r \<Longrightarrow> f b off' = res"
  shows "bind_res (read_bytes bs off) (\<lambda>(x, off). f x off) = res"
  using read_bytes_unread [OF assms(1,2)] assms(3) by auto

lemma read_stringE:
  assumes "unread bs off (write_string s @ r)" and "wire_string s"
    and "\<And>off'. unread bs off' r \<Longrightarrow> f s off' = res"
  shows "bind_res (read_string bs off) (\<lambda>(x, off). f x off) = res"
  using read_string_unread [OF assms(1,2)] assms(3) by auto

subsection \<open>Constructor parameters\<close>

text \<open>A parameter list survives the wire when its names are empty and no type name has a comma,
  that is, no tuple of two or more components occurs in it.\<close>

fun comma_free :: "abi_type \<Rightarrow> bool" where
  "comma_free (AArray t) = comma_free t"
| "comma_free (AFixedArray t _) = comma_free t"
| "comma_free (ATuple ts) = (length ts \<le> 1 \<and> list_all comma_free ts)"
| "comma_free _ = True"

definition wire_params :: "abi_param list \<Rightarrow> bool" where
  "wire_params ps \<longleftrightarrow> list_all (\<lambda>p. param_name p = [] \<and> wf_abi (param_type p) \<and> comma_free (param_type p)) ps"

lemma comma_notin_show_nat: "CHR '','' \<notin> set (show_nat n)"
  using digits_no_char [OF show_nat_digits] by (simp add: is_digit_def)

lemma comma_free_name: "comma_free t \<Longrightarrow> CHR '','' \<notin> set (canonical_name t)"
proof (induction t)
  case (ATuple ts)
  from ATuple.prems consider "ts = []" | t where "ts = [t]" by (cases ts) auto
  then show ?case using ATuple by cases simp_all
qed (simp_all add: comma_notin_show_nat)

lemma decode_encode_params:
  assumes "wire_params ps"
  shows "decode_constructor_params (encode_constructor_params ps) = Inr ps"
proof (cases ps)
  case Nil
  then show ?thesis by (simp add: decode_constructor_params_def encode_constructor_params_def)
next
  case (Cons p qs)
  let ?names = "map (\<lambda>p. canonical_name (param_type p)) ps"
  let ?dec = "\<lambda>name. case abi_parse name of Inl _ \<Rightarrow> Inl ''Invalid constructor_params type''
    | Inr t \<Rightarrow> Inr \<lparr> param_name = [], param_type = t \<rparr>"
  have "join '','' ?names \<noteq> []" using Cons by (cases qs) auto
  moreover have "split_on CHR '','' (join '','' ?names) = ?names"
    using Cons assms by (intro split_on_join) (auto simp: wire_params_def list_all_iff comma_free_name)
  moreover have "mapM ?dec ?names = Inr ps"
    using assms by (induction ps) (simp_all add: wire_params_def abi_parse_canonical_name)
  ultimately show ?thesis by (simp add: decode_constructor_params_def encode_constructor_params_def)
qed

subsection \<open>Transactions\<close>

fun wire_tx :: "transaction \<Rightarrow> bool" where
  "wire_tx (Transfer t) \<longleftrightarrow> wire_string (t_from t) \<and> wire_string (t_to t) \<and> length (t_signature t) < 2 ^ 32"
| "wire_tx (Create t) \<longleftrightarrow> wire_string (c_from t) \<and> length (c_init_code t) < 2 ^ 32
     \<and> length (c_init_args t) < 2 ^ 32 \<and> wire_params (c_constructor_params t)
     \<and> wire_string (encode_constructor_params (c_constructor_params t)) \<and> length (c_signature t) < 2 ^ 32"
| "wire_tx (Call t) \<longleftrightarrow> wire_string (k_from t) \<and> wire_string (k_to t) \<and> length (k_data t) < 2 ^ 32
     \<and> length (k_signature t) < 2 ^ 32"

definition strip_signature :: "transaction \<Rightarrow> transaction" where
  "strip_signature tx = tx_set_signature [] tx"

lemma read_transfer_unread:
  assumes "wire_tx (Transfer t)"
    and "unread bs off (write_string (t_from t) @ write_string (t_to t) @ to_be_bytes64 (t_amount t)
      @ to_be_bytes64 (t_fee t) @ to_be_bytes64 (t_nonce t) @ to_be_bytes32 (t_chain_id t)
      @ of_bool (t_is_coinbase t) # r)"
  shows "\<exists>off'. read_transfer_body bs off = Inr (strip_signature (Transfer t), off') \<and> unread bs off' r"
proof -
  obtain o1 where 1: "read_string bs off = Inr (t_from t, o1)"
    and u: "unread bs o1 (write_string (t_to t) @ to_be_bytes64 (t_amount t)
      @ to_be_bytes64 (t_fee t) @ to_be_bytes64 (t_nonce t) @ to_be_bytes32 (t_chain_id t)
      @ of_bool (t_is_coinbase t) # r)"
    using read_string_unread [OF assms(2)] assms(1) by auto
  obtain o2 where 2: "read_string bs o1 = Inr (t_to t, o2)"
    and u: "unread bs o2 (to_be_bytes64 (t_amount t) @ to_be_bytes64 (t_fee t) @ to_be_bytes64 (t_nonce t)
      @ to_be_bytes32 (t_chain_id t) @ of_bool (t_is_coinbase t) # r)"
    using read_string_unread [OF u] assms(1) by auto
  note 3 = read_u64_unread [OF u]
  note 4 = read_u64_unread [OF conjunct2 [OF 3]]
  note 5 = read_u64_unread [OF conjunct2 [OF 4]]
  note 6 = read_u32_unread [OF conjunct2 [OF 5]]
  note 7 = unread_nth [OF conjunct2 [OF 6]] unread_Cons [OF conjunct2 [OF 6]]
  show ?thesis
    using 1 2 3 4 5 6 7 by (simp add: read_transfer_body_def strip_signature_def not_le)
qed

lemma read_create_unread:
  assumes "wire_tx (Create t)"
    and "unread bs off (write_string (c_from t) @ write_bytes (c_init_code t) @ write_bytes (c_init_args t)
      @ write_string (encode_constructor_params (c_constructor_params t)) @ to_be_bytes64 (c_endowment t)
      @ to_be_bytes64 (c_gas_limit t) @ to_be_bytes64 (c_fee t) @ to_be_bytes64 (c_nonce t)
      @ to_be_bytes32 (c_chain_id t) @ r)"
  shows "\<exists>off'. read_create_body bs off = Inr (strip_signature (Create t), off') \<and> unread bs off' r"
proof -
  note w = assms(1) [simplified]
  obtain o1 where 1: "read_string bs off = Inr (c_from t, o1)" and u: "unread bs o1 (write_bytes (c_init_code t)
      @ write_bytes (c_init_args t) @ write_string (encode_constructor_params (c_constructor_params t))
      @ to_be_bytes64 (c_endowment t) @ to_be_bytes64 (c_gas_limit t) @ to_be_bytes64 (c_fee t)
      @ to_be_bytes64 (c_nonce t) @ to_be_bytes32 (c_chain_id t) @ r)"
    using read_string_unread [OF assms(2)] w by auto
  obtain o2 where 2: "read_bytes bs o1 = Inr (c_init_code t, o2)" and u: "unread bs o2
      (write_bytes (c_init_args t) @ write_string (encode_constructor_params (c_constructor_params t))
      @ to_be_bytes64 (c_endowment t) @ to_be_bytes64 (c_gas_limit t) @ to_be_bytes64 (c_fee t)
      @ to_be_bytes64 (c_nonce t) @ to_be_bytes32 (c_chain_id t) @ r)"
    using read_bytes_unread [OF u] w by auto
  obtain o3 where 3: "read_bytes bs o2 = Inr (c_init_args t, o3)" and u: "unread bs o3
      (write_string (encode_constructor_params (c_constructor_params t))
      @ to_be_bytes64 (c_endowment t) @ to_be_bytes64 (c_gas_limit t) @ to_be_bytes64 (c_fee t)
      @ to_be_bytes64 (c_nonce t) @ to_be_bytes32 (c_chain_id t) @ r)"
    using read_bytes_unread [OF u] w by auto
  obtain o4 where 4: "read_string bs o3 = Inr (encode_constructor_params (c_constructor_params t), o4)"
    and u: "unread bs o4 (to_be_bytes64 (c_endowment t) @ to_be_bytes64 (c_gas_limit t)
      @ to_be_bytes64 (c_fee t) @ to_be_bytes64 (c_nonce t) @ to_be_bytes32 (c_chain_id t) @ r)"
    using read_string_unread [OF u] w by auto
  note 5 = read_u64_unread [OF u]
  note 6 = read_u64_unread [OF conjunct2 [OF 5]]
  note 7 = read_u64_unread [OF conjunct2 [OF 6]]
  note 8 = read_u64_unread [OF conjunct2 [OF 7]]
  note 9 = read_u32_unread [OF conjunct2 [OF 8]]
  show ?thesis
    using 1 2 3 4 5 6 7 8 9 w by (simp add: read_create_body_def strip_signature_def decode_encode_params)
qed

lemma read_call_unread:
  assumes "wire_tx (Call t)"
    and "unread bs off (write_string (k_from t) @ write_string (k_to t) @ write_bytes (k_data t)
      @ to_be_bytes64 (k_value t) @ to_be_bytes64 (k_gas_limit t) @ to_be_bytes64 (k_fee t)
      @ to_be_bytes64 (k_nonce t) @ to_be_bytes32 (k_chain_id t) @ r)"
  shows "\<exists>off'. read_call_body bs off = Inr (strip_signature (Call t), off') \<and> unread bs off' r"
proof -
  note w = assms(1) [simplified]
  obtain o1 where 1: "read_string bs off = Inr (k_from t, o1)" and u: "unread bs o1 (write_string (k_to t)
      @ write_bytes (k_data t) @ to_be_bytes64 (k_value t) @ to_be_bytes64 (k_gas_limit t)
      @ to_be_bytes64 (k_fee t) @ to_be_bytes64 (k_nonce t) @ to_be_bytes32 (k_chain_id t) @ r)"
    using read_string_unread [OF assms(2)] w by auto
  obtain o2 where 2: "read_string bs o1 = Inr (k_to t, o2)" and u: "unread bs o2 (write_bytes (k_data t)
      @ to_be_bytes64 (k_value t) @ to_be_bytes64 (k_gas_limit t) @ to_be_bytes64 (k_fee t)
      @ to_be_bytes64 (k_nonce t) @ to_be_bytes32 (k_chain_id t) @ r)"
    using read_string_unread [OF u] w by auto
  obtain o3 where 3: "read_bytes bs o2 = Inr (k_data t, o3)" and u: "unread bs o3
      (to_be_bytes64 (k_value t) @ to_be_bytes64 (k_gas_limit t) @ to_be_bytes64 (k_fee t)
      @ to_be_bytes64 (k_nonce t) @ to_be_bytes32 (k_chain_id t) @ r)"
    using read_bytes_unread [OF u] w by auto
  note 4 = read_u64_unread [OF u]
  note 5 = read_u64_unread [OF conjunct2 [OF 4]]
  note 6 = read_u64_unread [OF conjunct2 [OF 5]]
  note 7 = read_u64_unread [OF conjunct2 [OF 6]]
  note 8 = read_u32_unread [OF conjunct2 [OF 7]]
  show ?thesis
    using 1 2 3 4 5 6 7 8 by (simp add: read_call_body_def strip_signature_def)
qed

lemma deserialize_body_unread:
  assumes "wire_tx tx" and "unread bs 0 (serialize_transaction tx @ r)"
  shows "\<exists>off'. deserialize_unsigned_body bs 1 = Inr (strip_signature tx, off') \<and> unread bs off' r"
    and "bs \<noteq> []" and "bs ! 0 = FORMAT_VERSION"
proof -
  obtain tag body where ser: "serialize_transaction tx = FORMAT_VERSION # tag # body"
    by (cases tx) auto
  have u0: "unread bs 0 (FORMAT_VERSION # tag # body @ r)" using assms(2) ser by simp
  show "bs \<noteq> []" "bs ! 0 = FORMAT_VERSION" using unread_nth [OF u0] by auto
  note u1 = unread_Cons [OF u0, simplified]
  note t = unread_nth [OF u1] and u2 = unread_Cons [OF u1]
  have tag: "read_tx_tag bs 1 = Inr (tag, 2)"
    using t ser by (cases tx) (auto simp: read_tx_tag_def Let_def)
  show "\<exists>off'. deserialize_unsigned_body bs 1 = Inr (strip_signature tx, off') \<and> unread bs off' r"
  proof (cases tx)
    case (Transfer t)
    then show ?thesis
      using read_transfer_unread [of t bs 2 r] assms(1) u2 tag ser
      by (auto simp: deserialize_unsigned_body_def wire_consts numeral_2_eq_2)
  next
    case (Create t)
    then show ?thesis
      using read_create_unread [of t bs 2 r] assms(1) u2 tag ser
      by (auto simp: deserialize_unsigned_body_def wire_consts numeral_2_eq_2)
  next
    case (Call t)
    then show ?thesis
      using read_call_unread [of t bs 2 r] assms(1) u2 tag ser
      by (auto simp: deserialize_unsigned_body_def wire_consts numeral_2_eq_2)
  qed
qed

lemma tx_set_strip_signature [simp]: "tx_set_signature (tx_signature tx) (strip_signature tx) = tx"
  by (cases tx) (simp_all add: strip_signature_def)

lemma deserialize_serialize_unsigned:
  "wire_tx tx \<Longrightarrow> deserialize_transaction (serialize_transaction tx) = Inr (strip_signature tx)"
  using deserialize_body_unread [of tx "serialize_transaction tx" "[]"] unread_0
  by (fastforce simp: deserialize_transaction_def)

lemma deserialize_serialize_signed:
  assumes "wire_tx tx"
  shows "deserialize_transaction_signed (serialize_transaction_signed tx) = Inr tx"
proof -
  define bs s where "bs = serialize_transaction_signed tx" and "s = tx_signature tx"
  have len: "length s < 2 ^ 32" using assms by (cases tx) (auto simp: s_def)
  have u: "unread bs 0 (serialize_transaction tx @ to_be_bytes32 (of_nat (length s)) @ s)"
    using unread_0 [of bs] by (simp add: serialize_transaction_signed_def bs_def s_def)
  note body = deserialize_body_unread [OF assms u]
  then obtain off where off: "deserialize_unsigned_body bs 1 = Inr (strip_signature tx, off)"
    "unread bs off (to_be_bytes32 (of_nat (length s)) @ s)" by blast
  note sig = read_u32_unread [OF off(2)]
  note rest = unread_drop [OF conjunct2 [OF sig]] unread_length [OF conjunct2 [OF sig]]
  have "deserialize_transaction_signed bs = Inr (tx_set_signature s (strip_signature tx))"
    using body(2,3) off(1) sig rest len by (simp add: deserialize_transaction_signed_def unat_of_nat_u32)
  then show ?thesis by (simp add: bs_def s_def)
qed

subsection \<open>Headers\<close>

definition hex_canonical32 :: "ext \<Rightarrow> string \<Rightarrow> bool" where
  "hex_canonical32 X s = (case hex_decode X s of Some b \<Rightarrow> length b = 32 \<and> hex_encode X b = s | None \<Rightarrow> False)"

text \<open>A header as the decoder builds it: 32-byte commitments, hexadecimal strings in the form the
  encoder writes, and the derived hash.\<close>

definition wire_header :: "ext \<Rightarrow> block_header \<Rightarrow> bool" where
  "wire_header X h \<longleftrightarrow> length (hdr_tx_root h) = 32 \<and> length (hdr_state_root h) = 32
     \<and> length (hdr_receipts_root h) = 32 \<and> hex_canonical32 X (hdr_previous_hash h)
     \<and> hex_canonical32 X (hdr_target h)
     \<and> (case header_hash X h of Inr hs \<Rightarrow> hdr_hash h = hex_encode X hs | Inl _ \<Rightarrow> False)"

lemma unread_take32:
  "unread bs off (a @ r) \<Longrightarrow> length a = 32 \<Longrightarrow> take 32 (drop off bs) = a \<and> unread bs (off + 32) r"
  using unread_append [of bs off a r] unread_advance [of bs off a r] by simp

lemma serialize_header_bytes:
  assumes "hex_decode X (hdr_previous_hash h) = Some p" and "length p = 32"
    and "hex_decode X (hdr_target h) = Some t" and "length t = 32"
  shows "serialize_header X h = Inr (FORMAT_VERSION # to_be_bytes64 (hdr_index h) @ to_be_bytes64 (hdr_timestamp h)
    @ p @ hdr_tx_root h @ t @ to_be_bytes64 (hdr_nonce h) @ to_be_bytes32 (hdr_consensus_version h)
    @ hdr_state_root h @ hdr_receipts_root h)"
  using assms by (simp add: serialize_header_def write_bytes32_def)

lemma header_hash_hdr_hash [simp]: "header_hash X (h\<lparr>hdr_hash := x\<rparr>) = header_hash X h"
  by (simp add: header_hash_def serialize_header_def cong: option.case_cong if_cong)

lemma deserialize_serialize_header:
  assumes wf: "wire_header X h" and ser: "serialize_header X h = Inr bs"
  shows "deserialize_header X bs = Inr h \<and> length bs = HEADER_WIRE_LEN"
proof -
  obtain p where p: "hex_decode X (hdr_previous_hash h) = Some p" "length p = 32" "hex_encode X p = hdr_previous_hash h"
    using wf by (auto simp: wire_header_def hex_canonical32_def split: option.splits)
  obtain t where t: "hex_decode X (hdr_target h) = Some t" "length t = 32" "hex_encode X t = hdr_target h"
    using wf by (auto simp: wire_header_def hex_canonical32_def split: option.splits)
  have len: "length (hdr_tx_root h) = 32" "length (hdr_state_root h) = 32" "length (hdr_receipts_root h) = 32"
    using wf by (simp_all add: wire_header_def)
  obtain hs where hs: "header_hash X h = Inr hs" "hdr_hash h = hex_encode X hs"
    using wf by (auto simp: wire_header_def split: sum.splits)
  have bs: "bs = FORMAT_VERSION # to_be_bytes64 (hdr_index h) @ to_be_bytes64 (hdr_timestamp h)
    @ p @ hdr_tx_root h @ t @ to_be_bytes64 (hdr_nonce h) @ to_be_bytes32 (hdr_consensus_version h)
    @ hdr_state_root h @ hdr_receipts_root h @ []"
    using ser serialize_header_bytes [OF p(1,2) t(1,2)] by simp
  have lbs: "length bs = HEADER_WIRE_LEN" unfolding bs HEADER_WIRE_LEN_def using len p t by simp
  note u0 = unread_start [OF bs]
  have ver: "bs ! 0 = FORMAT_VERSION" by (simp add: bs)
  note u1 = unread_Cons [OF u0]
  note 1 = read_u64_unread [OF u1]
  note 2 = read_u64_unread [OF conjunct2 [OF 1]]
  note 3 = unread_take32 [OF conjunct2 [OF 2] p(2)]
  note 4 = unread_take32 [OF conjunct2 [OF 3] len(1)]
  note 5 = unread_take32 [OF conjunct2 [OF 4] t(2)]
  note 6 = read_u64_unread [OF conjunct2 [OF 5]]
  note 7 = read_u32_unread [OF conjunct2 [OF 6]]
  note 8 = unread_take32 [OF conjunct2 [OF 7] len(2)]
  note 9 = unread_take32 [OF conjunct2 [OF 8] len(3)]
  note steps = 1 2 3 4 5 6 7 8 9
  have "header_hash X (h\<lparr>hdr_hash := []\<rparr>) = Inr hs" using hs by simp
  then have "deserialize_header X bs = Inr ((h\<lparr>hdr_hash := []\<rparr>)\<lparr>hdr_hash := hex_encode X hs\<rparr>)"
    using steps [THEN conjunct1] lbs ver p(3) t(3) by (cases h) (simp add: deserialize_header_def Let_def)
  with hs lbs show ?thesis by simp
qed

lemma bytes_split: "take n (drop k bs) @ drop (k + n) bs = drop k bs"
  by (metis add.commute append_take_drop_id drop_drop)

text \<open>Conversely the decoder accepts one encoding only: encoding what it returns gives the same
  bytes, so the hash it computes is the hash of the bytes received.\<close>

lemma serialize_deserialize_header:
  assumes "hex_ok X" and "deserialize_header X bs = Inr h"
  shows "serialize_header X h = Inr bs" and "hdr_hash h = hex_encode X (blake3 X bs)" and "wire_header X h"
proof -
  let ?p = "\<lambda>k. take 32 (drop k bs)"
  define h0 where "h0 = \<lparr> hdr_index = from_be_bytes64 (take 8 (drop 1 bs)),
    hdr_timestamp = from_be_bytes64 (take 8 (drop 9 bs)), hdr_previous_hash = hex_encode X (?p 17), hdr_hash = [],
    hdr_nonce = from_be_bytes64 (take 8 (drop 113 bs)), hdr_target = hex_encode X (?p 81),
    hdr_consensus_version = from_be_bytes32 (take 4 (drop 121 bs)), hdr_state_root = ?p 125,
    hdr_tx_root = ?p 49, hdr_receipts_root = ?p 157 \<rparr>"
  have len: "length bs = 189" and ver: "bs ! 0 = FORMAT_VERSION"
    using assms(2) by (auto simp: deserialize_header_def HEADER_WIRE_LEN_def split: if_splits)
  obtain hash where hash: "header_hash X h0 = Inr hash" "h = h0\<lparr>hdr_hash := hex_encode X hash\<rparr>"
    using assms(2) len ver
    by (auto simp: deserialize_header_def read_u64_be_def read_u32_be_def HEADER_WIRE_LEN_def Let_def h0_def
        split: sum.splits)
  have bs0: "bs = bs ! 0 # drop 1 bs" using len by (cases bs) auto
  have "bs = bs ! 0 # take 8 (drop 1 bs) @ take 8 (drop 9 bs) @ ?p 17 @ ?p 49 @ ?p 81 @ take 8 (drop 113 bs)
    @ take 4 (drop 121 bs) @ ?p 125 @ ?p 157"
    using len bs0 bytes_split [of 8 1 bs] bytes_split [of 8 9 bs] bytes_split [of 32 17 bs]
      bytes_split [of 32 49 bs] bytes_split [of 32 81 bs] bytes_split [of 8 113 bs] bytes_split [of 4 121 bs]
      bytes_split [of 32 125 bs] by simp
  moreover have "serialize_header X h0 = Inr (FORMAT_VERSION # take 8 (drop 1 bs) @ take 8 (drop 9 bs) @ ?p 17
    @ ?p 49 @ ?p 81 @ take 8 (drop 113 bs) @ take 4 (drop 121 bs) @ ?p 125 @ ?p 157)"
    using assms(1) len serialize_header_bytes [of X h0 "?p 17" "?p 81"]
    by (simp add: h0_def to_from_be_bytes64 to_from_be_bytes32)
  ultimately have ser: "serialize_header X h0 = Inr bs" using ver by metis
  then show h: "serialize_header X h = Inr bs"
    unfolding hash(2) by (simp add: serialize_header_def cong: option.case_cong if_cong)
  show hh: "hdr_hash h = hex_encode X (blake3 X bs)"
    using hash ser by (simp add: header_hash_def)
  have "hex_canonical32 X (hex_encode X (?p k))" if "k \<le> 157" for k
    using assms(1) that len by (simp add: hex_canonical32_def)
  then show "wire_header X h"
    using h hh len by (simp add: wire_header_def header_hash_def) (simp add: hash(2) h0_def)
qed

subsection \<open>Blocks\<close>

definition wire_block :: "ext \<Rightarrow> block \<Rightarrow> bool" where
  "wire_block X b \<longleftrightarrow> wire_header X (header b) \<and> length (blk_transactions b) < 2 ^ 32
     \<and> list_all (\<lambda>tx. wire_tx tx \<and> length (serialize_transaction_signed tx) < 2 ^ 32) (blk_transactions b)"

definition framed_tx :: "transaction \<Rightarrow> bytes" where
  "framed_tx tx = to_be_bytes32 (of_nat (length (serialize_transaction_signed tx))) @ serialize_transaction_signed tx"

lemma read_txs_unread:
  "list_all (\<lambda>tx. wire_tx tx \<and> length (serialize_transaction_signed tx) < 2 ^ 32) txs \<Longrightarrow>
   unread bs off (concat (map framed_tx txs)) \<Longrightarrow> read_txs (length txs) bs off = Inr (txs, length bs)"
proof (induction txs arbitrary: off)
  case Nil
  then show ?case by (auto simp: unread_def)
next
  case (Cons tx txs)
  let ?s = "serialize_transaction_signed tx"
  have wf: "wire_tx tx" "length ?s < 2 ^ 32" using Cons.prems by simp_all
  have "unread bs off (to_be_bytes32 (of_nat (length ?s)) @ ?s @ concat (map framed_tx txs))"
    using Cons.prems by (simp add: framed_tx_def [abs_def])
  note u = read_u32_unread [OF this]
  note s = unread_append [OF conjunct2 [OF u]] unread_advance [OF conjunct2 [OF u]]
    unread_length [OF conjunct2 [OF u]]
  have "read_txs (length txs) bs (off + 4 + length ?s) = Inr (txs, length bs)"
    using Cons.IH [OF _ s(2)] Cons.prems by simp
  then show ?case
    using u s(1,3) wf deserialize_serialize_signed [OF wf(1)] by (simp add: unat_of_nat_u32)
qed

lemma length_framed: "4 * length txs \<le> length (concat (map framed_tx txs))"
  by (induction txs) (simp_all add: framed_tx_def)

lemma deserialize_serialize_block:
  assumes "wire_block X b" and "serialize_block X b = Inr bs"
  shows "deserialize_block X bs = Inr b"
proof -
  let ?txs = "blk_transactions b"
  obtain hb where hb: "serialize_header X (header b) = Inr hb"
    and bs: "bs = hb @ to_be_bytes32 (of_nat (length ?txs)) @ concat (map framed_tx ?txs)"
    using assms(2) by (auto simp: serialize_block_def serialize_block_header_def framed_tx_def [abs_def])
  have wf: "wire_header X (header b)" "length ?txs < 2 ^ 32" using assms(1) by (simp_all add: wire_block_def)
  note h = deserialize_serialize_header [OF wf(1) hb]
  have take: "take HEADER_WIRE_LEN bs = hb" using h by (simp add: bs)
  have u0: "unread bs HEADER_WIRE_LEN (to_be_bytes32 (of_nat (length ?txs)) @ concat (map framed_tx ?txs))"
    using h by (simp add: bs unread_def)
  note u = read_u32_unread [OF u0]
  have "read_txs (length ?txs) bs (HEADER_WIRE_LEN + 4) = Inr (?txs, length bs)"
    using read_txs_unread [OF _ conjunct2 [OF u]] assms(1) by (simp add: wire_block_def)
  moreover have "length bs = HEADER_WIRE_LEN + 4 + length (concat (map framed_tx ?txs))"
    using unread_length [OF u0] by simp
  ultimately show ?thesis
    using h take u wf(2) length_framed [of ?txs] by (simp add: deserialize_block_def unat_of_nat_u32 not_less)
qed

section \<open>The Merkle commitment\<close>

lemma merkle_level_dup_last:
  "odd (length hs) \<Longrightarrow> merkle_level X (hs @ [last hs]) = merkle_level X hs"
  by (induction X hs rule: merkle_level.induct) auto

lemma merkle_root_dup_last:
  assumes "odd (length hs)"
  shows "merkle_root X (hs @ [last hs]) = merkle_root X hs"
proof (cases "length hs = 1")
  case True
  then obtain a where "hs = [a]" by (cases hs) auto
  then show ?thesis
    by (simp add: merkle_root_def merkle_loop.simps [of X "[a, a]"] merkle_loop.simps [of X "[blake3 X (a @ a)]"])
next
  case False
  with assms have "1 < length hs" by (cases "length hs") auto
  moreover from this have "hs \<noteq> []" by auto
  ultimately show ?thesis using merkle_level_dup_last [OF assms, of X]
    by (simp add: merkle_root_def merkle_loop.simps [of X hs] merkle_loop.simps [of X "hs @ [last hs]"])
qed

text \<open>The byte strings that the computation of a root hashes.\<close>

fun level_inputs :: "bytes list \<Rightarrow> bytes list" where
  "level_inputs [] = []"
| "level_inputs [a] = [a @ a]"
| "level_inputs (a # b # hs) = (a @ b) # level_inputs hs"

function merkle_inputs :: "ext \<Rightarrow> bytes list \<Rightarrow> bytes list" where
  "merkle_inputs X hs =
     (if length hs > 1 then level_inputs hs @ merkle_inputs X (merkle_level X hs) else level_inputs hs)"
  by pat_completeness auto
termination
  by (relation "measure (\<lambda>(X, hs). length hs)") (auto simp: length_merkle_level)

declare merkle_inputs.simps [simp del]

definition collision_free :: "ext \<Rightarrow> bytes list \<Rightarrow> bool" where
  "collision_free X inputs \<longleftrightarrow> inj_on (blake3 X) (set inputs)"

text \<open>Two inputs of a list with the same digest.\<close>

definition collides :: "ext \<Rightarrow> bytes list \<Rightarrow> bool" where
  "collides X inputs \<longleftrightarrow> (\<exists>a\<in>set inputs. \<exists>b\<in>set inputs. a \<noteq> b \<and> blake3 X a = blake3 X b)"

lemma collides_iff: "collides X inputs \<longleftrightarrow> \<not> collision_free X inputs"
  by (auto simp: collides_def collision_free_def inj_on_def)

lemma collision_freeD:
  "collision_free X is \<Longrightarrow> blake3 X a = blake3 X b \<Longrightarrow> a \<in> set is \<Longrightarrow> b \<in> set is \<Longrightarrow> a = b"
  by (auto simp: collision_free_def inj_on_def)

lemma collision_free_subset: "collision_free X is \<Longrightarrow> set js \<subseteq> set is \<Longrightarrow> collision_free X js"
  by (auto simp: collision_free_def intro: inj_on_subset)

lemma merkle_level_inj:
  "collision_free X (level_inputs xs @ level_inputs ys) \<Longrightarrow> length xs = length ys \<Longrightarrow>
   list_all (\<lambda>h. length h = 32) xs \<Longrightarrow> list_all (\<lambda>h. length h = 32) ys \<Longrightarrow>
   merkle_level X xs = merkle_level X ys \<Longrightarrow> xs = ys"
proof (induction xs arbitrary: ys rule: level_inputs.induct)
  case (2 a)
  then obtain a' where ys: "ys = [a']" by (cases ys) auto
  have "a @ a = a' @ a'" by (rule collision_freeD [OF "2.prems"(1)]) (use "2.prems" ys in simp_all)
  then show ?case using "2.prems" ys by simp
next
  case (3 a b hs)
  then obtain a' b' hs' where ys: "ys = a' # b' # hs'" by (metis length_Suc_conv)
  have "a @ b = a' @ b'" by (rule collision_freeD [OF "3.prems"(1)]) (use "3.prems" ys in simp_all)
  then have ab: "a = a'" "b = b'" using "3.prems" ys by simp_all
  have "collision_free X (level_inputs hs @ level_inputs hs')"
    using "3.prems"(1) ys by (auto intro: collision_free_subset)
  then have "hs = hs'" using "3.IH" [of hs'] "3.prems" ys by simp
  then show ?case using ab ys by simp
qed simp

lemma merkle_level_32: "hash32 X \<Longrightarrow> list_all (\<lambda>h. length h = 32) (merkle_level X hs)"
  by (induction X hs rule: merkle_level.induct) simp_all

lemma merkle_loop_inj:
  assumes "hash32 X"
  shows "collision_free X (merkle_inputs X xs @ merkle_inputs X ys) \<Longrightarrow> length xs = length ys \<Longrightarrow> xs \<noteq> [] \<Longrightarrow>
    list_all (\<lambda>h. length h = 32) xs \<Longrightarrow> list_all (\<lambda>h. length h = 32) ys \<Longrightarrow>
    merkle_loop X xs = merkle_loop X ys \<Longrightarrow> xs = ys"
proof (induction "length xs" arbitrary: xs ys rule: less_induct)
  case less
  show ?case
  proof (cases "length xs > 1")
    case True
    let ?xs = "merkle_level X xs" and ?ys = "merkle_level X ys"
    have in_x: "merkle_inputs X xs = level_inputs xs @ merkle_inputs X ?xs"
      and in_y: "merkle_inputs X ys = level_inputs ys @ merkle_inputs X ?ys"
      using True less.prems(2) merkle_inputs.simps [of X xs] merkle_inputs.simps [of X ys] by simp_all
    have "?xs = ?ys"
    proof (rule less.hyps)
      show "collision_free X (merkle_inputs X ?xs @ merkle_inputs X ?ys)"
        using less.prems(1) by (rule collision_free_subset) (auto simp: in_x in_y)
      show "merkle_loop X ?xs = merkle_loop X ?ys"
        using less.prems(2,6) True merkle_loop.simps [of X xs] merkle_loop.simps [of X ys] by simp
      show "?xs \<noteq> []" using True length_merkle_level [of X xs] by (cases "?xs") auto
    qed (use True less.prems(2) assms in \<open>simp_all add: length_merkle_level merkle_level_32\<close>)
    moreover have "collision_free X (level_inputs xs @ level_inputs ys)"
      using less.prems(1) by (rule collision_free_subset) (auto simp: in_x in_y)
    ultimately show ?thesis using merkle_level_inj less.prems(2,4,5) by blast
  next
    case False
    then obtain a where "xs = [a]" using less.prems(3) by (cases xs) auto
    moreover obtain b where "ys = [b]" using less.prems(2) \<open>xs = [a]\<close> by (cases ys) auto
    ultimately show ?thesis
      using less.prems(6) by (simp add: merkle_loop.simps [of X "[a]"] merkle_loop.simps [of X "[b]"])
  qed
qed

lemma merkle_root_inj:
  assumes "hash32 X" and "collision_free X (merkle_inputs X xs @ merkle_inputs X ys)" and "length xs = length ys"
    and "list_all (\<lambda>h. length h = 32) xs" and "list_all (\<lambda>h. length h = 32) ys"
    and "merkle_root X xs = merkle_root X ys"
  shows "xs = ys"
proof (cases "length xs \<le> 1")
  case True
  then consider "xs = []" | a b where "xs = [a]" "ys = [b]"
    using assms(3) by (cases xs; cases ys) auto
  then show ?thesis
  proof cases
    case (2 a b)
    have "a @ a = b @ b"
      by (rule collision_freeD [OF assms(2)])
        (use assms(6) 2 in \<open>simp_all add: merkle_root_def merkle_inputs.simps\<close>)
    then show ?thesis using 2 assms by simp
  qed (use assms(3) in simp)
next
  case False
  then have "xs \<noteq> []" "ys \<noteq> []" using assms(3) by auto
  moreover have "merkle_loop X xs = merkle_loop X ys"
    using assms(6) False assms(3) calculation by (simp add: merkle_root_def)
  ultimately show ?thesis using merkle_loop_inj [OF assms(1-3) _ assms(4,5)] by blast
qed

section \<open>Codecs as an interface\<close>

text \<open>What a client of an encoder and its parser relies on: the parser gives back every value the
  encoder was made for. Two values then never share an encoding.\<close>

locale codec =
  fixes enc :: "'a \<Rightarrow> bytes" and dec :: "bytes \<Rightarrow> string + 'a" and wf :: "'a \<Rightarrow> bool"
  assumes dec_enc: "wf x \<Longrightarrow> dec (enc x) = Inr x"
begin

lemma enc_inj: "wf x \<Longrightarrow> wf y \<Longrightarrow> enc x = enc y \<Longrightarrow> x = y"
  by (metis dec_enc sum.inject(2))

lemma hash_inj:
  assumes "wf x" and "wf y" and "collision_free X [enc x, enc y]" and "blake3 X (enc x) = blake3 X (enc y)"
  shows "x = y"
  using collision_freeD [OF assms(3,4)] enc_inj [OF assms(1,2)] by simp

lemma map_hash_inj:
  "list_all wf xs \<Longrightarrow> list_all wf ys \<Longrightarrow> collision_free X (map enc xs @ map enc ys) \<Longrightarrow>
   map (\<lambda>x. blake3 X (enc x)) xs = map (\<lambda>x. blake3 X (enc x)) ys \<Longrightarrow> xs = ys"
proof (induction xs arbitrary: ys)
  case (Cons x xs)
  then obtain y zs where ys: "ys = y # zs" by (cases ys) auto
  have "x = y" using Cons.prems ys
    by (intro hash_inj [of x y X]) (auto intro: collision_free_subset)
  moreover have "collision_free X (map enc xs @ map enc zs)"
    using Cons.prems(3) by (rule collision_free_subset) (auto simp: ys)
  then have "xs = zs" using Cons.IH [of zs] Cons.prems ys by simp
  ultimately show ?case by (simp add: ys)
qed simp

end

interpretation signed_tx: codec serialize_transaction_signed deserialize_transaction_signed wire_tx
  by unfold_locales (rule deserialize_serialize_signed)

interpretation unsigned_tx: codec serialize_transaction deserialize_transaction "\<lambda>tx. wire_tx tx \<and> tx_signature tx = []"
proof
  fix tx
  assume "wire_tx tx \<and> tx_signature tx = []"
  then show "deserialize_transaction (serialize_transaction tx) = Inr tx"
    using deserialize_serialize_unsigned [of tx] tx_set_strip_signature [of tx] by (cases tx) (simp_all add: strip_signature_def)
qed

text \<open>The transaction root of a block determines its transactions, given their number and the
  absence of collisions among the byte strings hashed.\<close>

definition tx_root_inputs :: "ext \<Rightarrow> transaction list \<Rightarrow> bytes list" where
  "tx_root_inputs X txs = map serialize_transaction_signed txs @ merkle_inputs X (map (txid X) txs)"

lemma compute_tx_root_inj:
  assumes "hash32 X" and "list_all wire_tx xs" and "list_all wire_tx ys" and "length xs = length ys"
    and cf: "collision_free X (tx_root_inputs X xs @ tx_root_inputs X ys)"
    and "compute_tx_root X xs = compute_tx_root X ys"
  shows "xs = ys"
proof -
  have "merkle_root X (map (txid X) xs) = merkle_root X (map (txid X) ys)"
    using assms(4,6) by (cases "xs = []") (auto simp: compute_tx_root_def)
  moreover have "collision_free X (merkle_inputs X (map (txid X) xs) @ merkle_inputs X (map (txid X) ys))"
    using cf by (rule collision_free_subset) (auto simp: tx_root_inputs_def)
  ultimately have "map (txid X) xs = map (txid X) ys"
    using assms(1,4) by (intro merkle_root_inj) (auto simp: list_all_iff txid_def)
  then have "map (\<lambda>tx. blake3 X (serialize_transaction_signed tx)) xs
      = map (\<lambda>tx. blake3 X (serialize_transaction_signed tx)) ys"
    by (simp add: txid_def [abs_def])
  moreover have "collision_free X (map serialize_transaction_signed xs @ map serialize_transaction_signed ys)"
    using cf by (rule collision_free_subset) (auto simp: tx_root_inputs_def)
  ultimately show ?thesis using signed_tx.map_hash_inj [OF assms(2,3)] by blast
qed

end
