(* ===== verification/Sc_U256.thy ===== *)
theory Sc_U256
  imports Sc_Prelude
begin

text \<open>
  The 256-bit unsigned integers of \<open>crates/strangecoin-core/src/consensus.rs\<close>: four 64-bit limbs,
  least significant first, with the schoolbook product, the restoring division and the limb-wise
  comparisons as the code writes them. \<open>limbs_val\<close> is the number a list of limbs denotes; the
  lemmas say that each routine computes the arithmetic it is named after, modulo \<open>2 ^ 256\<close> where
  it wraps.
\<close>

section \<open>Definitions\<close>

type_synonym u256 = "u64 list"

definition u256_zero :: u256 where
  "u256_zero = [0, 0, 0, 0]"

definition u256_from_bytes :: "bytes \<Rightarrow> u256" where
  "u256_from_bytes bs =
     fold (\<lambda>i words. words[3 - i := from_be_bytes64 (take 8 (drop (8 * i) bs))]) [0..<4] u256_zero"

definition u256_from_u64 :: "u64 \<Rightarrow> u256" where
  "u256_from_u64 v = [v, 0, 0, 0]"

definition copy_from_slice :: "nat \<Rightarrow> bytes \<Rightarrow> bytes \<Rightarrow> bytes" where
  "copy_from_slice off src dst = take off dst @ src @ drop (off + length src) dst"

definition u256_to_bytes :: "u256 \<Rightarrow> bytes" where
  "u256_to_bytes v =
     fold (\<lambda>i bs. copy_from_slice ((3 - i) * 8) (to_be_bytes64 (v ! i)) bs) [0..<length v] zero32"

text \<open>The inner loop of the product: one limb \<open>ai\<close> of the first factor times all limbs of the
  second, added to \<open>r\<close> from index \<open>idx\<close> on, in 128-bit steps.\<close>

fun mul_inner :: "u64 \<Rightarrow> u64 list \<Rightarrow> u64 list \<Rightarrow> nat \<Rightarrow> u128 \<Rightarrow> u64 list \<times> u128" where
  "mul_inner ai [] r idx carry = (r, carry)"
| "mul_inner ai (bj # bs) r idx carry =
     (let cur = ucast ai * ucast bj + ucast (r ! idx) + carry
      in mul_inner ai bs (r[idx := ucast cur]) (Suc idx) (drop_bit 64 cur))"

function mul_carry :: "u64 list \<Rightarrow> nat \<Rightarrow> u128 \<Rightarrow> u64 list" where
  "mul_carry r k carry =
     (if carry \<noteq> 0 \<and> k < 8 then
        let cur = ucast (r ! k) + carry
        in mul_carry (r[k := ucast cur]) (Suc k) (drop_bit 64 cur)
      else r)"
  by pat_completeness auto
termination
  by (relation "measure (\<lambda>(r, k, carry). 8 - k)") auto

fun mul_outer :: "u64 list \<Rightarrow> u64 list \<Rightarrow> nat \<Rightarrow> u64 list \<Rightarrow> u64 list" where
  "mul_outer [] b i r = r"
| "mul_outer (ai # as) b i r =
     (if ai = 0 then mul_outer as b (Suc i) r
      else let (r', carry) = mul_inner ai b r i 0
           in mul_outer as b (Suc i) (mul_carry r' (i + 4) carry))"

definition u256_mul :: "u256 \<Rightarrow> u256 \<Rightarrow> u256" where
  "u256_mul a b = take 4 (mul_outer a b 0 (replicate 8 0))"

fun shl1_loop :: "u64 list \<Rightarrow> u64 \<Rightarrow> u64 list \<times> u64" where
  "shl1_loop [] carry = ([], carry)"
| "shl1_loop (limb # limbs) carry =
     (let (limbs', carry') = shl1_loop limbs (drop_bit 63 limb)
      in ((push_bit 1 limb OR carry) # limbs', carry'))"

definition u256_shl1 :: "u256 \<Rightarrow> u256 \<times> u64" where
  "u256_shl1 v = shl1_loop v 0"

fun sub_loop :: "u64 list \<Rightarrow> u64 list \<Rightarrow> u64 \<Rightarrow> u64 list" where
  "sub_loop (x # xs) (y # ys) borrow =
     (let (d1, b1) = overflowing_sub x y; (d2, b2) = overflowing_sub d1 borrow
      in d2 # sub_loop xs ys (of_bool b1 + of_bool b2))"
| "sub_loop _ _ borrow = []"

definition u256_sub_assign :: "u256 \<Rightarrow> u256 \<Rightarrow> u256" where
  "u256_sub_assign a b = sub_loop a b 0"

fun gt_loop :: "u64 list \<Rightarrow> u64 list \<Rightarrow> nat \<Rightarrow> bool" where
  "gt_loop a b 0 = False"
| "gt_loop a b (Suc i) =
     (if a ! i > b ! i then True else if a ! i < b ! i then False else gt_loop a b i)"

definition u256_gt :: "u256 \<Rightarrow> u256 \<Rightarrow> bool" where
  "u256_gt a b = gt_loop a b 4"

fun le_loop :: "u64 list \<Rightarrow> u64 list \<Rightarrow> nat \<Rightarrow> bool" where
  "le_loop a b 0 = True"
| "le_loop a b (Suc i) =
     (if a ! i < b ! i then True else if a ! i > b ! i then False else le_loop a b i)"

definition u256_le :: "u256 \<Rightarrow> u256 \<Rightarrow> bool" where
  "u256_le a b = le_loop a b 4"

fun min_loop :: "u64 list \<Rightarrow> u64 list \<Rightarrow> nat \<Rightarrow> u64 list" where
  "min_loop a b 0 = a"
| "min_loop a b (Suc i) =
     (if a ! i < b ! i then a else if a ! i > b ! i then b else min_loop a b i)"

definition u256_min :: "u256 \<Rightarrow> u256 \<Rightarrow> u256" where
  "u256_min a b = min_loop a b 4"

fun max_loop :: "u64 list \<Rightarrow> u64 list \<Rightarrow> nat \<Rightarrow> u64 list" where
  "max_loop a b 0 = a"
| "max_loop a b (Suc i) =
     (if a ! i > b ! i then a else if a ! i < b ! i then b else max_loop a b i)"

definition u256_max :: "u256 \<Rightarrow> u256 \<Rightarrow> u256" where
  "u256_max a b = max_loop a b 4"

text \<open>One iteration of the restoring division at bit position \<open>bit\<close>, and the loop over the
  positions from \<open>n - 1\<close> down to \<open>0\<close>.\<close>

definition div_step :: "u256 \<Rightarrow> u256 \<Rightarrow> nat \<Rightarrow> u256 \<Rightarrow> u256 \<Rightarrow> u256 \<times> u256" where
  "div_step a b pos q rem =
     (let (r, c) = u256_shl1 rem;
          overflowed = (c = 1);
          r = (if drop_bit (pos mod 64) (a ! (pos div 64)) AND 1 = 1 then r[0 := r ! 0 OR 1] else r)
      in if overflowed \<or> \<not> u256_gt b r
         then (q[pos div 64 := q ! (pos div 64) OR push_bit (pos mod 64) 1],
               u256_sub_assign r b)
         else (q, r))"

fun div_loop :: "u256 \<Rightarrow> u256 \<Rightarrow> nat \<Rightarrow> u256 \<Rightarrow> u256 \<Rightarrow> u256" where
  "div_loop a b 0 q rem = q"
| "div_loop a b (Suc pos) q rem =
     (let (q', rem') = div_step a b pos q rem in div_loop a b pos q' rem')"

definition u256_div :: "u256 \<Rightarrow> u256 \<Rightarrow> u256" where
  "u256_div a b =
     (if b = u256_zero then u256_zero
      else if u256_gt b a then u256_zero
      else div_loop a b 256 u256_zero u256_zero)"

definition u256_mul_sat :: "u256 \<Rightarrow> u256 \<Rightarrow> u256" where
  "u256_mul_sat a b =
     (if a = u256_zero \<or> b = u256_zero then u256_zero
      else let product = u256_mul a b
           in if u256_div product b = a then product else replicate 4 (- 1))"

fun add_loop :: "u64 list \<Rightarrow> u64 list \<Rightarrow> u64 \<Rightarrow> u64 list" where
  "add_loop (x # xs) (y # ys) carry =
     (let sum = ucast x + ucast y + ucast carry :: u128
      in ucast sum # add_loop xs ys (ucast (drop_bit 64 sum)))"
| "add_loop _ _ carry = []"

definition u256_add :: "u256 \<Rightarrow> u256 \<Rightarrow> u256" where
  "u256_add a b = add_loop a b 0"

section \<open>The value of a list of limbs\<close>

text \<open>The base \<open>wB = 2 ^ 64\<close> is kept folded, so that the algebra of the proofs never expands it.\<close>

definition wB :: nat where
  "wB = 2 ^ 64"

fun limbs_val :: "u64 list \<Rightarrow> nat" where
  "limbs_val [] = 0"
| "limbs_val (x # xs) = unat x + wB * limbs_val xs"

lemma wB_pos [simp]: "0 < wB"
  by (simp add: wB_def)

lemma wB_power: "wB ^ n = 2 ^ (64 * n)"
  by (simp add: wB_def power_mult)

lemma unat_less_wB: "unat x < wB" for x :: u64
  using unat_bound [of x] by (simp add: wB_def)

lemma limbs_val_bound: "limbs_val xs < wB ^ length xs"
proof (induction xs)
  case (Cons x xs)
  have "wB * Suc (limbs_val xs) \<le> wB * wB ^ length xs"
    using Cons by (intro mult_le_mono2) simp
  with unat_less_wB [of x] show ?case by simp
qed simp

lemma u256_bound: "length a = 4 \<Longrightarrow> limbs_val a < 2 ^ 256"
  using limbs_val_bound [of a] by (simp add: wB_power)

lemma limbs_val_append: "limbs_val (xs @ ys) = limbs_val xs + wB ^ length xs * limbs_val ys"
  by (induction xs) (simp_all add: algebra_simps)

lemma limbs_val_inj: "length xs = length ys \<Longrightarrow> limbs_val xs = limbs_val ys \<Longrightarrow> xs = ys"
proof (induction xs ys rule: list_induct2)
  case (Cons x xs y ys)
  have eq: "unat x + wB * limbs_val xs = unat y + wB * limbs_val ys" using Cons.prems by simp
  from arg_cong [OF eq, of "\<lambda>n. n div wB"] have "limbs_val xs = limbs_val ys"
    by (simp add: unat_less_wB)
  with eq Cons.IH show ?case by (auto intro: unsigned_word_eqI)
qed simp

lemma limbs_val_replicate_0 [simp]: "limbs_val (replicate n 0) = 0"
  by (induction n) auto

lemma limbs_val_zero [simp]: "limbs_val u256_zero = 0"
  by (simp add: u256_zero_def)

lemma length_u256_zero [simp]: "length u256_zero = 4"
  by (simp add: u256_zero_def)

lemma limbs_val_eq_0: "length xs = 4 \<Longrightarrow> limbs_val xs = 0 \<longleftrightarrow> xs = u256_zero"
  by (metis length_u256_zero limbs_val_inj limbs_val_zero)

lemma limbs_val_update:
  "i < length r \<Longrightarrow>
   limbs_val (r[i := x]) + wB ^ i * unat (r ! i) = limbs_val r + wB ^ i * unat x"
proof (induction r arbitrary: i)
  case (Cons y r)
  show ?case
  proof (cases i)
    case (Suc j)
    then have "limbs_val (r[j := x]) + wB ^ j * unat (r ! j) = limbs_val r + wB ^ j * unat x"
      using Cons by simp
    then have "wB * limbs_val (r[j := x]) + wB * (wB ^ j * unat (r ! j))
      = wB * limbs_val r + wB * (wB ^ j * unat x)"
      by (metis distrib_left)
    then show ?thesis by (simp add: Suc algebra_simps)
  qed simp
qed simp

lemma unat_max_u64: "unat (- 1 :: u64) = wB - 1"
  by (simp add: unsigned_minus_1_eq_mask mask_eq_exp_minus_1 wB_def)

lemma limbs_val_max: "limbs_val (replicate n (- 1)) = wB ^ n - 1"
proof (induction n)
  case (Suc n)
  have "wB * (wB ^ n - 1) = wB ^ Suc n - wB" by (simp add: diff_mult_distrib2)
  moreover have "wB \<le> wB ^ Suc n" by (simp add: Suc_leI)
  moreover have "1 \<le> wB" using wB_pos by linarith
  ultimately show ?case using Suc unat_max_u64 by simp
qed simp

lemma limb_less_iff:
  fixes X Y B x y :: nat
  assumes "X < B" and "Y < B"
  shows "X + B * x < Y + B * y \<longleftrightarrow> x < y \<or> x = y \<and> X < Y"
proof (cases "x < y")
  case True
  then have "B * Suc x \<le> B * y" by (intro mult_le_mono2) simp
  with assms True show ?thesis by simp
next
  case False
  show ?thesis
  proof (cases "x = y")
    case neq: False
    with False have "B * Suc y \<le> B * x" by (intro mult_le_mono2) simp
    with assms False neq show ?thesis by simp
  qed simp
qed

lemma limbs_val_take_Suc:
  "i < length a \<Longrightarrow> limbs_val (take (Suc i) a) = limbs_val (take i a) + wB ^ i * unat (a ! i)"
  by (simp add: take_Suc_conv_app_nth limbs_val_append)

lemma limbs_val_take_less:
  assumes "i < length a" and "i < length b"
  shows "limbs_val (take (Suc i) a) < limbs_val (take (Suc i) b)
    \<longleftrightarrow> a ! i < b ! i \<or> a ! i = b ! i \<and> limbs_val (take i a) < limbs_val (take i b)"
proof -
  have "limbs_val (take i a) < wB ^ i" "limbs_val (take i b) < wB ^ i"
    using limbs_val_bound [of "take i a"] limbs_val_bound [of "take i b"] assms by simp_all
  from limb_less_iff [OF this] show ?thesis
    using assms by (simp add: limbs_val_take_Suc word_less_nat_alt word_eq_iff_unsigned [where ?'a = nat])
qed

lemma limbs_val_take: "limbs_val (take n xs) = limbs_val xs mod wB ^ n" if "n \<le> length xs"
proof -
  have "limbs_val xs = limbs_val (take n xs) + wB ^ n * limbs_val (drop n xs)"
    using that limbs_val_append [of "take n xs" "drop n xs"] by simp
  moreover have "limbs_val (take n xs) < wB ^ n"
    using limbs_val_bound [of "take n xs"] that by simp
  ultimately show ?thesis by simp
qed

subsection \<open>Comparisons\<close>

lemma gt_loop_val:
  "n \<le> length a \<Longrightarrow> n \<le> length b \<Longrightarrow> gt_loop a b n \<longleftrightarrow> limbs_val (take n b) < limbs_val (take n a)"
  by (induction n) (auto simp: limbs_val_take_less simp del: take_Suc)

lemma le_loop_gt: "le_loop a b n \<longleftrightarrow> \<not> gt_loop a b n"
  by (induction n) auto

lemma min_loop_gt: "min_loop a b n = (if gt_loop a b n then b else a)"
  by (induction n) auto

lemma max_loop_gt: "max_loop a b n = (if gt_loop b a n then b else a)"
  by (induction n) auto

lemma u256_gt_val [u256_simps]:
  "length a = 4 \<Longrightarrow> length b = 4 \<Longrightarrow> u256_gt a b \<longleftrightarrow> limbs_val b < limbs_val a"
  by (simp add: u256_gt_def gt_loop_val)

lemma u256_le_val [u256_simps]:
  "length a = 4 \<Longrightarrow> length b = 4 \<Longrightarrow> u256_le a b \<longleftrightarrow> limbs_val a \<le> limbs_val b"
  using u256_gt_val [of a b] by (simp add: u256_le_def u256_gt_def le_loop_gt not_less)

lemma u256_min_val [u256_simps]:
  "length a = 4 \<Longrightarrow> length b = 4 \<Longrightarrow> limbs_val (u256_min a b) = min (limbs_val a) (limbs_val b)"
  using u256_gt_val [of a b] by (simp add: u256_min_def u256_gt_def min_loop_gt)

lemma u256_max_val [u256_simps]:
  "length a = 4 \<Longrightarrow> length b = 4 \<Longrightarrow> limbs_val (u256_max a b) = max (limbs_val a) (limbs_val b)"
  using u256_gt_val [of b a] by (simp add: u256_max_def u256_gt_def max_loop_gt)

lemma length_u256_min [simp]: "length a = 4 \<Longrightarrow> length b = 4 \<Longrightarrow> length (u256_min a b) = 4"
  by (simp add: u256_min_def min_loop_gt)

lemma length_u256_max [simp]: "length a = 4 \<Longrightarrow> length b = 4 \<Longrightarrow> length (u256_max a b) = 4"
  by (simp add: u256_max_def max_loop_gt)

subsection \<open>128-bit intermediate values\<close>

lemma unat_drop_bit: "unat (drop_bit n x) = unat x div 2 ^ n" for x :: "'a::len word"
proof -
  have "unat (drop_bit n x) = drop_bit n (unat x)"
    using unat_bound [of x] by (simp only: unsigned_drop_bit_eq take_bit_nat_eq_self)
  then show ?thesis by (simp only: drop_bit_eq_div)
qed

lemma unat_hi: "unat (drop_bit 64 x) = unat x div wB" for x :: u128
  by (simp add: unat_drop_bit wB_def)

lemma unat_ucast_up [simp]: "unat (ucast x :: u128) = unat x" for x :: u64
  using unat_bound [of x] by (simp add: unsigned_ucast_eq take_bit_nat_eq_self)

lemma unat_lo: "unat (ucast x :: u64) = unat x mod wB" for x :: u128
  by (simp add: unsigned_ucast_eq take_bit_eq_mod wB_def)

lemma wB_squared: "wB * wB = 2 ^ 128"
  by (simp add: wB_def)

lemma unat_less_u128: "unat x < wB * wB" for x :: u128
  using unat_bound [of x] by (simp add: wB_squared)

lemma unat_plus_u128: "unat x + unat y < wB * wB \<Longrightarrow> unat (x + y) = unat x + unat y" for x y :: u128
  using unat_add_lem [of x y] by (simp add: wB_squared)

lemma unat_times_u128: "unat x * unat y < wB * wB \<Longrightarrow> unat (x * y) = unat x * unat y" for x y :: u128
  using unat_mult_lem [of x y] by (simp add: wB_squared)

lemma step_bound:
  fixes x y z c :: nat
  assumes "x < wB" and "y < wB" and "z < wB" and "c < wB"
  shows "x * y + z + c < wB * wB"
proof -
  have "x * y \<le> (wB - 1) * (wB - 1)"
    using assms by (intro mult_le_mono) simp_all
  moreover have "(wB - 1) * (wB - 1) + 2 * wB = wB * wB + 1"
    by (simp add: wB_def)
  ultimately show ?thesis using assms by linarith
qed

lemma unat_mul_step:
  fixes x y z :: u64 and c :: u128
  assumes "unat c < wB"
  shows "unat (ucast x * ucast y + ucast z + c) = unat x * unat y + unat z + unat c"
proof -
  note bound = step_bound [OF unat_less_wB [of x] unat_less_wB [of y] unat_less_wB [of z] assms]
  have "unat (ucast x * ucast y :: u128) = unat x * unat y"
    using bound by (subst unat_times_u128) simp_all
  then have "unat (ucast x * ucast y + ucast z :: u128) = unat x * unat y + unat z"
    using bound by (subst unat_plus_u128) simp_all
  then show ?thesis
    using bound by (subst unat_plus_u128) simp_all
qed

lemma unat_add_step:
  fixes z :: u64 and c :: u128
  assumes "unat c < wB"
  shows "unat (ucast z + c) = unat z + unat c"
  using unat_mul_step [OF assms, of 0 0 z] by simp

subsection \<open>Sum\<close>

lemma length_add_loop: "length (add_loop a b c) = min (length a) (length b)"
  by (induction a b c rule: add_loop.induct) (simp_all add: Let_def)

lemma add_loop_val:
  "length a = length b \<Longrightarrow> unat c \<le> 1 \<Longrightarrow>
   limbs_val (add_loop a b c) = (limbs_val a + limbs_val b + unat c) mod wB ^ length a"
proof (induction a b c rule: add_loop.induct)
  case (1 x xs y ys c)
  define s where "s = (ucast x + ucast y + ucast c :: u128)"
  define n where "n = unat x + unat y + unat c"
  have s: "unat s = n"
    using unat_mul_step [of "ucast c" 1 x y] unat_less_wB [of c] by (simp add: s_def n_def)
  have "n < 2 * wB" using unat_less_wB [of x] unat_less_wB [of y] "1.prems" by (simp add: n_def)
  then have "n div wB < 2" by (simp add: less_mult_imp_div_less)
  then have "n div wB \<le> 1" by simp
  moreover have "1 < wB" by (simp add: wB_def)
  ultimately have hi: "unat (ucast (drop_bit 64 s) :: u64) = n div wB"
    by (simp add: unat_lo unat_hi s)
  have "limbs_val (add_loop xs ys (ucast (drop_bit 64 s)))
    = (limbs_val xs + limbs_val ys + n div wB) mod wB ^ length xs"
    using "1.IH" [OF s_def] 1 hi \<open>n div wB \<le> 1\<close> by simp
  then have "limbs_val (add_loop (x # xs) (y # ys) c)
    = n mod wB + wB * ((limbs_val xs + limbs_val ys + n div wB) mod wB ^ length xs)"
    by (simp add: Let_def unat_lo s flip: s_def)
  also have "\<dots> = (n + wB * (limbs_val xs + limbs_val ys)) mod (wB * wB ^ length xs)"
    by (simp add: mod_mult2_eq add.commute del: distrib_left_numeral distrib_left)
  finally show ?case by (simp add: n_def algebra_simps)
qed simp_all

lemma length_u256_add [simp]: "length a = 4 \<Longrightarrow> length b = 4 \<Longrightarrow> length (u256_add a b) = 4"
  by (simp add: u256_add_def length_add_loop)

lemma u256_add_val [u256_simps]:
  "length a = 4 \<Longrightarrow> length b = 4 \<Longrightarrow> limbs_val (u256_add a b) = (limbs_val a + limbs_val b) mod 2 ^ 256"
  by (simp add: u256_add_def add_loop_val wB_power)

subsection \<open>Doubling and difference\<close>

lemma shl1_limb:
  fixes l c :: u64
  assumes "c = 0 \<or> c = 1"
  shows "unat (push_bit 1 l OR c) + wB * unat (drop_bit 63 l) = 2 * unat l + unat c"
proof -
  have hi: "unat (drop_bit 63 l) = unat l div 2 ^ 63" by (rule unat_drop_bit)
  have split: "wB = 2 * 2 ^ 63" by (simp add: wB_def)
  have dbl: "unat (push_bit 1 l) = 2 * (unat l mod 2 ^ 63)"
    by (simp add: push_bit_eq_mult unat_word_ariths mult.commute mult_mod_right)
  have "push_bit 1 l OR c = push_bit 1 l + c"
    using assms by (auto simp: push_bit_eq_mult or_one_eq)
  moreover have "unat (push_bit 1 l) + unat c < 2 ^ LENGTH(64)"
    using assms mod_less_divisor [of "2 ^ 63" "unat l"] unfolding dbl by auto
  ultimately have "unat (push_bit 1 l OR c) = 2 * (unat l mod 2 ^ 63) + unat c"
    using unat_add_lem [of "push_bit 1 l" c] dbl by simp
  moreover have "2 * (unat l mod 2 ^ 63) + wB * (unat l div 2 ^ 63) = 2 * unat l"
    using mod_mult_div_eq [of "unat l" "2 ^ 63"] unfolding split by linarith
  ultimately show ?thesis unfolding hi by simp
qed

lemma shl1_carry: "drop_bit 63 l = 0 \<or> drop_bit 63 l = (1 :: u64)"
proof -
  have "unat (drop_bit 63 l) < 2"
    using unat_less_wB [of l] unfolding unat_drop_bit by (simp add: wB_def less_mult_imp_div_less)
  then have "unat (drop_bit 63 l) = unat (0 :: u64) \<or> unat (drop_bit 63 l) = unat (1 :: u64)"
    by (simp del: unsigned_drop_bit_eq) linarith
  then show ?thesis by (blast intro: unsigned_word_eqI)
qed

lemma shl1_loop_val:
  "c = 0 \<or> c = 1 \<Longrightarrow> shl1_loop v c = (v', c') \<Longrightarrow>
   limbs_val v' + wB ^ length v * unat c' = 2 * limbs_val v + unat c
   \<and> length v' = length v \<and> (c' = 0 \<or> c' = 1)"
proof (induction v arbitrary: c v' c')
  case (Cons l ls)
  obtain w d where w: "shl1_loop ls (drop_bit 63 l) = (w, d)" by fastforce
  note IH = Cons.IH [OF shl1_carry w]
  define p q where "p = (push_bit 1 l OR c)" and "q = unat (drop_bit 63 l)"
  have v': "v' = p # w" "c' = d" using Cons.prems(2) w by (auto simp: p_def)
  have "limbs_val v' + wB ^ length (l # ls) * unat c'
    = unat p + wB * (limbs_val w + wB ^ length ls * unat d)"
    unfolding v' by (simp add: algebra_simps)
  also have "\<dots> = (unat p + wB * q) + 2 * (wB * limbs_val ls)"
    using IH by (simp add: algebra_simps flip: q_def)
  also have "\<dots> = 2 * limbs_val (l # ls) + unat c"
    using shl1_limb [OF Cons.prems(1), of l] unfolding p_def [symmetric] q_def [symmetric] by simp
  finally show ?case using IH v' by simp
qed simp

lemma sub_limb:
  fixes x y c :: u64
  assumes "unat c \<le> 1" and "overflowing_sub x y = (d1, b1)" and "overflowing_sub d1 c = (d2, b2)"
  shows "unat d2 + unat y + unat c = unat x + wB * unat (of_bool b1 + of_bool b2 :: u64)
    \<and> unat (of_bool b1 + of_bool b2 :: u64) \<le> 1"
proof -
  have b: "unat x < wB" "unat y < wB" by (simp_all add: unat_less_wB)
  have size: "(2::nat) ^ size x = wB" by (simp add: wB_def word_size)
  have d1: "unat d1 = (if unat y \<le> unat x then unat x - unat y else unat x + wB - unat y)"
    and b1: "b1 \<longleftrightarrow> unat x < unat y"
    using assms(2) unat_sub_if_size [of x y] size by (auto simp: overflowing_sub_def word_less_nat_alt)
  have d2: "unat d2 = (if unat c \<le> unat d1 then unat d1 - unat c else unat d1 + wB - unat c)"
    and b2: "b2 \<longleftrightarrow> unat d1 < unat c"
    using assms(3) unat_sub_if_size [of d1 c] size by (auto simp: overflowing_sub_def word_less_nat_alt word_size)
  show ?thesis
    using b assms(1) by (cases b1; cases b2) (simp_all add: d1 b1 d2 b2 split: if_splits)
qed

lemma sub_loop_val:
  "length a = length b \<Longrightarrow> unat c \<le> 1 \<Longrightarrow>
   \<exists>w \<le> 1. limbs_val (sub_loop a b c) + limbs_val b + unat c = limbs_val a + wB ^ length a * w"
proof (induction a b c rule: sub_loop.induct)
  case (1 x xs y ys c)
  obtain d1 b1 where s1: "overflowing_sub x y = (d1, b1)" by fastforce
  obtain d2 b2 where s2: "overflowing_sub d1 c = (d2, b2)" by fastforce
  define c' :: u64 where "c' = of_bool b1 + of_bool b2"
  note limb = sub_limb [OF "1.prems"(2) s1 s2, folded c'_def]
  have "\<exists>w \<le> 1. limbs_val (sub_loop xs ys c') + limbs_val ys + unat c'
      = limbs_val xs + wB ^ length xs * w"
    using "1.IH" [OF s1 [symmetric] refl s2 [symmetric] refl] 1 limb by (simp add: c'_def)
  then obtain w where w: "w \<le> 1"
    and eq: "limbs_val (sub_loop xs ys c') + limbs_val ys + unat c' = limbs_val xs + wB ^ length xs * w"
    by blast
  have "limbs_val (sub_loop (x # xs) (y # ys) c) + limbs_val (y # ys) + unat c + wB * unat c'
    = unat d2 + unat y + unat c + wB * (limbs_val (sub_loop xs ys c') + limbs_val ys + unat c')"
    by (simp add: s1 s2 algebra_simps flip: c'_def)
  also have "\<dots> = limbs_val (x # xs) + wB ^ length (x # xs) * w + wB * unat c'"
    unfolding eq using limb by (simp add: algebra_simps)
  finally show ?case using w by auto
qed auto

lemma length_sub_loop: "length (sub_loop a b c) = min (length a) (length b)"
proof (induction a arbitrary: b c)
  case (Cons x xs)
  then show ?case by (cases b) (simp_all add: Let_def case_prod_beta)
qed simp

lemma length_u256_sub [simp]: "length a = 4 \<Longrightarrow> length b = 4 \<Longrightarrow> length (u256_sub_assign a b) = 4"
  by (simp add: u256_sub_assign_def length_sub_loop)

text \<open>The difference is exact when it is not negative, and it is the right one when the top bit
  shifted out of the remainder is added back (the wrapping case of the division).\<close>

lemma u256_sub_val:
  assumes "length a = 4" and "length b = 4" and "limbs_val b \<le> limbs_val a + wB ^ 4 * k"
    and "limbs_val a + wB ^ 4 * k < limbs_val b + wB ^ 4" and "k \<le> 1"
  shows "limbs_val (u256_sub_assign a b) = limbs_val a + wB ^ 4 * k - limbs_val b"
proof -
  obtain w where w: "w \<le> 1"
    "limbs_val (u256_sub_assign a b) + limbs_val b = limbs_val a + wB ^ 4 * w"
    using sub_loop_val [of a b 0] assms by (auto simp: u256_sub_assign_def)
  have bnd: "limbs_val (u256_sub_assign a b) < wB ^ 4" "limbs_val b < wB ^ 4"
    using limbs_val_bound [of "u256_sub_assign a b"] limbs_val_bound [of b] assms by simp_all
  have "w = 0 \<or> w = 1" "k = 0 \<or> k = 1" using w(1) assms(5) by auto
  then have "w = k" using w bnd assms(3,4) by auto
  with w show ?thesis by simp
qed

subsection \<open>Product\<close>

lemma limb_accumulate:
  fixes B P R R' K U A S n x z c :: nat
  assumes rest: "R' + K = U + P * B * (A * S + n div B)"
    and upd: "U + P * z = R + P * (n mod B)" and n: "n = A * x + z + c"
  shows "R' + K = R + P * (A * (x + B * S) + c)"
proof -
  have "P * (A * x + z + c) = P * (n mod B + B * (n div B))"
    unfolding mod_mult_div_eq by (simp only: n)
  then show ?thesis using rest upd by (simp only: distrib_left mult.assoc mult.left_commute)
qed

lemma mul_inner_val:
  "unat c < wB \<Longrightarrow> idx + length b \<le> length r \<Longrightarrow> mul_inner ai b r idx c = (r', c') \<Longrightarrow>
   limbs_val r' + wB ^ (idx + length b) * unat c'
     = limbs_val r + wB ^ idx * (unat ai * limbs_val b + unat c)
   \<and> unat c' < wB \<and> length r' = length r"
proof (induction b arbitrary: r idx c)
  case (Cons bj bs)
  define cur :: u128 where "cur = ucast ai * ucast bj + ucast (r ! idx) + c"
  define n where "n = unat ai * unat bj + unat (r ! idx) + unat c"
  define h where "h = drop_bit 64 cur"
  have cur: "unat cur = n" unfolding cur_def n_def by (rule unat_mul_step [OF Cons.prems(1)])
  have hi: "unat h = n div wB" by (simp add: unat_hi cur h_def)
  have "n < wB * wB" using unat_less_u128 [of cur] cur by simp
  then have hi_bound: "unat h < wB" by (simp add: hi less_mult_imp_div_less)
  have upd: "limbs_val (r[idx := ucast cur]) + wB ^ idx * unat (r ! idx)
      = limbs_val r + wB ^ idx * (n mod wB)"
    using limbs_val_update [of idx r "ucast cur"] Cons.prems(2) by (simp add: unat_lo cur)
  have "mul_inner ai bs (r[idx := ucast cur]) (Suc idx) h = (r', c')"
    using Cons.prems(3) by (simp add: cur_def h_def Let_def)
  note IH = Cons.IH [OF hi_bound _ this]
  have "limbs_val r' + wB ^ (Suc idx + length bs) * unat c'
    = limbs_val r + wB ^ idx * (unat ai * (unat bj + wB * limbs_val bs) + unat c)"
    by (rule limb_accumulate [OF _ upd n_def]) (use IH Cons.prems(2) hi in simp)
  with IH Cons.prems(2) show ?case by simp
qed simp

declare mul_carry.simps [simp del]

lemma mul_carry_val:
  "unat c < wB \<Longrightarrow> k \<le> 8 \<Longrightarrow> length r = 8 \<Longrightarrow>
   limbs_val (mul_carry r k c) mod wB ^ 8 = (limbs_val r + wB ^ k * unat c) mod wB ^ 8
   \<and> length (mul_carry r k c) = 8"
proof (induction r k c rule: mul_carry.induct)
  case (1 r k c)
  show ?case
  proof (cases "c \<noteq> 0 \<and> k < 8")
    case False
    then have "mul_carry r k c = r" by (subst mul_carry.simps) auto
    moreover from False have "c = 0 \<or> k = 8" using 1 by fastforce
    ultimately show ?thesis using 1 by auto
  next
    case True
    define cur :: u128 where "cur = ucast (r ! k) + c"
    define n where "n = unat (r ! k) + unat c"
    define h where "h = drop_bit 64 cur"
    have cur: "unat cur = n" unfolding cur_def n_def by (rule unat_add_step [OF "1.prems"(1)])
    have hi: "unat h = n div wB" by (simp add: unat_hi cur h_def)
    have "n < wB * wB" using unat_less_u128 [of cur] cur by simp
    then have hi_bound: "unat h < wB" by (simp add: hi less_mult_imp_div_less)
    have upd: "limbs_val (r[k := ucast cur]) + wB ^ k * unat (r ! k) = limbs_val r + wB ^ k * (n mod wB)"
      using limbs_val_update [of k r "ucast cur"] 1(4) True by (simp add: unat_lo cur)
    have eq: "limbs_val (r[k := ucast cur]) + wB ^ Suc k * unat h = limbs_val r + wB ^ k * unat c"
      using limb_accumulate [OF _ upd, where A = 0 and S = 0 and x = 0 and c = "unat c"]
      by (simp add: hi n_def)
    have "mul_carry r k c = mul_carry (r[k := ucast cur]) (Suc k) h"
      using True by (subst mul_carry.simps) (simp add: cur_def h_def Let_def)
    moreover have "limbs_val (mul_carry (r[k := ucast cur]) (Suc k) h) mod wB ^ 8
        = (limbs_val (r[k := ucast cur]) + wB ^ Suc k * unat h) mod wB ^ 8
      \<and> length (mul_carry (r[k := ucast cur]) (Suc k) h) = 8"
      unfolding h_def by (rule "1.IH" [OF True cur_def]) (use hi_bound 1(4) True in \<open>simp_all add: h_def\<close>)
    ultimately show ?thesis unfolding eq by simp
  qed
qed

lemma mul_outer_val:
  "i + length a \<le> 4 \<Longrightarrow> length b = 4 \<Longrightarrow> length r = 8 \<Longrightarrow>
   limbs_val (mul_outer a b i r) mod wB ^ 8
     = (limbs_val r + wB ^ i * (limbs_val a * limbs_val b)) mod wB ^ 8
   \<and> length (mul_outer a b i r) = 8"
proof (induction a arbitrary: i r)
  case (Cons ai as)
  have split: "limbs_val (ai # as) * limbs_val b
      = unat ai * limbs_val b + wB * (limbs_val as * limbs_val b)"
    by (simp add: distrib_right)
  have step: "limbs_val (mul_outer as b (Suc i) r2) mod wB ^ 8
        = (limbs_val r + wB ^ i * (limbs_val (ai # as) * limbs_val b)) mod wB ^ 8
      \<and> length (mul_outer as b (Suc i) r2) = 8"
    if r2: "length r2 = 8"
      "limbs_val r2 mod wB ^ 8 = (limbs_val r + wB ^ i * (unat ai * limbs_val b)) mod wB ^ 8" for r2
  proof -
    have "(limbs_val r2 + wB ^ Suc i * (limbs_val as * limbs_val b)) mod wB ^ 8
      = (limbs_val r + wB ^ i * (unat ai * limbs_val b) + wB ^ Suc i * (limbs_val as * limbs_val b)) mod wB ^ 8"
      using r2(2) by (rule mod_add_cong) (rule refl)
    then show ?thesis
      using Cons.IH [of "Suc i" r2] Cons.prems r2(1) unfolding split
      by (simp add: distrib_left mult.assoc mult.left_commute add.assoc)
  qed
  show ?case
  proof (cases "ai = 0")
    case True
    then show ?thesis using step [of r] Cons.prems by simp
  next
    case False
    obtain r1 c where inner: "mul_inner ai b r i 0 = (r1, c)" by fastforce
    have v1: "limbs_val r1 + wB ^ (i + 4) * unat c = limbs_val r + wB ^ i * (unat ai * limbs_val b)"
      "unat c < wB" "length r1 = 8"
      using mul_inner_val [OF _ _ inner] Cons.prems by simp_all
    have "limbs_val (mul_carry r1 (i + 4) c) mod wB ^ 8
        = (limbs_val r + wB ^ i * (unat ai * limbs_val b)) mod wB ^ 8
      \<and> length (mul_carry r1 (i + 4) c) = 8"
      using mul_carry_val [of c "i + 4" r1] v1 Cons.prems(1) by simp
    then show ?thesis using False inner step by simp
  qed
qed simp

lemma length_u256_mul [simp]: "length a = 4 \<Longrightarrow> length b = 4 \<Longrightarrow> length (u256_mul a b) = 4"
  using mul_outer_val [of 0 a b "replicate 8 0"] by (simp add: u256_mul_def)

lemma u256_mul_wB:
  assumes "length a = 4" and "length b = 4"
  shows "limbs_val (u256_mul a b) = limbs_val a * limbs_val b mod wB ^ 4"
proof -
  let ?p = "mul_outer a b 0 (replicate 8 0)"
  have p: "limbs_val ?p mod wB ^ 8 = limbs_val a * limbs_val b mod wB ^ 8" "length ?p = 8"
    using mul_outer_val [of 0 a b "replicate 8 0"] assms by simp_all
  have "limbs_val (u256_mul a b) = limbs_val ?p mod wB ^ 4"
    using p by (simp add: u256_mul_def limbs_val_take)
  also have "\<dots> = limbs_val ?p mod wB ^ 8 mod wB ^ 4"
    by (rule mod_mod_cancel [symmetric]) (rule le_imp_power_dvd, simp)
  also have "\<dots> = limbs_val a * limbs_val b mod wB ^ 4"
    unfolding p by (rule mod_mod_cancel) (rule le_imp_power_dvd, simp)
  finally show ?thesis .
qed

lemma u256_mul_val [u256_simps]:
  "length a = 4 \<Longrightarrow> length b = 4 \<Longrightarrow> limbs_val (u256_mul a b) = limbs_val a * limbs_val b mod 2 ^ 256"
  by (simp add: u256_mul_wB wB_power)

subsection \<open>Division\<close>

lemma bit_limb_Cons: "x < wB \<Longrightarrow> bit (x + wB * v) n = (if n < 64 then bit x n else bit v (n - 64))"
proof (cases "n < 64")
  case True
  then have "wB = 2 ^ n * (2 * 2 ^ (63 - n))"
    by (simp add: wB_def flip: power_add power_Suc)
  then have "x + wB * v = x + 2 * (2 ^ (63 - n) * v) * 2 ^ n"
    by (simp only: mult_ac)
  then have "(x + wB * v) div 2 ^ n = 2 * (2 ^ (63 - n) * v) + x div 2 ^ n"
    by (simp only: div_mult_self1 power_not_zero zero_neq_numeral not_False_eq_True)
  with True show ?thesis by (simp add: bit_iff_odd)
next
  case False
  then have "(2 :: nat) ^ n = wB * 2 ^ (n - 64)"
    unfolding wB_def power_add [symmetric] by simp
  moreover assume "x < wB"
  ultimately have "(x + wB * v) div 2 ^ n = v div 2 ^ (n - 64)"
    by (simp add: div_mult2_eq)
  with False show ?thesis by (simp add: bit_iff_odd)
qed

lemma bit_limbs_val:
  "pos < 64 * length a \<Longrightarrow> bit (limbs_val a) pos \<longleftrightarrow> bit (a ! (pos div 64)) (pos mod 64)"
proof (induction a arbitrary: pos)
  case (Cons x xs)
  show ?case
  proof (cases "pos < 64")
    case False
    then have "pos div 64 = Suc ((pos - 64) div 64)" "pos mod 64 = (pos - 64) mod 64"
      by (simp_all add: le_div_geq le_mod_geq)
    with False show ?thesis
      using Cons.IH [of "pos - 64"] Cons.prems by (simp add: bit_limb_Cons unat_less_wB)
  qed (simp add: bit_limb_Cons unat_less_wB bit_unsigned_iff)
qed simp

lemma test_bit_limb: "drop_bit k x AND 1 = 1 \<longleftrightarrow> bit x k" for x :: u64
  unfolding and_one_eq bit_iff_odd_drop_bit odd_iff_mod_2_eq_one by (rule refl)

lemma unat_set_bit:
  fixes x :: u64
  assumes "\<not> bit x k" and "k < 64"
  shows "unat (x OR push_bit k 1) = unat x + 2 ^ k"
proof -
  have "unat (push_bit k 1 :: u64) = push_bit k 1"
    using assms(2) unfolding unsigned_push_bit_eq by (simp add: take_bit_push_bit)
  then have "unat (x OR push_bit k 1) = Bit_Operations.set_bit k (unat x)"
    unfolding unsigned_or_eq set_bit_eq_or by (simp only:)
  moreover have "\<not> bit (unat x) k" using assms by (simp add: bit_unsigned_iff)
  ultimately show ?thesis by (simp add: set_bit_eq)
qed

lemma limbs_set_bit:
  assumes "\<not> bit (limbs_val q) pos" and "pos < 64 * length q"
  shows "limbs_val (q[pos div 64 := q ! (pos div 64) OR push_bit (pos mod 64) 1]) = limbs_val q + 2 ^ pos"
proof -
  let ?i = "pos div 64" and ?k = "pos mod 64"
  have "?i < length q" using assms(2) by (simp add: less_mult_imp_div_less mult.commute)
  moreover have "unat (q ! ?i OR push_bit ?k 1) = unat (q ! ?i) + 2 ^ ?k"
    using assms by (intro unat_set_bit) (simp_all add: bit_limbs_val)
  moreover have "wB ^ ?i * 2 ^ ?k = 2 ^ pos"
    by (simp add: wB_power flip: power_add)
  ultimately show ?thesis
    using limbs_val_update [of ?i q "q ! ?i OR push_bit ?k 1"] by (simp only: distrib_left) simp
qed

text \<open>The loop invariant of the restoring division with \<open>n\<close> positions left: the bits of the
  quotient found so far, times the divisor, plus the remainder are the bits of the dividend read so
  far.\<close>

definition div_inv :: "u256 \<Rightarrow> u256 \<Rightarrow> nat \<Rightarrow> u256 \<Rightarrow> u256 \<Rightarrow> bool" where
  "div_inv a b n q r \<longleftrightarrow> length q = 4 \<and> length r = 4 \<and> limbs_val r < limbs_val b
     \<and> (\<exists>k. limbs_val q = 2 ^ n * k \<and> limbs_val a div 2 ^ n = k * limbs_val b + limbs_val r)"

lemma even_not_bit_0: "even n \<Longrightarrow> \<not> bit n 0" for n :: nat
  by (simp add: bit_0)

lemma shifted_rem_val:
  assumes "length a = 4" and "length rem = 4" and "pos < 256" and "u256_shl1 rem = (r, c)"
    and "r' = (if drop_bit (pos mod 64) (a ! (pos div 64)) AND 1 = 1 then r[0 := r ! 0 OR 1] else r)"
  shows "limbs_val r' + wB ^ 4 * unat c = 2 * limbs_val rem + limbs_val a div 2 ^ pos mod 2"
    and "length r' = 4" and "c = 0 \<or> c = 1"
proof -
  have r: "limbs_val r + wB ^ 4 * unat c = 2 * limbs_val rem" "length r = 4" "c = 0 \<or> c = 1"
    using shl1_loop_val [of 0 rem r c] assms(2,4) by (simp_all add: u256_shl1_def)
  have "even (wB ^ 4 * unat c)" by (simp add: wB_def)
  with r(1) have "even (limbs_val r)" by (metis dvd_add_left_iff dvd_triv_left)
  then have one: "limbs_val (r[0 := r ! 0 OR 1]) = limbs_val r + 1"
    using limbs_set_bit [of r 0] r(2) by (simp add: even_not_bit_0)
  have bit: "drop_bit (pos mod 64) (a ! (pos div 64)) AND 1 = 1 \<longleftrightarrow> odd (limbs_val a div 2 ^ pos)"
    unfolding test_bit_limb using assms(1,3) bit_limbs_val [of pos a] by (simp add: bit_iff_odd)
  show "limbs_val r' + wB ^ 4 * unat c = 2 * limbs_val rem + limbs_val a div 2 ^ pos mod 2"
    using r one unfolding assms(5) bit by (cases "odd (limbs_val a div 2 ^ pos)") (simp_all add: odd_iff_mod_2_eq_one)
  show "length r' = 4" "c = 0 \<or> c = 1" using r by (simp_all add: assms(5))
qed

lemma div_step_inv:
  assumes "length a = 4" and "length b = 4" and "pos < 256"
    and inv: "div_inv a b (Suc pos) q rem" and step: "div_step a b pos q rem = (q', rem')"
  shows "div_inv a b pos q' rem'"
proof -
  obtain k where len: "length q = 4" "length rem = 4" and less: "limbs_val rem < limbs_val b"
    and k: "limbs_val q = 2 ^ Suc pos * k" "limbs_val a div 2 ^ Suc pos = k * limbs_val b + limbs_val rem"
    using inv by (auto simp: div_inv_def)
  obtain r c where shl: "u256_shl1 rem = (r, c)" by fastforce
  define r' where "r' = (if drop_bit (pos mod 64) (a ! (pos div 64)) AND 1 = 1 then r[0 := r ! 0 OR 1] else r)"
  note r' = shifted_rem_val [OF assms(1) len(2) assms(3) shl r'_def]
  define d where "d = limbs_val a div 2 ^ pos mod 2"
  have d: "limbs_val r' + wB ^ 4 * unat c = 2 * limbs_val rem + d" using r'(1) by (simp add: d_def)
  have "limbs_val a div 2 ^ pos = 2 * (limbs_val a div 2 ^ pos div 2) + d"
    by (simp add: d_def)
  also have "limbs_val a div 2 ^ pos div 2 = limbs_val a div 2 ^ Suc pos"
    by (simp only: div_mult2_eq [symmetric] power_Suc2)
  finally have bits: "limbs_val a div 2 ^ pos = 2 * k * limbs_val b + (2 * limbs_val rem + d)"
    unfolding k by simp
  have "d \<le> 1" by (simp add: d_def)
  have bnd: "limbs_val r' < wB ^ 4" "limbs_val b < wB ^ 4"
    using limbs_val_bound [of r'] limbs_val_bound [of b] r'(2) assms(2) by simp_all
  show ?thesis
  proof (cases "c = 1 \<or> \<not> u256_gt b r'")
    case True
    then have ge: "limbs_val b \<le> limbs_val r' + wB ^ 4 * unat c"
      using r' assms(2) bnd by (auto simp: u256_gt_val)
    have rem': "rem' = u256_sub_assign r' b"
      and q': "q' = q[pos div 64 := q ! (pos div 64) OR push_bit (pos mod 64) 1]"
      using step True by (simp_all add: div_step_def shl Let_def flip: r'_def)
    have "limbs_val rem' = limbs_val r' + wB ^ 4 * unat c - limbs_val b"
      unfolding rem' using r'(2,3) assms(2) ge d less \<open>d \<le> 1\<close> bnd by (intro u256_sub_val) auto
    moreover have "\<not> bit (limbs_val q) pos" by (simp add: k bit_iff_odd)
    then have "limbs_val q' = limbs_val q + 2 ^ pos"
      unfolding q' using len assms(3) by (intro limbs_set_bit) simp_all
    ultimately have "limbs_val q' = 2 ^ pos * (2 * k + 1)" "limbs_val rem' + limbs_val b = 2 * limbs_val rem + d"
      using k ge d by simp_all
    with bits less \<open>d \<le> 1\<close> show ?thesis
      unfolding div_inv_def using len r'(2) assms(2) q' rem' by (auto intro!: exI [of _ "2 * k + 1"])
  next
    case False
    then have "q' = q" "rem' = r'" "c = 0"
      using step r'(3) by (auto simp: div_step_def shl Let_def simp flip: r'_def)
    with bits d k False r'(2) len assms(2) show ?thesis
      by (auto simp: div_inv_def u256_gt_val intro!: exI [of _ "2 * k"])
  qed
qed

lemma div_loop_val:
  assumes "length a = 4" and "length b = 4"
  shows "n \<le> 256 \<Longrightarrow> div_inv a b n q rem \<Longrightarrow>
    limbs_val (div_loop a b n q rem) = limbs_val a div limbs_val b \<and> length (div_loop a b n q rem) = 4"
proof (induction n arbitrary: q rem)
  case 0
  then show ?case by (auto simp: div_inv_def)
next
  case (Suc pos)
  obtain q' rem' where step: "div_step a b pos q rem = (q', rem')" by fastforce
  have "div_inv a b pos q' rem'" using div_step_inv [OF assms _ Suc.prems(2) step] Suc.prems by simp
  with Suc step show ?case by simp
qed

lemma div_inv_init: "length a = 4 \<Longrightarrow> 0 < limbs_val b \<Longrightarrow> div_inv a b 256 u256_zero u256_zero"
  using u256_bound [of a] by (auto simp: div_inv_def)

lemma u256_div_val_aux:
  assumes "length a = 4" and "length b = 4"
  shows "limbs_val (u256_div a b) = limbs_val a div limbs_val b \<and> length (u256_div a b) = 4"
proof (cases "b = u256_zero \<or> u256_gt b a")
  case False
  then have "0 < limbs_val b" using assms limbs_val_eq_0 [of b] by auto
  then show ?thesis using div_loop_val [OF assms _ div_inv_init] assms False by (simp add: u256_div_def)
qed (use assms in \<open>auto simp: u256_div_def u256_gt_val\<close>)

lemmas u256_div_val [u256_simps] = u256_div_val_aux [THEN conjunct1]
lemmas length_u256_div [simp] = u256_div_val_aux [THEN conjunct2]

subsection \<open>Saturating product\<close>

lemma u256_mul_sat_val [u256_simps]:
  assumes "length a = 4" and "length b = 4"
  shows "limbs_val (u256_mul_sat a b) = min (limbs_val a * limbs_val b) (2 ^ 256 - 1)"
proof (cases "a = u256_zero \<or> b = u256_zero")
  case False
  define A B M where "A = limbs_val a" and "B = limbs_val b" and "M = (2 :: nat) ^ 256"
  have B: "0 < B" using False assms limbs_val_eq_0 [of b] by (simp add: B_def)
  have p: "limbs_val (u256_mul a b) = A * B mod M" using assms by (simp add: u256_mul_val A_def B_def M_def)
  have eq: "u256_div (u256_mul a b) b = a \<longleftrightarrow> A * B mod M div B = A"
  proof -
    have "limbs_val (u256_div (u256_mul a b) b) = A * B mod M div B" "length (u256_div (u256_mul a b) b) = 4"
      using assms by (simp_all add: u256_div_val p B_def)
    then show ?thesis using limbs_val_inj [of _ a] assms(1) by (metis A_def)
  qed
  have "A * B mod M div B = A \<longleftrightarrow> A * B < M"
  proof
    assume "A * B mod M div B = A"
    then have "A * B \<le> A * B mod M" by (metis div_times_less_eq_dividend)
    then show "A * B < M" by (metis M_def le_less_trans mod_less_divisor zero_less_numeral zero_less_power)
  qed (use B in simp)
  moreover have "limbs_val (replicate 4 (- 1)) = M - 1"
    by (simp add: limbs_val_max wB_power M_def)
  ultimately show ?thesis
    using False p unfolding A_def [symmetric] B_def [symmetric] M_def [symmetric] u256_mul_sat_def
    by (auto simp: eq Let_def)
qed (auto simp: u256_mul_sat_def)

lemma length_u256_mul_sat [simp]: "length a = 4 \<Longrightarrow> length b = 4 \<Longrightarrow> length (u256_mul_sat a b) = 4"
  by (simp add: u256_mul_sat_def Let_def)

subsection \<open>Byte representation\<close>

lemma length_u256_from_u64 [simp]: "length (u256_from_u64 v) = 4"
  by (simp add: u256_from_u64_def)

lemma limbs_val_from_u64 [simp]: "limbs_val (u256_from_u64 v) = unat v"
  by (simp add: u256_from_u64_def)

lemma u256_from_bytes_limbs:
  "u256_from_bytes bs = [from_be_bytes64 (take 8 (drop 24 bs)), from_be_bytes64 (take 8 (drop 16 bs)),
     from_be_bytes64 (take 8 (drop 8 bs)), from_be_bytes64 (take 8 bs)]"
  by (simp add: u256_from_bytes_def u256_zero_def upt_rec numeral_eq_Suc)

lemma length_u256_from_bytes [simp]: "length (u256_from_bytes bs) = 4"
  by (simp add: u256_from_bytes_limbs)

lemma be_val_from_bytes [u256_simps]:
  assumes "length bs = 32"
  shows "limbs_val (u256_from_bytes bs) = be_val bs"
proof -
  let ?p = "\<lambda>i. take 8 (drop i bs)"
  have "bs = ?p 0 @ ?p 8 @ ?p 16 @ ?p 24"
    using assms append_take_drop_id [of 8 bs] append_take_drop_id [of 8 "drop 8 bs"]
      append_take_drop_id [of 8 "drop 16 bs"] by (simp add: take_all)
  then have "be_val bs = be_val (?p 0 @ ?p 8 @ ?p 16 @ ?p 24)" by (rule arg_cong)
  then show ?thesis
    using assms by (simp add: u256_from_bytes_limbs be_val_append unat_from_be_bytes64 wB_def)
qed

lemma u256_to_bytes_limbs:
  "length v = 4 \<Longrightarrow> u256_to_bytes v = to_be_bytes64 (v ! 3) @ to_be_bytes64 (v ! 2) @ to_be_bytes64 (v ! 1) @ to_be_bytes64 (v ! 0)"
  by (simp add: u256_to_bytes_def copy_from_slice_def zero32_def upt_rec numeral_eq_Suc)

lemma length_u256_to_bytes [simp]: "length v = 4 \<Longrightarrow> length (u256_to_bytes v) = 32"
  by (simp add: u256_to_bytes_limbs)

lemma u256_from_to_bytes [simp]: "length v = 4 \<Longrightarrow> u256_from_bytes (u256_to_bytes v) = v"
  by (auto simp: u256_from_bytes_limbs u256_to_bytes_limbs numeral_eq_Suc length_Suc_conv)

lemma be_val_to_bytes [u256_simps]: "length v = 4 \<Longrightarrow> be_val (u256_to_bytes v) = limbs_val v"
  using be_val_from_bytes [of "u256_to_bytes v"] by simp

lemma u256_to_from_bytes [simp]: "length bs = 32 \<Longrightarrow> u256_to_bytes (u256_from_bytes bs) = bs"
  by (rule be_val_inj) (simp_all add: be_val_to_bytes be_val_from_bytes)

end
