(* ===== verification/Sc_Smt.thy ===== *)
theory Sc_Smt
  imports Sc_Codec Sc_U256
begin

text \<open>
  The sparse Merkle tree of \<open>crates/strangecoin-core/src/state/sparse_merkle.rs\<close>: a binary tree of depth
  256 over 32-byte keys, hashed from the sorted list of its leaves. The specification \<open>smt\<close> hashes
  the complete tree over a partial function from bit paths to leaves; the code's \<open>hash_range\<close> over
  sorted slices is proved to compute it, its proofs are proved complete and, up to collisions of
  the hash, sound.
\<close>

section \<open>Definitions\<close>

definition DEPTH :: nat where "DEPTH = 256"

definition EMPTY_HASH :: bytes where
  "EMPTY_HASH = [
    0xaf, 0x13, 0x49, 0xb9, 0xf5, 0xf9, 0xa1, 0xa6, 0xa0, 0x9f, 0xb0, 0x2d, 0xc6, 0x03, 0x1e, 0x89,
    0x25, 0x81, 0x64, 0xb6, 0xb8, 0x73, 0x0a, 0x4b, 0x48, 0x02, 0x6d, 0x1e, 0x94, 0x78, 0xf5, 0x46]"

definition hash_bytes :: "ext \<Rightarrow> bytes \<Rightarrow> bytes" where
  "hash_bytes X data = blake3 X data"

definition hash_pair :: "ext \<Rightarrow> bytes \<Rightarrow> bytes \<Rightarrow> bytes" where
  "hash_pair X left right = blake3 X (left @ right)"

definition account_key_hash :: "ext \<Rightarrow> string \<Rightarrow> bytes" where
  "account_key_hash X address = hash_bytes X (as_bytes address)"

definition CONTRACT_LEAF_TAG :: u8 where "CONTRACT_LEAF_TAG = 1"
definition RECEIPT_LEAF_TAG :: u8 where "RECEIPT_LEAF_TAG = 2"
definition STORAGE_LEAF_TAG :: u8 where "STORAGE_LEAF_TAG = 3"

text \<open>The bytes fed to the hasher for a leaf, and the leaf.\<close>

fun account_leaf_input :: "bytes \<Rightarrow> account \<Rightarrow> bytes" where
  "account_leaf_input key (Eoa a) = key @ to_le_bytes64 (eoa_balance a) @ to_le_bytes64 (eoa_nonce a)"
| "account_leaf_input key (Contract a) = key @ [CONTRACT_LEAF_TAG] @ code_hash a @ storage_root a
     @ to_le_bytes64 (con_balance a) @ to_le_bytes64 (con_nonce a)"

definition account_leaf_hash :: "ext \<Rightarrow> bytes \<Rightarrow> account \<Rightarrow> bytes" where
  "account_leaf_hash X key a = blake3 X (account_leaf_input key a)"

definition bit_at :: "bytes \<Rightarrow> nat \<Rightarrow> u8" where
  "bit_at key i = drop_bit (7 - i mod 8) (key ! (i div 8)) AND 1"

definition leaf_hash_for :: "ext \<Rightarrow> bytes \<Rightarrow> account \<Rightarrow> bytes" where
  "leaf_hash_for X key a = (if acc_is_empty a then EMPTY_HASH else account_leaf_hash X key a)"

text \<open>The table of empty subtrees, filled from the leaves up; \<open>empty_levels\<close> counts the levels
  below.\<close>

fun empty_levels :: "ext \<Rightarrow> nat \<Rightarrow> bytes" where
  "empty_levels X 0 = EMPTY_HASH"
| "empty_levels X (Suc n) = hash_pair X (empty_levels X n) (empty_levels X n)"

definition empty_subtree :: "ext \<Rightarrow> nat \<Rightarrow> bytes" where
  "empty_subtree X depth = empty_levels X (DEPTH - depth)"

text \<open>\<open>slice::partition_point\<close> on a slice that is partitioned by the predicate: the number of
  elements of its first part.\<close>

definition partition_point :: "('a \<Rightarrow> bool) \<Rightarrow> 'a list \<Rightarrow> nat" where
  "partition_point P xs = length (takeWhile P xs)"

definition sub_slice :: "'a list \<Rightarrow> nat \<Rightarrow> nat \<Rightarrow> 'a list" where
  "sub_slice xs start fin = take (fin - start) (drop start xs)"

text \<open>Levels run from 0 to \<open>DEPTH\<close>; the leaf test is \<open>bit == DEPTH\<close> in the code.\<close>

function hash_range :: "ext \<Rightarrow> (bytes \<times> bytes) list \<Rightarrow> nat \<Rightarrow> nat \<Rightarrow> nat \<Rightarrow> bytes" where
  "hash_range X kvs lvl start fin =
     (if start \<ge> fin then empty_subtree X lvl
      else if lvl \<ge> DEPTH then snd (kvs ! start)
      else
        let mid = start + partition_point (\<lambda>(k, _). bit_at k lvl = 0) (sub_slice kvs start fin);
            left = (if mid = start then empty_subtree X (lvl + 1) else hash_range X kvs (lvl + 1) start mid);
            right = (if mid = fin then empty_subtree X (lvl + 1) else hash_range X kvs (lvl + 1) mid fin)
        in hash_pair X left right)"
  by pat_completeness auto
termination
  by (relation "measure (\<lambda>(X, kvs, lvl, start, fin). DEPTH - lvl)") auto

declare hash_range.simps [simp del]

function collect_siblings :: "ext \<Rightarrow> (bytes \<times> bytes) list \<Rightarrow> bytes \<Rightarrow> nat \<Rightarrow> nat \<Rightarrow> nat \<Rightarrow> bytes list" where
  "collect_siblings X kvs key lvl start fin =
     (if lvl \<ge> DEPTH then []
      else
        let mid = start + partition_point (\<lambda>(k, _). bit_at k lvl = 0) (sub_slice kvs start fin);
            (sib_start, sib_end, next_start, next_end) =
              (if bit_at key lvl = 0 then (mid, fin, start, mid) else (start, mid, mid, fin));
            sibling = (if sib_start \<ge> sib_end then empty_subtree X (lvl + 1)
                       else hash_range X kvs (lvl + 1) sib_start sib_end)
        in sibling # collect_siblings X kvs key (lvl + 1) next_start next_end)"
  by pat_completeness auto
termination
  by (relation "measure (\<lambda>(X, kvs, key, lvl, start, fin). DEPTH - lvl)") auto

declare collect_siblings.simps [simp del]

subsection \<open>The account tree\<close>

text \<open>The leaves are a map from keys to leaf hashes; iterating over it and sorting by the key gives
  the list of its entries in the order of the keys.\<close>

type_synonym smt_leaves = "(bytes, bytes) fmap"

definition trie_insert :: "ext \<Rightarrow> string \<Rightarrow> account \<Rightarrow> smt_leaves \<Rightarrow> smt_leaves" where
  "trie_insert X address a leaves =
     (let key = account_key_hash X address
      in if acc_is_empty a then fmdrop key leaves
         else fmupd key (account_leaf_hash X key a) leaves)"

definition trie_root :: "ext \<Rightarrow> smt_leaves \<Rightarrow> bytes" where
  "trie_root X leaves =
     (let kvs = sorted_list_of_fmap leaves in hash_range X kvs 0 0 (length kvs))"

definition empty_root :: "ext \<Rightarrow> bytes" where
  "empty_root X = empty_subtree X 0"

definition compute_root :: "ext \<Rightarrow> (string, account) fmap \<Rightarrow> bytes" where
  "compute_root X accounts =
     (if accounts = fmempty then empty_root X
      else let kvs = sort_key fst
                 (map (\<lambda>(addr, a). (account_key_hash X addr, account_leaf_hash X (account_key_hash X addr) a))
                   (filter (\<lambda>(_, a). \<not> acc_is_empty a) (sorted_list_of_fmap accounts)))
           in hash_range X kvs 0 0 (length kvs))"

definition prove :: "ext \<Rightarrow> smt_leaves \<Rightarrow> string \<Rightarrow> account \<Rightarrow> core_error + bytes list" where
  "prove X leaves address a =
     (let key = account_key_hash X address;
          is_pruned = acc_is_empty a;
          expected_leaf = (if is_pruned then EMPTY_HASH else account_leaf_hash X key a);
          matches = (case fmlookup leaves key of None \<Rightarrow> is_pruned | Some leaf \<Rightarrow> \<not> is_pruned \<and> leaf = expected_leaf);
          kvs = sorted_list_of_fmap leaves
      in if \<not> matches then Inl ProofAccountMismatch
         else Inr (collect_siblings X kvs key 0 0 (length kvs)))"

text \<open>The loop over the levels from the leaf up, at level \<open>i\<close> with the sibling \<open>proof[i]\<close>.\<close>

fun fold_proof :: "ext \<Rightarrow> bytes \<Rightarrow> bytes list \<Rightarrow> nat \<Rightarrow> bytes \<Rightarrow> bytes" where
  "fold_proof X key proof 0 acc = acc"
| "fold_proof X key proof (Suc i) acc =
     fold_proof X key proof i
       (if bit_at key i = 0 then hash_pair X acc (proof ! i) else hash_pair X (proof ! i) acc)"

definition verify_proof :: "ext \<Rightarrow> bytes \<Rightarrow> string \<Rightarrow> account \<Rightarrow> bytes list \<Rightarrow> bool" where
  "verify_proof X root address a proof =
     (if length proof \<noteq> DEPTH then False
      else let key = account_key_hash X address
           in fold_proof X key proof DEPTH (leaf_hash_for X key a) = root)"

subsection \<open>The receipts and contract storage trees\<close>

definition receipt_leaf_hash :: "ext \<Rightarrow> receipt \<Rightarrow> bytes" where
  "receipt_leaf_hash X r = blake3 X (RECEIPT_LEAF_TAG # serialize_receipt r)"

text \<open>The loop that keeps the first receipt of every transaction id.\<close>

definition receipt_leaves :: "ext \<Rightarrow> receipt list \<Rightarrow> (bytes \<times> bytes) list" where
  "receipt_leaves X receipts =
     foldl (\<lambda>acc r. if rc_txid r \<in> set (map fst acc) then acc else acc @ [(rc_txid r, receipt_leaf_hash X r)])
       [] receipts"

definition receipts_subroot :: "ext \<Rightarrow> receipt list \<Rightarrow> bytes" where
  "receipts_subroot X receipts =
     (if receipts = [] then empty_root X
      else let kvs = sort_key fst (receipt_leaves X receipts) in hash_range X kvs 0 0 (length kvs))"

definition prove_receipt :: "ext \<Rightarrow> receipt list \<Rightarrow> bytes \<Rightarrow> core_error + bytes list" where
  "prove_receipt X receipts tid =
     (case find (\<lambda>r. rc_txid r = tid) receipts of
        None \<Rightarrow> Inl ProofAccountMismatch
      | Some r \<Rightarrow>
          let kvs = sort_key fst (receipt_leaves X receipts)
          in Inr (collect_siblings X kvs (rc_txid r) 0 0 (length kvs)))"

definition verify_receipt_proof :: "ext \<Rightarrow> bytes \<Rightarrow> receipt \<Rightarrow> bytes list \<Rightarrow> bool" where
  "verify_receipt_proof X root r proof =
     (if length proof \<noteq> DEPTH then False
      else fold_proof X (rc_txid r) proof DEPTH (receipt_leaf_hash X r) = root)"

definition storage_leaf_hash :: "ext \<Rightarrow> bytes \<Rightarrow> bytes \<Rightarrow> bytes" where
  "storage_leaf_hash X key value = blake3 X (STORAGE_LEAF_TAG # key @ value)"

definition contract_storage_root :: "ext \<Rightarrow> contract_storage \<Rightarrow> bytes" where
  "contract_storage_root X entries =
     (if entries = fmempty then zero32
      else let kvs = map (\<lambda>(key, value). (key, storage_leaf_hash X key value)) (sorted_list_of_fmap entries)
           in hash_range X kvs 0 0 (length kvs))"

section \<open>The specification\<close>

text \<open>The hash of the complete tree with \<open>n\<close> levels over a partial function from bit paths to
  leaves.\<close>

fun smt :: "ext \<Rightarrow> nat \<Rightarrow> (bool list \<Rightarrow> bytes option) \<Rightarrow> bytes" where
  "smt X 0 m = (case m [] of None \<Rightarrow> EMPTY_HASH | Some leaf \<Rightarrow> leaf)"
| "smt X (Suc n) m = hash_pair X (smt X n (\<lambda>p. m (False # p))) (smt X n (\<lambda>p. m (True # p)))"

definition key_bits :: "bytes \<Rightarrow> bool list" where
  "key_bits key = map (\<lambda>i. bit_at key i = 1) [0..<DEPTH]"

text \<open>The leaves of a list of entries, by what is left of their paths below level \<open>lvl\<close>.\<close>

definition leaf_map :: "nat \<Rightarrow> (bytes \<times> bytes) list \<Rightarrow> bool list \<Rightarrow> bytes option" where
  "leaf_map lvl kvs = map_of (map (\<lambda>(k, v). (drop lvl (key_bits k), v)) kvs)"

lemma smt_empty: "smt X n (\<lambda>_. None) = empty_levels X n"
  by (induction n) simp_all

subsection \<open>Keys as numbers and as paths\<close>

lemma bit_at_cases: "bit_at key i = 0 \<or> bit_at key i = 1"
  unfolding bit_at_def and_one_eq by (rule parity_cases [of "drop_bit (7 - i mod 8) (key ! (i div 8))"]) auto

lemma bit_at_bit: "bit_at key i = 1 \<longleftrightarrow> bit (key ! (i div 8)) (7 - i mod 8)"
  unfolding bit_at_def and_one_eq bit_iff_odd_drop_bit odd_iff_mod_2_eq_one by (rule refl)

lemma bit_at_eq_0: "bit_at key i = 0 \<longleftrightarrow> bit_at key i \<noteq> 1"
  using bit_at_cases [of key i] by auto

lemma bit_byte_Cons: "b < 256 \<Longrightarrow> bit (b + 256 * v) n = (if n < 8 then bit b n else bit v (n - 8))" for b v :: nat
proof (cases "n < 8")
  case True
  then have "(256 :: nat) = 2 ^ n * (2 * 2 ^ (7 - n))" by (simp flip: power_add power_Suc)
  then have "b + 256 * v = b + 2 * (2 ^ (7 - n) * v) * 2 ^ n" by (simp only: mult_ac)
  then have "(b + 256 * v) div 2 ^ n = 2 * (2 ^ (7 - n) * v) + b div 2 ^ n"
    by (simp only: div_mult_self1 power_not_zero zero_neq_numeral not_False_eq_True)
  with True show ?thesis by (simp add: bit_iff_odd)
next
  case False
  then have "(2 :: nat) ^ n = 2 ^ 8 * 2 ^ (n - 8)" unfolding power_add [symmetric] by simp
  then have "(2 :: nat) ^ n = 256 * 2 ^ (n - 8)" by simp
  moreover assume "b < 256"
  ultimately have "(b + 256 * v) div 2 ^ n = v div 2 ^ (n - 8)" by (simp only: div_mult2_eq) simp
  with False show ?thesis by (simp add: bit_iff_odd)
qed

lemma bit_le_val: "n < 8 * length bs \<Longrightarrow> bit (le_val bs) n \<longleftrightarrow> bit (bs ! (n div 8)) (n mod 8)"
proof (induction bs arbitrary: n)
  case (Cons b bs)
  have b: "unat b < 256" using unat_bound [of b] by simp
  show ?case
  proof (cases "n < 8")
    case False
    then have "n div 8 = Suc ((n - 8) div 8)" "n mod 8 = (n - 8) mod 8"
      by (simp_all add: le_div_geq le_mod_geq)
    with False show ?thesis using Cons b by (simp add: bit_byte_Cons)
  qed (use b in \<open>simp add: bit_byte_Cons bit_unsigned_iff\<close>)
qed simp

lemma bit_at_be_val:
  assumes "length key = 32" and "i < 256"
  shows "bit_at key i = 1 \<longleftrightarrow> bit (be_val key) (255 - i)"
proof -
  have "i div 8 < 32" "i mod 8 < 8" "i = 8 * (i div 8) + i mod 8" using assms(2) by auto
  then have "255 - i = (7 - i mod 8) + (31 - i div 8) * 8" by linarith
  then have "(255 - i) div 8 = 31 - i div 8" "(255 - i) mod 8 = 7 - i mod 8"
    by (simp_all only: div_mult_self1 mod_mult_self1) simp_all
  moreover have "bit (be_val key) (255 - i) \<longleftrightarrow> bit (rev key ! ((255 - i) div 8)) ((255 - i) mod 8)"
    using bit_le_val [of "255 - i" "rev key"] assms by (simp add: be_val_def)
  moreover have "rev key ! (31 - i div 8) = key ! (i div 8)"
    using assms by (simp add: rev_nth less_mult_imp_div_less)
  ultimately show ?thesis by (simp add: bit_at_bit)
qed

lemma bytes_less_be_val: "length xs = length ys \<Longrightarrow> xs < ys \<longleftrightarrow> be_val xs < be_val ys"
proof (induction xs ys rule: list_induct2)
  case (Cons x xs y ys)
  have cons: "be_val (z # zs) = be_val zs + 256 ^ length zs * unat z" for z zs
    using be_val_append [of "[z]" zs] by (simp add: be_val_def)
  have "be_val xs < 256 ^ length ys" "be_val ys < 256 ^ length ys"
    using be_val_bound [of xs] be_val_bound [of ys] Cons.hyps by simp_all
  from limb_less_iff [OF this] show ?case
    using Cons unfolding cons by (auto simp: word_less_nat_alt word_eq_iff_unsigned [where ?'a = nat])
qed simp

lemma length_key_bits [simp]: "length (key_bits key) = 256"
  by (simp add: key_bits_def DEPTH_def)

lemma key_bits_nth: "i < 256 \<Longrightarrow> key_bits key ! i \<longleftrightarrow> bit_at key i = 1"
  by (simp add: key_bits_def DEPTH_def)

subsection \<open>Slices of sorted leaves\<close>

definition keys_ok :: "(bytes \<times> bytes) list \<Rightarrow> bool" where
  "keys_ok kvs \<longleftrightarrow> sorted_wrt (<) (map fst kvs) \<and> (\<forall>x \<in> set kvs. length (fst x) = 32)"

text \<open>All keys of the list agree on the first \<open>lvl\<close> bits.\<close>

definition same_prefix :: "nat \<Rightarrow> (bytes \<times> bytes) list \<Rightarrow> bool" where
  "same_prefix lvl kvs \<longleftrightarrow> (\<forall>x \<in> set kvs. \<forall>y \<in> set kvs. \<forall>i < lvl. bit_at (fst x) i = bit_at (fst y) i)"

lemma same_prefix_subset: "same_prefix lvl kvs \<Longrightarrow> set kvs' \<subseteq> set kvs \<Longrightarrow> same_prefix lvl kvs'"
  unfolding same_prefix_def by blast

lemma same_prefixD: "same_prefix lvl kvs \<Longrightarrow> x \<in> set kvs \<Longrightarrow> y \<in> set kvs \<Longrightarrow> i < lvl \<Longrightarrow>
  bit_at (fst x) i = bit_at (fst y) i"
  unfolding same_prefix_def by blast

lemma be_val_eq_bits:
  assumes "length k = 32" and "length k' = 32" and "\<forall>i < lvl. bit_at k i = bit_at k' i" and "lvl \<le> 256"
  shows "be_val k div 2 ^ (256 - lvl) = be_val k' div 2 ^ (256 - lvl)"
proof (rule bit_eqI)
  fix n
  have big: "\<not> bit (be_val x) j" if "256 \<le> j" "length x = 32" for x j
  proof -
    have "be_val x < 2 ^ 256" using be_val_bound [of x] that by simp
    also have "\<dots> \<le> 2 ^ j" using that by (intro power_increasing) simp_all
    finally show ?thesis by (simp add: bit_iff_odd)
  qed
  have "bit (be_val k) (256 - lvl + n) = bit (be_val k') (256 - lvl + n)"
  proof (cases "n < lvl")
    case True
    then have i: "lvl - 1 - n < lvl" "lvl - 1 - n < 256" "255 - (lvl - 1 - n) = 256 - lvl + n"
      using assms(4) by linarith+
    show ?thesis
      using assms(3) i bit_at_be_val [OF assms(1) i(2)] bit_at_be_val [OF assms(2) i(2)] by simp
  next
    case False
    then have "256 \<le> 256 - lvl + n" using assms(4) by linarith
    then show ?thesis using big assms by blast
  qed
  then show "bit (be_val k div 2 ^ (256 - lvl)) n = bit (be_val k' div 2 ^ (256 - lvl)) n"
    by (simp flip: drop_bit_eq_div add: bit_drop_bit_eq)
qed

lemma even_odd_less: "a div 2 = b div 2 \<Longrightarrow> even a \<Longrightarrow> odd b \<Longrightarrow> a < b" for a b :: nat
  by presburger

lemma div_less_imp_less: "a div n < b div n \<Longrightarrow> a < b" for a b n :: nat
  using div_le_mono [of b a n] by (cases "a < b") simp_all

lemma split_bit_less:
  assumes "length k = 32" and "length k' = 32" and "\<forall>i < lvl. bit_at k i = bit_at k' i" and "lvl < 256"
    and "bit_at k lvl = 0" and "bit_at k' lvl = 1"
  shows "k < k'"
proof -
  let ?e = "255 - lvl"
  have e: "256 - lvl = Suc ?e" using assms(4) by simp
  have hi: "be_val k div 2 ^ ?e div 2 = be_val k' div 2 ^ ?e div 2"
    using be_val_eq_bits [OF assms(1-3)] assms(4) unfolding e by (simp only: power_Suc2 div_mult2_eq)
  have "even (be_val k div 2 ^ ?e)" "odd (be_val k' div 2 ^ ?e)"
    using bit_at_be_val [OF assms(1,4)] bit_at_be_val [OF assms(2,4)] assms(5,6) by (simp_all add: bit_iff_odd)
  with hi have "be_val k div 2 ^ ?e < be_val k' div 2 ^ ?e" by (rule even_odd_less)
  then have "be_val k < be_val k'" by (rule div_less_imp_less)
  then show ?thesis using bytes_less_be_val [of k k'] assms by simp
qed

lemma key_bits_inj:
  assumes "length k = 32" and "length k' = 32" and "key_bits k = key_bits k'"
  shows "k = k'"
proof -
  have "bit_at k i = bit_at k' i" if "i < 256" for i
  proof -
    have "bit_at k i = 1 \<longleftrightarrow> bit_at k' i = 1" using assms(3) key_bits_nth [OF that] by metis
    then show ?thesis using bit_at_cases [of k i] bit_at_cases [of k' i] by metis
  qed
  then have "be_val k = be_val k'" using be_val_eq_bits [OF assms(1,2), of 256] by simp
  then show ?thesis using be_val_inj assms by simp
qed

lemma takeWhile_filter:
  assumes "keys_ok kvs" and "same_prefix lvl kvs" and "lvl < 256"
  shows "takeWhile (\<lambda>(k, _). bit_at k lvl = 0) kvs = filter (\<lambda>(k, _). bit_at k lvl = 0) kvs"
    and "dropWhile (\<lambda>(k, _). bit_at k lvl = 0) kvs = filter (\<lambda>(k, _). bit_at k lvl = 1) kvs"
proof -
  have "takeWhile (\<lambda>(k, _). bit_at k lvl = 0) kvs = filter (\<lambda>(k, _). bit_at k lvl = 0) kvs
    \<and> dropWhile (\<lambda>(k, _). bit_at k lvl = 0) kvs = filter (\<lambda>(k, _). bit_at k lvl = 1) kvs"
    using assms(1,2)
  proof (induction kvs)
    case (Cons kv kvs)
    obtain k v where kv: "kv = (k, v)" by fastforce
    have rest: "keys_ok kvs" "same_prefix lvl kvs"
      using Cons.prems by (auto simp: keys_ok_def elim: same_prefix_subset)
    show ?case
    proof (cases "bit_at k lvl = 0")
      case True
      then show ?thesis using Cons.IH [OF rest] by (auto simp: kv)
    next
      case False
      have all1: "bit_at k' lvl = 1" if "(k', v') \<in> set kvs" for k' v'
      proof (rule ccontr)
        assume "bit_at k' lvl \<noteq> 1"
        then have "bit_at k' lvl = 0" by (simp add: bit_at_eq_0)
        moreover have "bit_at k lvl = 1" using False by (simp add: bit_at_eq_0)
        moreover have "length k = 32" "length k' = 32" "k < k'"
          using Cons.prems(1) that kv by (auto simp: keys_ok_def)
        moreover have "\<forall>i < lvl. bit_at k' i = bit_at k i"
          using same_prefixD [OF Cons.prems(2), of "(k', v')" "(k, v)"] that kv by simp
        ultimately have "k' < k" using split_bit_less [of k' k lvl] assms(3) by simp
        with \<open>k < k'\<close> show False by simp
      qed
      have "filter (\<lambda>(k, _). bit_at k lvl = 0) kvs = []" "filter (\<lambda>(k, _). bit_at k lvl = 1) kvs = kvs"
        using all1 by (auto simp: filter_empty_conv filter_id_conv)
      with False show ?thesis using bit_at_eq_0 [of k lvl] by (simp add: kv)
    qed
  qed simp
  then show "takeWhile (\<lambda>(k, _). bit_at k lvl = 0) kvs = filter (\<lambda>(k, _). bit_at k lvl = 0) kvs"
    and "dropWhile (\<lambda>(k, _). bit_at k lvl = 0) kvs = filter (\<lambda>(k, _). bit_at k lvl = 1) kvs" by auto
qed

subsection \<open>The code computes the specification\<close>

lemma key_bits_drop: "lvl < 256 \<Longrightarrow> drop lvl (key_bits k) = (bit_at k lvl = 1) # drop (Suc lvl) (key_bits k)"
  by (simp add: Cons_nth_drop_Suc [symmetric] key_bits_nth)

lemma leaf_map_Nil [simp]: "leaf_map lvl [] = (\<lambda>_. None)"
  by (simp add: leaf_map_def)

lemma leaf_map_split:
  assumes "lvl < 256"
  shows "leaf_map lvl kvs (False # p) = leaf_map (Suc lvl) (filter (\<lambda>(k, _). bit_at k lvl = 0) kvs) p"
    and "leaf_map lvl kvs (True # p) = leaf_map (Suc lvl) (filter (\<lambda>(k, _). bit_at k lvl = 1) kvs) p"
  by (induction kvs) (auto simp: leaf_map_def key_bits_drop [OF assms] bit_at_eq_0)

lemma smt_leaf_map_split:
  assumes "lvl < 256"
  shows "smt X (256 - lvl) (leaf_map lvl kvs) = hash_pair X
    (smt X (255 - lvl) (leaf_map (Suc lvl) (filter (\<lambda>(k, _). bit_at k lvl = 0) kvs)))
    (smt X (255 - lvl) (leaf_map (Suc lvl) (filter (\<lambda>(k, _). bit_at k lvl = 1) kvs)))"
proof -
  have "256 - lvl = Suc (255 - lvl)" using assms by simp
  then show ?thesis by (simp only: smt.simps leaf_map_split [OF assms])
qed

lemma hash_range_empty: "fin \<le> start \<Longrightarrow> hash_range X kvs lvl start fin = empty_subtree X lvl"
  by (subst hash_range.simps) simp

lemma keys_ok_filter: "keys_ok kvs \<Longrightarrow> keys_ok (filter P kvs)"
  by (induction kvs) (auto simp: keys_ok_def)

lemma same_prefix_filter:
  "same_prefix lvl kvs \<Longrightarrow> same_prefix (Suc lvl) (filter (\<lambda>(k, _). bit_at k lvl = b) kvs)"
  unfolding same_prefix_def by (auto simp: less_Suc_eq)

lemma slice_part:
  assumes "fin \<le> length kvs" and "start \<le> fin" and "mid = start + partition_point P (sub_slice kvs start fin)"
  shows "sub_slice kvs start mid = takeWhile P (sub_slice kvs start fin)"
    and "sub_slice kvs mid fin = dropWhile P (sub_slice kvs start fin)" and "start \<le> mid" and "mid \<le> fin"
proof -
  let ?n = "partition_point P (sub_slice kvs start fin)"
  have n: "?n \<le> fin - start"
    using length_takeWhile_le [of P "sub_slice kvs start fin"] assms(1,2) by (simp add: partition_point_def sub_slice_def)
  then show "start \<le> mid" "mid \<le> fin" using assms by simp_all
  show "sub_slice kvs start mid = takeWhile P (sub_slice kvs start fin)"
    using n takeWhile_eq_take [of P "sub_slice kvs start fin"] assms(3)
    by (simp add: sub_slice_def partition_point_def min_absorb1)
  have "sub_slice kvs mid fin = drop ?n (sub_slice kvs start fin)"
    using assms(3) by (simp add: sub_slice_def drop_take add.commute)
  then show "sub_slice kvs mid fin = dropWhile P (sub_slice kvs start fin)"
    by (simp add: dropWhile_eq_drop partition_point_def)
qed

lemma hash_range_smt:
  "lvl \<le> 256 \<Longrightarrow> start \<le> fin \<Longrightarrow> fin \<le> length kvs \<Longrightarrow> keys_ok (sub_slice kvs start fin) \<Longrightarrow>
   same_prefix lvl (sub_slice kvs start fin) \<Longrightarrow>
   hash_range X kvs lvl start fin = smt X (256 - lvl) (leaf_map lvl (sub_slice kvs start fin))"
proof (induction "256 - lvl" arbitrary: lvl start fin)
  case 0
  then have lvl: "lvl = 256" by simp
  show ?case
  proof (cases "start < fin")
    case True
    then have "sub_slice kvs start fin = kvs ! start # sub_slice kvs (Suc start) fin"
      using 0 by (simp add: sub_slice_def Cons_nth_drop_Suc [symmetric] take_Cons' Suc_diff_Suc)
    then show ?thesis
      using True unfolding lvl
      by (simp add: hash_range.simps [of X kvs 256] DEPTH_def leaf_map_def case_prod_beta)
  next
    case False
    then show ?thesis
      unfolding lvl by (simp add: hash_range.simps [of X kvs 256] DEPTH_def sub_slice_def empty_subtree_def)
  qed
next
  case (Suc n)
  then have lvl: "lvl < 256" "n = 256 - Suc lvl" "255 - lvl = 256 - Suc lvl" by simp_all
  show ?case
  proof (cases "start < fin")
    case False
    then show ?thesis
      by (simp add: hash_range.simps [of X kvs lvl] sub_slice_def empty_subtree_def DEPTH_def smt_empty)
  next
    case True
    define mid where "mid = start + partition_point (\<lambda>(k, _). bit_at k lvl = 0) (sub_slice kvs start fin)"
    note part = slice_part [OF Suc.prems(3,2) mid_def]
    note fil = takeWhile_filter [OF Suc.prems(4,5) lvl(1)]
    have ok: "keys_ok (sub_slice kvs start mid)" "keys_ok (sub_slice kvs mid fin)"
      "same_prefix (Suc lvl) (sub_slice kvs start mid)" "same_prefix (Suc lvl) (sub_slice kvs mid fin)"
      using Suc.prems(4,5) part fil by (simp_all add: keys_ok_filter same_prefix_filter)
    have ends: "Suc lvl \<le> 256" "start \<le> mid" "mid \<le> fin" "mid \<le> length kvs" "fin \<le> length kvs"
      using part(3,4) Suc.prems(3) lvl(1) by simp_all
    have IH: "hash_range X kvs (Suc lvl) start mid = smt X (256 - Suc lvl) (leaf_map (Suc lvl) (sub_slice kvs start mid))"
      "hash_range X kvs (Suc lvl) mid fin = smt X (256 - Suc lvl) (leaf_map (Suc lvl) (sub_slice kvs mid fin))"
      using Suc.hyps(1) [OF lvl(2) ends(1)] ends(2-) ok by blast+
    have "hash_range X kvs lvl start fin
      = hash_pair X (hash_range X kvs (Suc lvl) start mid) (hash_range X kvs (Suc lvl) mid fin)"
      using True lvl(1) by (subst hash_range.simps) (simp add: Let_def DEPTH_def hash_range_empty flip: mid_def)
    then show ?thesis
      unfolding IH smt_leaf_map_split [OF lvl(1)] lvl(3) part fil .
  qed
qed

lemma hash_range_root:
  "keys_ok kvs \<Longrightarrow> hash_range X kvs 0 0 (length kvs) = smt X 256 (leaf_map 0 kvs)"
  using hash_range_smt [of 0 0 "length kvs" kvs X] by (simp add: sub_slice_def same_prefix_def)

section \<open>Proofs\<close>

text \<open>The siblings along a path of the specified tree, and the root recomputed from a leaf and a
  list of siblings.\<close>

fun siblings :: "ext \<Rightarrow> bool list \<Rightarrow> (bool list \<Rightarrow> bytes option) \<Rightarrow> bytes list" where
  "siblings X [] m = []"
| "siblings X (b # p) m = smt X (length p) (\<lambda>q. m ((\<not> b) # q)) # siblings X p (\<lambda>q. m (b # q))"

fun climb :: "ext \<Rightarrow> bool list \<Rightarrow> bytes list \<Rightarrow> bytes \<Rightarrow> bytes" where
  "climb X (b # p) (s # ss) leaf =
     (if b then hash_pair X s (climb X p ss leaf) else hash_pair X (climb X p ss leaf) s)"
| "climb X _ _ leaf = leaf"

definition leaf_at :: "(bool list \<Rightarrow> bytes option) \<Rightarrow> bool list \<Rightarrow> bytes" where
  "leaf_at m p = (case m p of None \<Rightarrow> EMPTY_HASH | Some leaf \<Rightarrow> leaf)"

lemma length_siblings [simp]: "length (siblings X p m) = length p"
  by (induction p arbitrary: m) simp_all

lemma climb_siblings: "climb X p (siblings X p m) (leaf_at m p) = smt X (length p) m"
proof (induction p arbitrary: m)
  case Nil
  then show ?case by (simp add: leaf_at_def)
next
  case (Cons b p)
  have "leaf_at m (b # p) = leaf_at (\<lambda>q. m (b # q)) p" by (simp add: leaf_at_def)
  with Cons [of "\<lambda>q. m (b # q)"] show ?case by (cases b) simp_all
qed

text \<open>Replacing the leaf and climbing the old siblings gives the root of the updated tree.\<close>

lemma siblings_update: "siblings X p (m(p := v)) = siblings X p m"
proof (induction p arbitrary: m)
  case (Cons b p)
  have on: "(\<lambda>q. (m(b # p := v)) (b # q)) = (\<lambda>q. m (b # q))(p := v)"
    and off: "(\<lambda>q. (m(b # p := v)) ((\<not> b) # q)) = (\<lambda>q. m ((\<not> b) # q))" by auto
  show ?case unfolding siblings.simps on off Cons.IH by (rule refl)
qed simp

lemma climb_update: "climb X p (siblings X p m) (leaf_at (m(p := v)) p) = smt X (length p) (m(p := v))"
  using climb_siblings [of X p "m(p := v)"] by (simp add: siblings_update)

lemma fold_proof_climb:
  "n \<le> 256 \<Longrightarrow> n \<le> length proof \<Longrightarrow>
   fold_proof X key proof n acc = climb X (take n (key_bits key)) (take n proof) acc"
proof (induction n arbitrary: acc)
  case (Suc n)
  have app: "length p = length ss \<Longrightarrow> climb X (p @ [b]) (ss @ [s]) acc
      = climb X p ss (if b then hash_pair X s acc else hash_pair X acc s)" for p ss b s acc
    by (induction p ss rule: list_induct2) auto
  have "take (Suc n) (key_bits key) = take n (key_bits key) @ [bit_at key n = 1]"
    "take (Suc n) proof = take n proof @ [proof ! n]"
    using Suc.prems by (simp_all add: take_Suc_conv_app_nth key_bits_nth)
  with Suc show ?case by (auto simp: app bit_at_eq_0)
qed simp

lemma fold_proof_root:
  "length proof = 256 \<Longrightarrow> fold_proof X key proof DEPTH leaf = climb X (key_bits key) proof leaf"
  using fold_proof_climb [of 256 "proof" X key leaf] by (simp add: DEPTH_def)

lemma collect_siblings_spec:
  "lvl \<le> 256 \<Longrightarrow> start \<le> fin \<Longrightarrow> fin \<le> length kvs \<Longrightarrow> keys_ok (sub_slice kvs start fin) \<Longrightarrow>
   same_prefix lvl (sub_slice kvs start fin) \<Longrightarrow>
   collect_siblings X kvs key lvl start fin
     = siblings X (drop lvl (key_bits key)) (leaf_map lvl (sub_slice kvs start fin))"
proof (induction "256 - lvl" arbitrary: lvl start fin)
  case 0
  then show ?case by (subst collect_siblings.simps) (simp add: DEPTH_def)
next
  case (Suc n)
  then have lvl: "lvl < 256" "n = 256 - Suc lvl" "Suc lvl \<le> 256" by simp_all
  let ?s = "sub_slice kvs start fin"
  define mid where "mid = start + partition_point (\<lambda>(k, _). bit_at k lvl = 0) ?s"
  define b where "b \<longleftrightarrow> bit_at key lvl = 1"
  note part = slice_part [OF Suc.prems(3,2) mid_def]
  note fil = takeWhile_filter [OF Suc.prems(4,5) lvl(1)]
  have sub: "leaf_map lvl ?s (False # q) = leaf_map (Suc lvl) (sub_slice kvs start mid) q"
    "leaf_map lvl ?s (True # q) = leaf_map (Suc lvl) (sub_slice kvs mid fin) q" for q
    using part fil by (simp_all add: leaf_map_split [OF lvl(1)])
  have ok: "keys_ok (sub_slice kvs start mid)" "keys_ok (sub_slice kvs mid fin)"
    "same_prefix (Suc lvl) (sub_slice kvs start mid)" "same_prefix (Suc lvl) (sub_slice kvs mid fin)"
    using Suc.prems(4,5) part fil by (simp_all add: keys_ok_filter same_prefix_filter)
  have ends: "start \<le> mid" "mid \<le> fin" "mid \<le> length kvs" "fin \<le> length kvs" using part(3,4) Suc.prems(3) by simp_all
  have hr: "hash_range X kvs (Suc lvl) start mid = smt X (256 - Suc lvl) (leaf_map (Suc lvl) (sub_slice kvs start mid))"
    "hash_range X kvs (Suc lvl) mid fin = smt X (256 - Suc lvl) (leaf_map (Suc lvl) (sub_slice kvs mid fin))"
    using hash_range_smt [OF lvl(3)] ends ok by blast+
  have IH: "collect_siblings X kvs key (Suc lvl) start mid
      = siblings X (drop (Suc lvl) (key_bits key)) (leaf_map (Suc lvl) (sub_slice kvs start mid))"
    "collect_siblings X kvs key (Suc lvl) mid fin
      = siblings X (drop (Suc lvl) (key_bits key)) (leaf_map (Suc lvl) (sub_slice kvs mid fin))"
    using Suc.hyps(1) [OF lvl(2,3)] ends ok by blast+
  have "collect_siblings X kvs key lvl start fin =
    (if bit_at key lvl = 0
     then hash_range X kvs (Suc lvl) mid fin # collect_siblings X kvs key (Suc lvl) start mid
     else hash_range X kvs (Suc lvl) start mid # collect_siblings X kvs key (Suc lvl) mid fin)"
    using lvl(1) by (subst collect_siblings.simps) (simp add: Let_def DEPTH_def hash_range_empty flip: mid_def)
  then show ?case
    unfolding key_bits_drop [OF lvl(1)] hr IH by (simp add: sub bit_at_eq_0)
qed

lemma collect_siblings_root:
  "keys_ok kvs \<Longrightarrow> collect_siblings X kvs key 0 0 (length kvs) = siblings X (key_bits key) (leaf_map 0 kvs)"
  using collect_siblings_spec [of 0 0 "length kvs" kvs X key] by (simp add: sub_slice_def same_prefix_def)

subsection \<open>Binding\<close>

fun climb_inputs :: "ext \<Rightarrow> bool list \<Rightarrow> bytes list \<Rightarrow> bytes \<Rightarrow> bytes list" where
  "climb_inputs X (b # p) (s # ss) leaf =
     (if b then s @ climb X p ss leaf else climb X p ss leaf @ s) # climb_inputs X p ss leaf"
| "climb_inputs X _ _ leaf = []"

abbreviation all32 :: "bytes list \<Rightarrow> bool" where
  "all32 ss \<equiv> list_all (\<lambda>s. length s = 32) ss"

lemma length_hash_pair [simp]: "hash32 X \<Longrightarrow> length (hash_pair X a b) = 32"
  by (simp add: hash_pair_def)

lemma length_climb: "hash32 X \<Longrightarrow> length leaf = 32 \<Longrightarrow> length (climb X p ss leaf) = 32"
  by (cases p; cases ss) auto

lemma climb_inj:
  assumes "hash32 X" and "length leaf = 32" and "length leaf' = 32"
  shows "length ss = length p \<Longrightarrow> length ss' = length p \<Longrightarrow> all32 ss \<Longrightarrow> all32 ss' \<Longrightarrow>
    collision_free X (climb_inputs X p ss leaf @ climb_inputs X p ss' leaf') \<Longrightarrow>
    climb X p ss leaf = climb X p ss' leaf' \<Longrightarrow> leaf = leaf' \<and> ss = ss'"
proof (induction p arbitrary: ss ss')
  case (Cons b p)
  obtain s ts s' ts' where ss: "ss = s # ts" "ss' = s' # ts'"
    using Cons.prems(1,2) by (metis length_Suc_conv list.size(4) Suc_eq_plus1)
  have s32: "length s = 32" "length s' = 32" and rest: "all32 ts" "all32 ts'" "length ts = length p" "length ts' = length p"
    using Cons.prems ss by simp_all
  let ?c = "climb X p ts leaf" and ?c' = "climb X p ts' leaf'"
  have "(if b then s @ ?c else ?c @ s) = (if b then s' @ ?c' else ?c' @ s')"
    by (rule collision_freeD [OF Cons.prems(5)]) (use Cons.prems(6) ss in \<open>auto simp: hash_pair_def split: if_splits\<close>)
  then have "s = s' \<and> ?c = ?c'"
    using s32 length_climb [OF assms(1,2), of p ts] length_climb [OF assms(1,3), of p ts'] by (cases b) auto
  moreover have "collision_free X (climb_inputs X p ts leaf @ climb_inputs X p ts' leaf')"
    using Cons.prems(5) by (rule collision_free_subset) (auto simp: ss)
  ultimately show ?case using Cons.IH [of ts ts'] rest ss by simp
qed simp

lemma length_EMPTY_HASH [simp]: "length EMPTY_HASH = 32"
  by (simp add: EMPTY_HASH_def)

lemma length_smt: "hash32 X \<Longrightarrow> (\<And>p v. m p = Some v \<Longrightarrow> length v = 32) \<Longrightarrow> length (smt X n m) = 32"
  by (cases n) (auto split: option.split)

lemma all32_siblings:
  "hash32 X \<Longrightarrow> (\<And>p v. m p = Some v \<Longrightarrow> length v = 32) \<Longrightarrow> all32 (siblings X p m)"
  by (induction p arbitrary: m) (auto intro: length_smt)

section \<open>The account tree\<close>

subsection \<open>The leaves as a function of the path\<close>

lemma keys_ok_sorted_list:
  assumes "\<And>k. k \<in> fmdom' m \<Longrightarrow> length k = 32"
  shows "keys_ok (sorted_list_of_fmap m)"
  using assms
  by (auto simp: keys_ok_def sorted_list_of_fmap_def comp_def strict_sorted_iff fmdom'_alt_def
      sorted_list_of_fset.rep_eq)

lemma leaf_map_key:
  assumes "length k = 32" and "\<And>x. x \<in> set kvs \<Longrightarrow> length (fst x) = 32"
  shows "leaf_map 0 kvs (key_bits k) = map_of kvs k"
  using assms(2)
proof (induction kvs)
  case (Cons x kvs)
  then have "length (fst x) = 32" by simp
  then have "key_bits k = key_bits (fst x) \<longleftrightarrow> k = fst x" using assms(1) key_bits_inj by blast
  with Cons show ?case by (cases x) (auto simp: leaf_map_def)
qed (simp add: leaf_map_def)

lemma leaf_map_range: "leaf_map lvl kvs p = Some v \<Longrightarrow> v \<in> snd ` set kvs"
  by (auto simp: leaf_map_def dest!: map_of_SomeD) force

definition leaves_ok :: "smt_leaves \<Rightarrow> bool" where
  "leaves_ok leaves \<longleftrightarrow> (\<forall>k l. fmlookup leaves k = Some l \<longrightarrow> length k = 32 \<and> length l = 32)"

definition trie_path :: "smt_leaves \<Rightarrow> bool list \<Rightarrow> bytes option" where
  "trie_path leaves = leaf_map 0 (sorted_list_of_fmap leaves)"

lemma leaves_ok_keys: "leaves_ok leaves \<Longrightarrow> keys_ok (sorted_list_of_fmap leaves)"
  by (intro keys_ok_sorted_list) (auto simp: leaves_ok_def fmlookup_dom'_iff)

lemma trie_root_smt: "leaves_ok leaves \<Longrightarrow> trie_root X leaves = smt X 256 (trie_path leaves)"
  by (simp add: trie_root_def trie_path_def hash_range_root leaves_ok_keys)

lemma trie_path_key:
  assumes "leaves_ok leaves" and "length k = 32"
  shows "trie_path leaves (key_bits k) = fmlookup leaves k"
proof -
  have "length (fst x) = 32" if "x \<in> set (sorted_list_of_fmap leaves)" for x
    using leaves_ok_keys [OF assms(1)] that by (simp add: keys_ok_def)
  then show ?thesis using leaf_map_key [OF assms(2)] by (simp add: trie_path_def)
qed

lemma trie_path_32: "leaves_ok leaves \<Longrightarrow> trie_path leaves p = Some v \<Longrightarrow> length v = 32"
  using leaf_map_range [of 0 "sorted_list_of_fmap leaves" p v]
  by (auto simp: trie_path_def leaves_ok_def sorted_list_of_fmap_def fmlookup_dom_iff)

lemma length_account_key [simp]: "hash32 X \<Longrightarrow> length (account_key_hash X addr) = 32"
  by (simp add: account_key_hash_def hash_bytes_def)

lemma leaves_ok_empty: "leaves_ok fmempty"
  by (simp add: leaves_ok_def)

lemma leaves_ok_insert: "hash32 X \<Longrightarrow> leaves_ok leaves \<Longrightarrow> leaves_ok (trie_insert X addr a leaves)"
  by (auto simp: leaves_ok_def trie_insert_def Let_def account_leaf_hash_def)

subsection \<open>Completeness and soundness of proofs\<close>

lemma verify_proof_climb:
  "length proof = 256 \<Longrightarrow> verify_proof X root addr a proof \<longleftrightarrow>
   climb X (key_bits (account_key_hash X addr)) proof (leaf_hash_for X (account_key_hash X addr) a) = root"
  by (simp add: verify_proof_def fold_proof_root Let_def) (simp add: DEPTH_def)

lemma prove_complete:
  assumes "hash32 X" and "leaves_ok leaves" and "prove X leaves addr a = Inr proof"
  shows "verify_proof X (trie_root X leaves) addr a proof"
proof -
  define key where "key = account_key_hash X addr"
  have key: "length key = 32" using assms(1) by (simp add: key_def)
  have pf: "proof = siblings X (key_bits key) (trie_path leaves)"
    and leaf: "leaf_hash_for X key a = leaf_at (trie_path leaves) (key_bits key)"
    using assms(3) collect_siblings_root [OF leaves_ok_keys [OF assms(2)], of X key]
    by (auto simp: prove_def Let_def leaf_hash_for_def leaf_at_def trie_path_key [OF assms(2) key]
        simp flip: key_def trie_path_def split: if_splits option.splits)
  show ?thesis
    using climb_siblings [of X "key_bits key" "trie_path leaves"] verify_proof_climb [of "proof" X _ addr a]
    by (simp add: pf leaf trie_root_smt [OF assms(2)] flip: key_def)
qed

lemma verify_sound_path:
  assumes "hash32 X" and m32: "\<And>p v. m p = Some v \<Longrightarrow> length v = 32"
    and "all32 proof" and "verify_proof X (smt X 256 m) addr a proof"
    and cf: "collision_free X
      (climb_inputs X (key_bits (account_key_hash X addr)) proof (leaf_hash_for X (account_key_hash X addr) a)
       @ climb_inputs X (key_bits (account_key_hash X addr)) (siblings X (key_bits (account_key_hash X addr)) m)
           (leaf_at m (key_bits (account_key_hash X addr))))"
  shows "leaf_hash_for X (account_key_hash X addr) a = leaf_at m (key_bits (account_key_hash X addr))"
    and "proof = siblings X (key_bits (account_key_hash X addr)) m"
proof -
  let ?p = "key_bits (account_key_hash X addr)" and ?l = "leaf_hash_for X (account_key_hash X addr) a"
  have len: "length proof = 256" using assms(4) by (auto simp: verify_proof_def DEPTH_def split: if_splits)
  have "climb X ?p proof ?l = climb X ?p (siblings X ?p m) (leaf_at m ?p)"
    using assms(4) len climb_siblings [of X ?p m] by (simp add: verify_proof_climb)
  moreover have "length ?l = 32" "length (leaf_at m ?p) = 32"
    using assms(1) m32 by (auto simp: leaf_hash_for_def account_leaf_hash_def leaf_at_def split: option.split)
  ultimately have "?l = leaf_at m ?p \<and> proof = siblings X ?p m"
    using climb_inj [OF assms(1), of ?l "leaf_at m ?p" "proof" ?p "siblings X ?p m"] len assms(3) cf
      all32_siblings [OF assms(1) m32] by simp
  then show "?l = leaf_at m ?p" "proof = siblings X ?p m" by simp_all
qed

subsection \<open>The root of a state\<close>

text \<open>The leaves of a map of accounts, in the order of the addresses.\<close>

definition state_leaves :: "ext \<Rightarrow> (string, account) fmap \<Rightarrow> (bytes \<times> bytes) list" where
  "state_leaves X accounts =
     map (\<lambda>(addr, a). (account_key_hash X addr, account_leaf_hash X (account_key_hash X addr) a))
       (filter (\<lambda>(_, a). \<not> acc_is_empty a) (sorted_list_of_fmap accounts))"

definition addresses :: "(string, account) fmap \<Rightarrow> string list" where
  "addresses accounts = map fst (sorted_list_of_fmap accounts)"

lemma distinct_addresses: "distinct (addresses accounts)"
  by (simp add: addresses_def sorted_list_of_fmap_def comp_def sorted_list_of_fset.rep_eq)

lemma set_addresses: "set (addresses accounts) = fmdom' accounts"
  by (simp add: addresses_def sorted_list_of_fmap_def comp_def fmdom'_alt_def)

lemma key_hash_inj:
  assumes "collision_free X (map as_bytes addrs)" and "x \<in> set addrs" and "y \<in> set addrs"
    and "account_key_hash X x = account_key_hash X y"
  shows "x = y"
  using collision_freeD [OF assms(1), of "as_bytes x" "as_bytes y"] assms(2-)
  by (simp add: account_key_hash_def hash_bytes_def)

lemma state_leaves_keys:
  "map fst (state_leaves X accounts)
   = map (account_key_hash X) (map fst (filter (\<lambda>(_, a). \<not> acc_is_empty a) (sorted_list_of_fmap accounts)))"
  by (simp add: state_leaves_def comp_def case_prod_beta)

lemma distinct_state_leaves:
  assumes "collision_free X (map as_bytes (addresses accounts))"
  shows "distinct (map fst (state_leaves X accounts))"
proof -
  let ?as = "map fst (filter (\<lambda>(_, a). \<not> acc_is_empty a) (sorted_list_of_fmap accounts))"
  have sub: "set ?as \<subseteq> set (addresses accounts)" by (auto simp: addresses_def)
  have "distinct ?as" using distinct_addresses [of accounts] by (simp add: addresses_def distinct_map_filter)
  moreover have "inj_on (account_key_hash X) (set ?as)"
    using key_hash_inj [OF assms] sub by (meson inj_onI subsetD)
  ultimately have "distinct (map (account_key_hash X) ?as)" by (simp only: distinct_map simp_thms)
  then show ?thesis by (simp only: state_leaves_keys)
qed

lemma leaf_map_sort:
  assumes "distinct (map fst kvs)" and "\<And>x. x \<in> set kvs \<Longrightarrow> length (fst x) = 32"
  shows "leaf_map 0 (sort_key fst kvs) = leaf_map 0 kvs" and "keys_ok (sort_key fst kvs)"
proof -
  let ?f = "\<lambda>(k, v). (drop 0 (key_bits k), v)"
  have "distinct (map fst (map ?f kvs))"
  proof -
    have "inj_on key_bits (fst ` set kvs)" using assms(2) key_bits_inj by (auto intro!: inj_onI)
    then show ?thesis using assms(1) by (simp add: comp_def case_prod_beta distinct_map inj_on_def)
  qed
  then show "leaf_map 0 (sort_key fst kvs) = leaf_map 0 kvs"
    unfolding leaf_map_def by (intro map_of_inject_set [THEN iffD2])
      (auto simp: comp_def case_prod_beta distinct_map)
  show "keys_ok (sort_key fst kvs)"
    using assms by (auto simp: keys_ok_def strict_sorted_iff distinct_map)
qed

lemma state_leaves_32: "hash32 X \<Longrightarrow> x \<in> set (state_leaves X accounts) \<Longrightarrow> length (fst x) = 32 \<and> length (snd x) = 32"
  by (auto simp: state_leaves_def account_leaf_hash_def)

lemma compute_root_smt:
  assumes "hash32 X" and "collision_free X (map as_bytes (addresses accounts))"
  shows "compute_root X accounts = smt X 256 (leaf_map 0 (state_leaves X accounts))"
proof (cases "accounts = fmempty")
  case True
  then have "state_leaves X accounts = []" by (simp add: state_leaves_def sorted_list_of_fmap_def sorted_list_of_fset.rep_eq)
  with True show ?thesis
    by (simp add: compute_root_def empty_root_def empty_subtree_def DEPTH_def smt_empty)
next
  case False
  have "length (fst x) = 32" if "x \<in> set (state_leaves X accounts)" for x
    using state_leaves_32 [OF assms(1) that] by simp
  note sort = leaf_map_sort [OF distinct_state_leaves [OF assms(2)] this]
  show ?thesis
    using False hash_range_root [OF sort(2), of X]
    by (simp only: compute_root_def Let_def if_False sort(1) state_leaves_def [symmetric])
qed

definition account_path :: "ext \<Rightarrow> (string, account) fmap \<Rightarrow> string \<Rightarrow> bytes option" where
  "account_path X accounts addr =
     (case fmlookup accounts addr of
        None \<Rightarrow> None
      | Some a \<Rightarrow> if acc_is_empty a then None else Some (account_leaf_hash X (account_key_hash X addr) a))"

lemma state_leaves_lookup:
  assumes "hash32 X" and cf: "collision_free X (map as_bytes (addr # addresses accounts))"
  shows "leaf_map 0 (state_leaves X accounts) (key_bits (account_key_hash X addr)) = account_path X accounts addr"
proof -
  let ?key = "account_key_hash X addr"
  have sub: "collision_free X (map as_bytes (addresses accounts))"
    using cf by (rule collision_free_subset) auto
  have "leaf_map 0 (state_leaves X accounts) (key_bits ?key) = map_of (state_leaves X accounts) ?key"
    using leaf_map_key [of ?key "state_leaves X accounts"] assms(1) state_leaves_32 [OF assms(1)] by simp
  also have "\<dots> = account_path X accounts addr"
  proof (cases "account_path X accounts addr")
    case None
    have "?key \<notin> fst ` set (state_leaves X accounts)"
    proof
      assume "?key \<in> fst ` set (state_leaves X accounts)"
      then obtain addr' a where a: "(addr', a) \<in> set (sorted_list_of_fmap accounts)" "\<not> acc_is_empty a"
        "account_key_hash X addr' = ?key" by (auto simp: state_leaves_def)
      then have "addr' \<in> set (addresses accounts)" by (force simp: addresses_def)
      then have "addr' = addr" using key_hash_inj [OF cf, of addr' addr] a(3) by simp
      moreover have "fmlookup accounts addr' = Some a"
        using a(1) by (auto simp: sorted_list_of_fmap_def fmlookup_dom_iff)
      ultimately show False using None a(2) by (simp add: account_path_def)
    qed
    then show ?thesis using None by (simp add: map_of_eq_None_iff)
  next
    case (Some leaf)
    then obtain a where a: "fmlookup accounts addr = Some a" "\<not> acc_is_empty a" "leaf = account_leaf_hash X ?key a"
      by (auto simp: account_path_def split: option.splits if_splits)
    then have "(addr, a) \<in> set (sorted_list_of_fmap accounts)"
      by (metis map_of_SomeD map_of_sorted_list)
    then have "(?key, leaf) \<in> set (state_leaves X accounts)" using a by (auto simp: state_leaves_def image_iff)
    then show ?thesis using Some distinct_state_leaves [OF sub] by (simp add: map_of_is_SomeI)
  qed
  finally show ?thesis .
qed

text \<open>Accounts with 32-byte commitments have injective leaf preimages.\<close>

fun acc_ok :: "account \<Rightarrow> bool" where
  "acc_ok (Eoa _) = True"
| "acc_ok (Contract a) \<longleftrightarrow> length (code_hash a) = 32 \<and> length (storage_root a) = 32"

lemma account_leaf_input_inj:
  assumes "acc_ok a" and "acc_ok b" and "account_leaf_input key a = account_leaf_input key b"
  shows "a = b"
proof -
  have len: "length (account_leaf_input key x) = length key + (if is_contract x then 81 else 16)" if "acc_ok x" for x
    using that by (cases x) simp_all
  have "is_contract a = is_contract b"
    using len [OF assms(1)] len [OF assms(2)] assms(3) by (simp split: if_splits)
  then consider x y where "a = Eoa x" "b = Eoa y" | x y where "a = Contract x" "b = Contract y"
    by (cases a; cases b) auto
  then show ?thesis
    using assms by cases (auto intro: eoa_account.equality contract_account.equality)
qed

lemma leaf_hash_for_path:
  "leaf_hash_for X (account_key_hash X addr) a
   = (if acc_is_empty a then EMPTY_HASH else blake3 X (account_leaf_input (account_key_hash X addr) a))"
  by (simp add: leaf_hash_for_def account_leaf_hash_def)

text \<open>The byte strings whose hashes a verification against the root of a state compares.\<close>

definition state_proof_inputs ::
  "ext \<Rightarrow> (string, account) fmap \<Rightarrow> string \<Rightarrow> account \<Rightarrow> bytes list \<Rightarrow> bytes list" where
  "state_proof_inputs X accounts addr a proof =
     (let key = account_key_hash X addr; p = key_bits key; m = leaf_map 0 (state_leaves X accounts)
      in [] # account_leaf_input key a
         # (case fmlookup accounts addr of Some b \<Rightarrow> [account_leaf_input key b] | None \<Rightarrow> [])
         @ map as_bytes (addr # addresses accounts)
         @ climb_inputs X p proof (leaf_hash_for X key a) @ climb_inputs X p (siblings X p m) (leaf_at m p))"

lemma verify_proof_state_sound:
  assumes "hash32 X" and "blake3 X [] = EMPTY_HASH" and "all32 proof" and "acc_ok a"
    and "\<And>b. fmlookup accounts addr = Some b \<Longrightarrow> acc_ok b"
    and cf: "collision_free X (state_proof_inputs X accounts addr a proof)"
    and "verify_proof X (compute_root X accounts) addr a proof"
  shows "case fmlookup accounts addr of Some b \<Rightarrow> a = b \<or> acc_is_empty a \<and> acc_is_empty b | None \<Rightarrow> acc_is_empty a"
proof -
  let ?key = "account_key_hash X addr" and ?m = "leaf_map 0 (state_leaves X accounts)"
  have cf1: "collision_free X (map as_bytes (addr # addresses accounts))"
    and cf2: "collision_free X (map as_bytes (addresses accounts))"
    and cf3: "collision_free X (climb_inputs X (key_bits ?key) proof (leaf_hash_for X ?key a)
      @ climb_inputs X (key_bits ?key) (siblings X (key_bits ?key) ?m) (leaf_at ?m (key_bits ?key)))"
    using cf by (rule collision_free_subset, auto simp: state_proof_inputs_def Let_def)+
  have m32: "length v = 32" if "?m p = Some v" for p v
    using leaf_map_range [OF that] state_leaves_32 [OF assms(1)] by auto
  have leaf: "leaf_hash_for X ?key a = leaf_at ?m (key_bits ?key)"
    using verify_sound_path(1) [OF assms(1) m32 assms(3) _ cf3] assms(7) compute_root_smt [OF assms(1) cf2] by simp
  have path: "leaf_at ?m (key_bits ?key)
    = (case fmlookup accounts addr of None \<Rightarrow> EMPTY_HASH | Some b \<Rightarrow> leaf_hash_for X ?key b)"
    using state_leaves_lookup [OF assms(1) cf1]
    by (auto simp: leaf_at_def account_path_def leaf_hash_for_def split: option.splits)
  have ne: "blake3 X (account_leaf_input ?key x) \<noteq> EMPTY_HASH"
    if "account_leaf_input ?key x \<in> set (state_proof_inputs X accounts addr a proof)" for x
  proof
    assume "blake3 X (account_leaf_input ?key x) = EMPTY_HASH"
    then have "account_leaf_input ?key x = []"
      using collision_freeD [OF cf, of "account_leaf_input ?key x" "[]"] that assms(2)
      by (simp add: state_proof_inputs_def Let_def)
    from arg_cong [OF this, of length] show False using assms(1) by (cases x) simp_all
  qed
  have ina: "account_leaf_input ?key a \<in> set (state_proof_inputs X accounts addr a proof)"
    and inb: "fmlookup accounts addr = Some b \<Longrightarrow> account_leaf_input ?key b \<in> set (state_proof_inputs X accounts addr a proof)" for b
    by (auto simp: state_proof_inputs_def Let_def)
  show ?thesis
  proof (cases "fmlookup accounts addr")
    case None
    then show ?thesis using leaf path ne [OF ina] by (auto simp: leaf_hash_for_path split: if_splits)
  next
    case (Some b)
    then have eq: "leaf_hash_for X ?key a = leaf_hash_for X ?key b" using leaf path by simp
    show ?thesis
    proof (cases "acc_is_empty a \<or> acc_is_empty b")
      case True
      then show ?thesis using eq Some ne [OF ina] ne [OF inb [OF Some]] by (auto simp: leaf_hash_for_path split: if_splits)
    next
      case False
      then have "account_leaf_input ?key a = account_leaf_input ?key b"
        using eq collision_freeD [OF cf _ ina inb [OF Some]] by (simp add: leaf_hash_for_path)
      then show ?thesis using account_leaf_input_inj assms(4,5) Some by simp
    qed
  qed
qed

section \<open>The receipts tree\<close>

lemma receipt_leaves_snoc:
  "receipt_leaves X (rs @ [r]) = (if rc_txid r \<in> set (map fst (receipt_leaves X rs)) then receipt_leaves X rs
     else receipt_leaves X rs @ [(rc_txid r, receipt_leaf_hash X r)])"
  by (simp add: receipt_leaves_def)

lemma receipt_leaves_props:
  "distinct (map fst (receipt_leaves X rs)) \<and> fst ` set (receipt_leaves X rs) = rc_txid ` set rs
   \<and> (\<forall>t. map_of (receipt_leaves X rs) t = map_option (receipt_leaf_hash X) (find (\<lambda>r. rc_txid r = t) rs))"
proof (induction rs rule: rev_induct)
  case Nil
  then show ?case by (simp add: receipt_leaves_def)
next
  case (snoc r rs)
  have find: "find (\<lambda>r. rc_txid r = t) (rs @ [r]) = (case find (\<lambda>r. rc_txid r = t) rs of
      Some x \<Rightarrow> Some x | None \<Rightarrow> if rc_txid r = t then Some r else None)" for t
    by (induction rs) auto
  have none: "find (\<lambda>r. rc_txid r = t) rs = None \<longleftrightarrow> t \<notin> rc_txid ` set rs" for t
    by (auto simp: find_None_iff)
  have some: "find (\<lambda>r. rc_txid r = t) rs = Some x \<Longrightarrow> t \<in> rc_txid ` set rs" for t x
    by (auto simp: find_Some_iff)
  show ?case
    using snoc by (auto simp: receipt_leaves_snoc find map_add_def none split: option.split dest: some)
qed

lemma prove_receipt_complete:
  assumes "\<And>r. r \<in> set rs \<Longrightarrow> length (rc_txid r) = 32"
    and "prove_receipt X rs tid = Inr proof" and "find (\<lambda>r. rc_txid r = tid) rs = Some r"
  shows "verify_receipt_proof X (receipts_subroot X rs) r proof"
proof -
  let ?kvs = "receipt_leaves X rs"
  note props = receipt_leaves_props [of X rs]
  have len: "length (fst x) = 32" if "x \<in> set ?kvs" for x
    using that props assms(1) by (metis (no_types, lifting) image_eqI image_iff)
  note sort = leaf_map_sort [OF conjunct1 [OF props] len]
  have rs: "rs \<noteq> []" and tid: "rc_txid r = tid" "r \<in> set rs" using assms(3) by (auto simp: find_Some_iff)
  let ?p = "key_bits tid" and ?m = "leaf_map 0 ?kvs"
  have "proof = siblings X ?p ?m"
    using assms(2,3) tid collect_siblings_root [OF sort(2), of X tid] by (simp add: prove_receipt_def Let_def sort(1))
  moreover have "?m ?p = Some (receipt_leaf_hash X r)"
    using leaf_map_key [of tid ?kvs] len tid assms(1,3) props by auto
  moreover have "receipts_subroot X rs = smt X 256 ?m"
    using rs hash_range_root [OF sort(2), of X] by (simp add: receipts_subroot_def Let_def sort(1))
  ultimately show ?thesis
    using climb_siblings [of X ?p ?m] tid fold_proof_root [of "proof" X tid "receipt_leaf_hash X r"]
    by (simp add: verify_receipt_proof_def leaf_at_def) (simp add: DEPTH_def)
qed

end
