(* ===== verification/Sc_Emission.thy ===== *)
theory Sc_Emission
  imports Sc_Types
begin

text \<open>
  The block reward of \<open>crates/strangecoin-core/src/economics/emission.rs\<close>, with the chain ids and the
  other constants of \<open>consensus.rs\<close>.
\<close>

section \<open>Constants\<close>

definition CHAIN_ID_MAINNET :: u32 where "CHAIN_ID_MAINNET = 1"
definition CHAIN_ID_TESTNET :: u32 where "CHAIN_ID_TESTNET = 2"
definition CHAIN_ID_REGTEST :: u32 where "CHAIN_ID_REGTEST = 3"

definition TAIL_RATE_NUMERATOR :: u64 where "TAIL_RATE_NUMERATOR = 6"
definition TAIL_RATE_DENOMINATOR :: u64 where "TAIL_RATE_DENOMINATOR = 1000"
definition BLOCKS_PER_YEAR :: u64 where "BLOCKS_PER_YEAR = 365 * 24 * 6"
definition HALVING_INTERVAL :: u64 where "HALVING_INTERVAL = 210000"
definition MAX_SUPPLY_PRE_TAIL :: u64 where "MAX_SUPPLY_PRE_TAIL = 21000000 * 100000000"
definition INITIAL_REWARD :: u64 where "INITIAL_REWARD = 50 * 100000000"
definition REGTEST_REWARD :: u64 where "REGTEST_REWARD = 0"

lemmas emission_consts = CHAIN_ID_MAINNET_def CHAIN_ID_TESTNET_def CHAIN_ID_REGTEST_def
  TAIL_RATE_NUMERATOR_def TAIL_RATE_DENOMINATOR_def BLOCKS_PER_YEAR_def HALVING_INTERVAL_def
  MAX_SUPPLY_PRE_TAIL_def INITIAL_REWARD_def REGTEST_REWARD_def

section \<open>The reward\<close>

definition halving_schedule :: "u64 \<Rightarrow> u64" where
  "halving_schedule height =
     (let halvings = height div HALVING_INTERVAL
      in if halvings \<ge> 64 then 0 else drop_bit (unat halvings) INITIAL_REWARD)"

definition calculate_tail_reward :: "u64 \<Rightarrow> u64" where
  "calculate_tail_reward total_supply =
     (total_supply * TAIL_RATE_NUMERATOR) div (TAIL_RATE_DENOMINATOR * BLOCKS_PER_YEAR)"

definition block_reward_at_height_for_chain :: "u64 \<Rightarrow> u64 \<Rightarrow> u32 \<Rightarrow> u64" where
  "block_reward_at_height_for_chain height total_supply chain_id =
     (if chain_id = CHAIN_ID_REGTEST then REGTEST_REWARD
      else max (halving_schedule height) (calculate_tail_reward total_supply))"

section \<open>Values\<close>

lemma unat_div: "unat (a div b) = unat a div unat b" for a b :: "'a::len word"
  by (rule unat_div_distrib)

lemma unat_halving_schedule:
  "unat (halving_schedule h) = 5000000000 div 2 ^ (unat h div 210000)"
proof -
  let ?k = "unat h div 210000"
  have k: "unat (h div HALVING_INTERVAL) = ?k" by (simp add: unat_div HALVING_INTERVAL_def)
  have "(64 :: u64) \<le> h div HALVING_INTERVAL \<longleftrightarrow> 64 \<le> ?k"
    by (simp add: word_le_nat_alt k)
  moreover have "5000000000 div 2 ^ j = (0::nat)" if "64 \<le> j" for j :: nat
  proof -
    have "(5000000000::nat) < 2 ^ 64" by simp
    also have "(2::nat) ^ 64 \<le> 2 ^ j" using that by (rule power_increasing) simp
    finally show ?thesis by simp
  qed
  moreover have "unat (drop_bit ?k INITIAL_REWARD) = 5000000000 div 2 ^ ?k"
  proof -
    have "unat (drop_bit ?k INITIAL_REWARD) = drop_bit ?k (unat INITIAL_REWARD)"
      using unat_bound [of INITIAL_REWARD] by (simp only: unsigned_drop_bit_eq take_bit_nat_eq_self)
    then show ?thesis by (simp add: drop_bit_eq_div INITIAL_REWARD_def)
  qed
  ultimately show ?thesis
    by (auto simp: halving_schedule_def Let_def k)
qed

lemma halving_schedule_antimono: "h \<le> h' \<Longrightarrow> halving_schedule h' \<le> halving_schedule h"
  by (simp add: word_le_nat_alt unat_halving_schedule div_le_mono div_le_mono2 power_increasing)

lemma unat_tail_reward:
  assumes "unat s * 6 < 2 ^ 64"
  shows "unat (calculate_tail_reward s) = unat s * 6 div 52560000"
proof -
  have "unat (s * 6) = unat s * 6" using assms unat_mult_lem [of s 6] by simp
  then show ?thesis
    by (simp add: calculate_tail_reward_def emission_consts unat_div)
qed

text \<open>The base rewards of a whole halving interval.\<close>

lemma halving_interval_sum:
  "(\<Sum>h<210000 * k. 5000000000 div 2 ^ (h div 210000)) = 210000 * (\<Sum>i<k. 5000000000 div 2 ^ i :: nat)"
proof (induction k)
  case (Suc k)
  have split: "{..<210000 * Suc k} = {..<210000 * k} \<union> {210000 * k..<210000 * k + 210000}" by auto
  have "(\<Sum>h\<in>{210000 * k..<210000 * k + 210000}. 5000000000 div 2 ^ (h div 210000) :: nat)
    = (\<Sum>h\<in>{210000 * k..<210000 * k + 210000}. 5000000000 div 2 ^ k)"
  proof (rule sum.cong [OF refl])
    fix h assume "h \<in> {210000 * k..<210000 * k + 210000}"
    then have "h div 210000 = k" by (intro div_nat_eqI) auto
    then show "5000000000 div 2 ^ (h div 210000) = (5000000000 div 2 ^ k :: nat)" by simp
  qed
  also have "\<dots> = 210000 * (5000000000 div 2 ^ k)" by simp
  finally show ?case
    unfolding split by (subst sum.union_disjoint) (auto simp: Suc)
qed simp

lemma geometric_bound: "(\<Sum>i<k. n div 2 ^ i :: nat) \<le> 2 * n"
proof -
  have "(\<Sum>i<k. n div 2 ^ i) + n div 2 ^ (k - 1) \<le> 2 * n" if "0 < k" for k
    using that
  proof (induction k)
    case (Suc k)
    show ?case
    proof (cases k)
      case (Suc j)
      have "n div 2 ^ Suc j = n div 2 ^ j div 2" by (simp only: power_Suc2 div_mult2_eq)
      then have "2 * (n div 2 ^ Suc j) \<le> n div 2 ^ j" by simp
      with Suc.IH Suc show ?thesis by simp
    qed simp
  qed simp
  from this [of k] show ?thesis by (cases "k = 0") simp_all
qed

lemma halving_schedule_total:
  assumes "n \<le> 2 ^ 64"
  shows "(\<Sum>h<n. unat (halving_schedule (of_nat h))) \<le> unat MAX_SUPPLY_PRE_TAIL"
proof -
  have "(\<Sum>h<n. unat (halving_schedule (of_nat h))) = (\<Sum>h<n. 5000000000 div 2 ^ (h div 210000))"
    using assms by (intro sum.cong [OF refl]) (simp add: unat_halving_schedule unat_of_nat)
  also have "\<dots> \<le> (\<Sum>h<210000 * Suc (n div 210000). 5000000000 div 2 ^ (h div 210000))"
  proof (rule sum_mono2)
    have "n < 210000 * Suc (n div 210000)" by (simp add: dividend_less_times_div)
    then show "{..<n} \<subseteq> {..<210000 * Suc (n div 210000)}" by auto
  qed simp_all
  also have "\<dots> = 210000 * (\<Sum>i<Suc (n div 210000). 5000000000 div 2 ^ i)"
    by (rule halving_interval_sum)
  also have "\<dots> \<le> 210000 * (2 * 5000000000)"
    by (intro mult_le_mono2 geometric_bound)
  also have "\<dots> = unat MAX_SUPPLY_PRE_TAIL" by (simp add: MAX_SUPPLY_PRE_TAIL_def)
  finally show ?thesis .
qed

end
