(* ===== verification/Sc_Address.thy ===== *)
theory Sc_Address
  imports Sc_Emission Sc_Codec
begin

text \<open>
  Addresses, \<open>crates/strangecoin-core/src/address.rs\<close>: bech32m strings of a network prefix and the
  bytes of a public key, or of the digest that a contract's address is derived from.
\<close>

section \<open>Definitions\<close>

definition hrp_for_network :: "u32 \<Rightarrow> core_error + string" where
  "hrp_for_network network_id =
     (if network_id = CHAIN_ID_MAINNET then Inr ''sc''
      else if network_id = CHAIN_ID_TESTNET then Inr ''tsc''
      else if network_id = CHAIN_ID_REGTEST then Inr ''rsc''
      else Inl (UnknownNetworkId network_id))"

definition encode_address :: "ext \<Rightarrow> pubkey \<Rightarrow> u32 \<Rightarrow> core_error + string" where
  "encode_address X pk network_id =
     bind_res (hrp_for_network network_id) (\<lambda>hrp.
       if \<not> hrp_parse X hrp then Inl (InvalidAddressFormat (''Invalid HRP: '' @ hrp))
       else case bech32m_encode X hrp pk of
              None \<Rightarrow> Inl Bech32EncodeError
            | Some encoded \<Rightarrow> Inr encoded)"

definition decode_address :: "ext \<Rightarrow> string \<Rightarrow> core_error + (pubkey \<times> u32)" where
  "decode_address X s =
     (case bech32_decode X s of
        None \<Rightarrow> Inl InvalidAddressChecksum
      | Some (hrp, data) \<Rightarrow>
          bind_res
            (if hrp = ''sc'' then Inr CHAIN_ID_MAINNET
             else if hrp = ''tsc'' then Inr CHAIN_ID_TESTNET
             else if hrp = ''rsc'' then Inr CHAIN_ID_REGTEST
             else Inl (UnknownAddressHrp hrp))
            (\<lambda>network_id.
               case pk_from_slice X data of
                 Inl e \<Rightarrow> Inl (InvalidAddressFormat (''Invalid public key: '' @ e))
               | Inr pk \<Rightarrow> Inr (pk, network_id)))"

definition contract_addr_input :: "string \<Rightarrow> u64 \<Rightarrow> bytes" where
  "contract_addr_input creator nonce = as_bytes ''sc-contract-addr'' @ as_bytes creator @ to_be_bytes64 nonce"

definition derive_contract_address :: "ext \<Rightarrow> string \<Rightarrow> u64 \<Rightarrow> u32 \<Rightarrow> core_error + string" where
  "derive_contract_address X creator nonce network_id =
     bind_res (hrp_for_network network_id) (\<lambda>hrp.
       if \<not> hrp_parse X hrp then Inl (InvalidAddressFormat (''Invalid HRP: '' @ hrp))
       else case bech32m_encode X hrp (blake3 X (contract_addr_input creator nonce)) of
              None \<Rightarrow> Inl Bech32EncodeError
            | Some encoded \<Rightarrow> Inr encoded)"

definition is_precompile_address :: "string \<Rightarrow> bool" where
  "is_precompile_address addr \<longleftrightarrow>
     addr \<in> {''0x01'', ''0x02'', ''0x03'', ''0x04'', ''0x05'', ''0x06'', ''0x07''}"

section \<open>Round trip and separation of the two kinds of addresses\<close>

text \<open>What the code relies on: decoding an encoded bech32m string gives the prefix and the payload
  back, a serialized key parses to itself, and only 33- and 65-byte slices parse as keys.\<close>

definition bech32_ok :: "ext \<Rightarrow> bool" where
  "bech32_ok X \<longleftrightarrow> (\<forall>hrp data s. bech32m_encode X hrp data = Some s \<longrightarrow> bech32_decode X s = Some (hrp, data))"

definition valid_pk :: "ext \<Rightarrow> pubkey \<Rightarrow> bool" where
  "valid_pk X pk \<longleftrightarrow> pk_from_slice X pk = Inr pk"

definition pk_slice_len :: "ext \<Rightarrow> bool" where
  "pk_slice_len X \<longleftrightarrow> (\<forall>b pk. pk_from_slice X b = Inr pk \<longrightarrow> length b = 33 \<or> length b = 65)"

lemma hrp_for_network_cases:
  "hrp_for_network n = Inr hrp \<Longrightarrow>
   n = CHAIN_ID_MAINNET \<and> hrp = ''sc'' \<or> n = CHAIN_ID_TESTNET \<and> hrp = ''tsc'' \<or> n = CHAIN_ID_REGTEST \<and> hrp = ''rsc''"
  by (auto simp: hrp_for_network_def split: if_splits)

lemma encode_address_Inr:
  "encode_address X pk n = Inr s \<Longrightarrow> \<exists>hrp. hrp_for_network n = Inr hrp \<and> bech32m_encode X hrp pk = Some s"
  by (auto simp: encode_address_def split: if_splits option.splits)

lemma derive_contract_address_Inr:
  "derive_contract_address X c nonce n = Inr s \<Longrightarrow>
   \<exists>hrp. hrp_for_network n = Inr hrp \<and> bech32m_encode X hrp (blake3 X (contract_addr_input c nonce)) = Some s"
  by (auto simp: derive_contract_address_def split: if_splits option.splits)

lemma decode_encode_address:
  assumes "bech32_ok X" and "valid_pk X pk" and "encode_address X pk n = Inr s"
  shows "decode_address X s = Inr (pk, n)"
  using encode_address_Inr [OF assms(3)] assms(1,2)
  by (auto simp: decode_address_def bech32_ok_def valid_pk_def dest!: hrp_for_network_cases)

lemma contract_address_not_eoa:
  assumes "bech32_ok X" and "pk_slice_len X" and "hash32 X" and "derive_contract_address X c nonce n = Inr s"
  shows "\<exists>e. decode_address X s = Inl e"
proof -
  obtain hrp where "bech32_decode X s = Some (hrp, blake3 X (contract_addr_input c nonce))"
    using derive_contract_address_Inr [OF assms(4)] assms(1) by (auto simp: bech32_ok_def)
  moreover obtain e where "pk_from_slice X (blake3 X (contract_addr_input c nonce)) = Inl e"
  proof (cases "pk_from_slice X (blake3 X (contract_addr_input c nonce))")
    case (Inr pk)
    then have "length (blake3 X (contract_addr_input c nonce)) = 33 \<or> length (blake3 X (contract_addr_input c nonce)) = 65"
      using assms(2) by (simp add: pk_slice_len_def)
    with assms(3) show ?thesis by simp
  qed
  ultimately show ?thesis by (simp add: decode_address_def)
qed

lemma contract_addr_input_inj:
  "contract_addr_input c n = contract_addr_input c' n' \<Longrightarrow> c = c' \<and> n = n'"
  by (auto simp: contract_addr_input_def)

text \<open>A creator's contract addresses are distinct for distinct nonces, and distinct from other
  creators' addresses, unless the digest collides.\<close>

lemma derive_contract_address_inj:
  assumes "bech32_ok X" and "collision_free X [contract_addr_input c nonce, contract_addr_input c' nonce']"
    and "derive_contract_address X c nonce n = Inr s" and "derive_contract_address X c' nonce' n' = Inr s"
  shows "c = c' \<and> nonce = nonce' \<and> n = n'"
proof -
  obtain hrp hrp' where h: "hrp_for_network n = Inr hrp" "hrp_for_network n' = Inr hrp'"
    and dec: "bech32_decode X s = Some (hrp, blake3 X (contract_addr_input c nonce))"
      "bech32_decode X s = Some (hrp', blake3 X (contract_addr_input c' nonce'))"
    using derive_contract_address_Inr [OF assms(3)] derive_contract_address_Inr [OF assms(4)]
      assms(1) [unfolded bech32_ok_def] by blast
  then have "hrp = hrp'" and eq: "blake3 X (contract_addr_input c nonce) = blake3 X (contract_addr_input c' nonce')"
    by simp_all
  then have "n = n'" using h by (auto dest!: hrp_for_network_cases)
  moreover have "contract_addr_input c nonce = contract_addr_input c' nonce'"
    using collision_freeD [OF assms(2) eq] by simp
  ultimately show ?thesis using contract_addr_input_inj by blast
qed

end
