(* ===== verification/Sc_State.thy ===== *)
theory Sc_State
  imports Sc_Smt Sc_Address
begin

text \<open>
  The account state and its transition, \<open>crates/strangecoin-core/src/state/inner.rs\<close>, with the
  storage overlay of \<open>contract_storage.rs\<close> and the root checks of \<open>state/mod.rs\<close>. A \<open>HashMap\<close> is a
  finite map; a handler returns the new state, with the first error of the code on the left. The
  executor is a value of type \<open>'v\<close> with the operations \<open>'v vm_executor\<close>.
\<close>

section \<open>Contract storage overlays\<close>

text \<open>The entries of an overlay in the order of the iteration over its map.\<close>

type_synonym overlay = "(bytes \<times> bytes option) list"

definition from_writes :: "(bytes \<times> bytes) list \<Rightarrow> overlay" where
  "from_writes writes = map (\<lambda>(key, value). (key, Some value)) writes"

definition preimages_of :: "overlay \<Rightarrow> contract_storage \<Rightarrow> (bytes \<times> bytes option) list" where
  "preimages_of ov base = map (\<lambda>(key, _). (key, fmlookup base key)) ov"

definition put_slot :: "contract_storage \<Rightarrow> bytes \<times> bytes option \<Rightarrow> contract_storage" where
  "put_slot st entry =
     (case entry of (key, Some value) \<Rightarrow> fmupd key value st | (key, None) \<Rightarrow> fmdrop key st)"

definition apply_to :: "overlay \<Rightarrow> contract_storage \<Rightarrow> contract_storage" where
  "apply_to ov st = foldl put_slot st ov"

definition root_from :: "ext \<Rightarrow> overlay \<Rightarrow> contract_storage \<Rightarrow> bytes" where
  "root_from X ov base = contract_storage_root X (apply_to ov base)"

section \<open>The state\<close>

type_synonym storage_undo_entry = "string \<times> bytes \<times> bytes option"

record state =
  balances :: "(string, account) fmap"
  st_storage :: contract_storage_map
  st_receipts :: "receipt list"
  storage_undo :: "(bytes, storage_undo_entry list) fmap"
  value_transfers_undo :: "(bytes, value_transfer list) fmap"

definition state_new :: state where
  "state_new = \<lparr> balances = fmempty, st_storage = fmempty, st_receipts = [], storage_undo = fmempty,
     value_transfers_undo = fmempty \<rparr>"

text \<open>\<open>PartialEq\<close> compares the balances and the contract storage only.\<close>

definition state_eq :: "state \<Rightarrow> state \<Rightarrow> bool" where
  "state_eq s t \<longleftrightarrow> balances s = balances t \<and> st_storage s = st_storage t"

definition get_account :: "state \<Rightarrow> string \<Rightarrow> account option" where
  "get_account s addr = fmlookup (balances s) addr"

definition get_balance :: "state \<Rightarrow> string \<Rightarrow> u64" where
  "get_balance s addr = (case fmlookup (balances s) addr of Some a \<Rightarrow> acc_balance a | None \<Rightarrow> 0)"

definition get_nonce :: "state \<Rightarrow> string \<Rightarrow> u64" where
  "get_nonce s addr = (case fmlookup (balances s) addr of Some a \<Rightarrow> acc_nonce a | None \<Rightarrow> 0)"

definition total_supply :: "state \<Rightarrow> u64" where
  "total_supply s = sum_list (map (\<lambda>(_, a). acc_balance a) (sorted_list_of_fmap (balances s)))"

definition entry_or_default :: "state \<Rightarrow> string \<Rightarrow> account" where
  "entry_or_default s addr = (case fmlookup (balances s) addr of Some a \<Rightarrow> a | None \<Rightarrow> account_default)"

definition prune_if_empty :: "string \<Rightarrow> state \<Rightarrow> state" where
  "prune_if_empty addr s =
     (case fmlookup (balances s) addr of
        Some a \<Rightarrow> if acc_is_empty a then s\<lparr>balances := fmdrop addr (balances s)\<rparr> else s
      | None \<Rightarrow> s)"

definition set_balance :: "string \<Rightarrow> u64 \<Rightarrow> state \<Rightarrow> state" where
  "set_balance addr b s =
     prune_if_empty addr (s\<lparr>balances := fmupd addr (acc_set_balance b (entry_or_default s addr)) (balances s)\<rparr>)"

definition set_nonce :: "string \<Rightarrow> u64 \<Rightarrow> state \<Rightarrow> state" where
  "set_nonce addr n s =
     prune_if_empty addr (s\<lparr>balances := fmupd addr (acc_set_nonce n (entry_or_default s addr)) (balances s)\<rparr>)"

definition set_account :: "string \<Rightarrow> account \<Rightarrow> state \<Rightarrow> state" where
  "set_account addr a s =
     (if acc_is_empty a then s\<lparr>balances := fmdrop addr (balances s)\<rparr>
      else s\<lparr>balances := fmupd addr a (balances s)\<rparr>)"

section \<open>Balance moves\<close>

text \<open>The reading of a live balance, the checked operation and the write that the moves of value
  share.\<close>

definition debit :: "string \<Rightarrow> u64 \<Rightarrow> state \<Rightarrow> core_error + state" where
  "debit addr amount s =
     bind_res (ok_or (checked_sub (get_balance s addr) amount) StateOverflow) (\<lambda>b. Inr (set_balance addr b s))"

definition credit :: "string \<Rightarrow> u64 \<Rightarrow> state \<Rightarrow> core_error + state" where
  "credit addr amount s =
     bind_res (ok_or (checked_add (get_balance s addr) amount) StateOverflow) (\<lambda>b. Inr (set_balance addr b s))"

definition deduct_sender :: "state \<Rightarrow> transfer_tx \<Rightarrow> core_error + state" where
  "deduct_sender s tx =
     (if get_balance s (t_from tx) < t_amount tx
      then Inl (InsufficientBalance (t_from tx) (get_balance s (t_from tx)) (t_amount tx))
      else debit (t_from tx) (t_amount tx) s)"

definition credit_receiver :: "state \<Rightarrow> transfer_tx \<Rightarrow> core_error + state" where
  "credit_receiver s tx = credit (t_to tx) (t_amount tx) s"

definition increment_nonce :: "state \<Rightarrow> transfer_tx \<Rightarrow> core_error + state" where
  "increment_nonce s tx = Inr (set_nonce (t_from tx) (get_nonce s (t_from tx) + 1) s)"

definition debit_receiver :: "state \<Rightarrow> transfer_tx \<Rightarrow> core_error + state" where
  "debit_receiver s tx = debit (t_to tx) (t_amount tx) s"

definition credit_sender :: "state \<Rightarrow> transfer_tx \<Rightarrow> core_error + state" where
  "credit_sender s tx = credit (t_from tx) (t_amount tx) s"

definition decrement_nonce :: "state \<Rightarrow> transfer_tx \<Rightarrow> core_error + state" where
  "decrement_nonce s tx = Inr (set_nonce (t_from tx) (get_nonce s (t_from tx) - 1) s)"

definition move_value :: "state \<Rightarrow> value_transfer \<Rightarrow> core_error + state" where
  "move_value s v = bind_res (debit (vt_from v) (vt_amount v) s) (credit (vt_to v) (vt_amount v))"

definition unmove_value :: "state \<Rightarrow> value_transfer \<Rightarrow> core_error + state" where
  "unmove_value s v = bind_res (debit (vt_to v) (vt_amount v) s) (credit (vt_from v) (vt_amount v))"

definition commit_value_transfers :: "state \<Rightarrow> bytes \<Rightarrow> value_transfer list \<Rightarrow> core_error + state" where
  "commit_value_transfers s tid transfers =
     (if transfers = [] then Inr s
      else bind_res (foldM move_value s transfers) (\<lambda>s.
             Inr (s\<lparr>value_transfers_undo := fmupd tid transfers (value_transfers_undo s)\<rparr>)))"

definition reverse_value_transfers :: "state \<Rightarrow> value_transfer list \<Rightarrow> core_error + state" where
  "reverse_value_transfers s transfers = foldM unmove_value s (rev transfers)"

section \<open>Contract storage writes\<close>

definition account_is_contract :: "state \<Rightarrow> string \<Rightarrow> bool" where
  "account_is_contract s addr = (case get_account s addr of Some a \<Rightarrow> is_contract a | None \<Rightarrow> False)"

definition set_storage_root :: "string \<Rightarrow> bytes \<Rightarrow> state \<Rightarrow> state" where
  "set_storage_root addr root s =
     (case fmlookup (balances s) addr of
        Some (Contract a) \<Rightarrow> s\<lparr>balances := fmupd addr (Contract (a\<lparr>storage_root := root\<rparr>)) (balances s)\<rparr>
      | _ \<Rightarrow> s)"

definition storage_of :: "state \<Rightarrow> string \<Rightarrow> contract_storage" where
  "storage_of s addr = (case fmlookup (st_storage s) addr of Some st \<Rightarrow> st | None \<Rightarrow> fmempty)"

text \<open>One round of the loop over the contract scopes of an execution result.\<close>

definition flush_scope ::
  "ext \<Rightarrow> state \<times> storage_undo_entry list \<Rightarrow> string \<times> (bytes \<times> bytes) list \<Rightarrow> state \<times> storage_undo_entry list" where
  "flush_scope X acc scope =
     (case acc of (s, undo) \<Rightarrow> case scope of (address, writes) \<Rightarrow>
        if writes = [] then (s, undo)
        else if \<not> account_is_contract s address then (s, undo)
        else
          let ov = from_writes writes;
              storage = storage_of s address;
              undo' = undo @ map (\<lambda>(key, pre). (address, key, pre)) (preimages_of ov storage);
              storage' = apply_to ov storage
          in (set_storage_root address (contract_storage_root X storage')
                (s\<lparr>st_storage := fmupd address storage' (st_storage s)\<rparr>), undo'))"

definition flush_storage_writes :: "ext \<Rightarrow> state \<Rightarrow> execution_result \<Rightarrow> bytes \<Rightarrow> state" where
  "flush_storage_writes X s res tid =
     (case foldl (flush_scope X) (s, []) (res_storage_overlay res) of
        (s', undo) \<Rightarrow>
          if undo = [] then s' else s'\<lparr>storage_undo := fmupd tid undo (storage_undo s')\<rparr>)"

definition restore_slot :: "state \<Rightarrow> storage_undo_entry \<Rightarrow> state" where
  "restore_slot s entry =
     (case entry of (addr, key, pre) \<Rightarrow>
        s\<lparr>st_storage := fmupd addr (put_slot (storage_of s addr) (key, pre)) (st_storage s)\<rparr>)"

text \<open>The second loop, over the set of touched contracts: an empty map is removed and the root is
  recomputed. The contracts are visited in the order of their first entry.\<close>

definition refresh_root :: "ext \<Rightarrow> state \<Rightarrow> string \<Rightarrow> state" where
  "refresh_root X s addr =
     (let s' = (if fmlookup (st_storage s) addr = Some fmempty
                then s\<lparr>st_storage := fmdrop addr (st_storage s)\<rparr> else s);
          root = (case fmlookup (st_storage s') addr of Some st \<Rightarrow> contract_storage_root X st | None \<Rightarrow> zero32)
      in set_storage_root addr root s')"

definition unapply_call_storage :: "ext \<Rightarrow> state \<Rightarrow> bytes \<Rightarrow> state" where
  "unapply_call_storage X s tid =
     (case fmlookup (storage_undo s) tid of
        None \<Rightarrow> s
      | Some entries \<Rightarrow>
          let s1 = s\<lparr>storage_undo := fmdrop tid (storage_undo s)\<rparr>;
              s2 = foldl restore_slot s1 entries
          in foldl (refresh_root X) s2 (remdups (map fst entries)))"

section \<open>Applying a block\<close>

definition transfer_receipt :: "ext \<Rightarrow> transaction \<Rightarrow> block \<Rightarrow> u32 \<Rightarrow> value_transfer list \<Rightarrow> receipt" where
  "transfer_receipt X tx b tx_index transfers =
     \<lparr> rc_txid = txid X tx, rc_gas_used = 0, rc_logs = [], rc_status = TxSuccess,
       rc_block_height = blk_index b, rc_tx_index = tx_index, rc_value_transfers = transfers \<rparr>"

definition validate_tx_chain_id :: "transaction \<Rightarrow> u32 \<Rightarrow> core_error + unit" where
  "validate_tx_chain_id tx chain_id =
     (if tx_chain_id tx \<noteq> chain_id then Inl (InvalidChainId chain_id (tx_chain_id tx)) else Inr ())"

definition apply_genesis_tx ::
  "ext \<Rightarrow> block \<Rightarrow> u32 \<Rightarrow> state \<times> receipt list \<Rightarrow> nat \<times> transaction \<Rightarrow> core_error + (state \<times> receipt list)" where
  "apply_genesis_tx X b chain_id acc itx =
     (case acc of (s, receipts) \<Rightarrow> case itx of (i, tx) \<Rightarrow>
        bind_res (validate_tx_chain_id tx chain_id) (\<lambda>_.
          case tx of
            Transfer t \<Rightarrow> bind_res (credit_receiver s t) (\<lambda>s'.
              Inr (s', receipts @ [transfer_receipt X tx b (of_nat i) []]))
          | _ \<Rightarrow> Inl (UnsupportedTxType ''create/call transactions are not supported at genesis'')))"

definition apply_genesis :: "ext \<Rightarrow> state \<Rightarrow> block \<Rightarrow> u32 \<Rightarrow> core_error + (state \<times> receipt list)" where
  "apply_genesis X s b chain_id = foldM (apply_genesis_tx X b chain_id) (s, []) (enumerate 0 (blk_transactions b))"

definition block_coinbase :: "block \<Rightarrow> string" where
  "block_coinbase b =
     (case find tx_is_coinbase (blk_transactions b) of
        None \<Rightarrow> []
      | Some tx \<Rightarrow> (case tx_receiver tx of None \<Rightarrow> [] | Some r \<Rightarrow> r))"

definition frame_context ::
  "state \<Rightarrow> block \<Rightarrow> string \<Rightarrow> string \<Rightarrow> u64 \<Rightarrow> u64 \<Rightarrow> bytes \<Rightarrow> execution_context" where
  "frame_context s b caller callee value gas_limit input =
     \<lparr> ctx_block = header b, ctx_accounts = balances s, ctx_caller = caller, ctx_callee = callee,
       ctx_value = value, ctx_gas_limit = gas_limit, ctx_gas_used = 0, ctx_depth = 0,
       ctx_reentrant = False, ctx_read_only = False,
       ctx_block_context = \<lparr> bc_height = blk_index b, bc_timestamp = blk_timestamp b,
         bc_coinbase = block_coinbase b, bc_block_gas_limit = BLOCK_GAS_LIMIT \<rparr>,
       ctx_storage = st_storage s, ctx_storage_overlay = fmempty, ctx_storage_address = callee,
       ctx_input = input \<rparr>"

definition apply_create ::
  "ext \<Rightarrow> 'v vm_executor \<Rightarrow> state \<Rightarrow> create_tx \<Rightarrow> u32 \<Rightarrow> 'v \<Rightarrow> block \<Rightarrow> u32 \<Rightarrow> core_error + (state \<times> 'v \<times> receipt)" where
  "apply_create X V s c chain_id vm b tx_index =
     (let sender_nonce = get_nonce s (c_from c) in
      bind_res (derive_contract_address X (c_from c) sender_nonce chain_id) (\<lambda>address.
        if account_is_contract s address
        then Inl (InvalidContractDeploy (''contract address collision at `'' @ address @ ''`''))
        else if get_balance s (c_from c) < c_endowment c
        then Inl (InsufficientBalance (c_from c) (get_balance s (c_from c)) (c_endowment c))
        else
          let acct = Contract \<lparr> code_hash = blake3 X (c_init_code c), storage_root = zero32,
                con_nonce = 1, con_balance = c_endowment c \<rparr>;
              s = set_nonce (c_from c) (sender_nonce + 1) (set_account address acct s)
          in case vm_register_code V vm address (c_init_code c) of
               Inl e \<Rightarrow> Inl (VmExecution e)
             | Inr vm \<Rightarrow>
                 let ctx = frame_context s b (c_from c) address (c_endowment c) (c_gas_limit c) (c_init_args c);
                     tid = txid X (Create c)
                 in case vm_execute_constructor V vm ctx of
                      Inl e \<Rightarrow>
                        Inr (set_account address account_default s, vm,
                             from_vm_error tid (blk_index b) tx_index e (c_gas_limit c))
                    | Inr res \<Rightarrow>
                        if res_status res = TxSuccess then
                          bind_res (debit (c_from c) (c_endowment c) (flush_storage_writes X s res tid)) (\<lambda>s.
                          bind_res (commit_value_transfers s tid (res_value_transfers res)) (\<lambda>s.
                            let trail =
                                  (if c_endowment c > 0
                                   then [\<lparr> vt_from = c_from c, vt_to = address, vt_amount = c_endowment c \<rparr>]
                                   else []) @ res_value_transfers res
                            in Inr (s, vm, (from_execution tid (blk_index b) tx_index res)
                                 \<lparr>rc_value_transfers := trail\<rparr>)))
                        else
                          Inr (set_account address account_default s, vm,
                               from_execution tid (blk_index b) tx_index res)))"

definition apply_call ::
  "ext \<Rightarrow> 'v vm_executor \<Rightarrow> state \<Rightarrow> block \<Rightarrow> call_tx \<Rightarrow> 'v \<Rightarrow> u32 \<Rightarrow> core_error + (state \<times> receipt)" where
  "apply_call X V s b k vm tx_index =
     (if get_balance s (k_from k) < k_value k
      then Inl (InsufficientBalance (k_from k) (get_balance s (k_from k)) (k_value k))
      else
        let s = set_nonce (k_from k) (get_nonce s (k_from k) + 1) s;
            tid = txid X (Call k)
        in if \<not> account_is_contract s (k_to k) then
             let transfers = (if k_value k > 0
                   then [\<lparr> vt_from = k_from k, vt_to = k_to k, vt_amount = k_value k \<rparr>] else [])
             in bind_res (commit_value_transfers s tid transfers) (\<lambda>s.
                  Inr (s, \<lparr> rc_txid = tid, rc_gas_used = 0, rc_logs = [], rc_status = TxSuccess,
                    rc_block_height = blk_index b, rc_tx_index = tx_index, rc_value_transfers = transfers \<rparr>))
           else
             case vm_execute V vm (frame_context s b (k_from k) (k_to k) (k_value k) (k_gas_limit k) (k_data k)) of
               Inl e \<Rightarrow> Inr (s, from_vm_error tid (blk_index b) tx_index e (k_gas_limit k))
             | Inr res \<Rightarrow>
                 bind_res
                   (if res_status res = TxSuccess
                    then bind_res (commit_value_transfers s tid (res_value_transfers res)) (\<lambda>s.
                           Inr (flush_storage_writes X s res tid))
                    else Inr s)
                   (\<lambda>s. Inr (s, from_execution tid (blk_index b) tx_index res)))"

text \<open>One round of the loop over the transactions of a block, with the state, the executor and the
  receipts so far.\<close>

definition apply_tx ::
  "ext \<Rightarrow> 'v vm_executor \<Rightarrow> block \<Rightarrow> u32 \<Rightarrow> state \<times> 'v option \<times> receipt list \<Rightarrow> nat \<times> transaction
     \<Rightarrow> core_error + (state \<times> 'v option \<times> receipt list)" where
  "apply_tx X V b chain_id acc itx =
     (case acc of (s, vm, receipts) \<Rightarrow> case itx of (i, tx) \<Rightarrow>
        if tx_is_coinbase tx then Inr (s, vm, receipts)
        else case tx of
          Transfer t \<Rightarrow>
            bind_res (deduct_sender s t) (\<lambda>s.
            bind_res (credit_receiver s t) (\<lambda>s.
            bind_res (increment_nonce s t) (\<lambda>s.
              Inr (s, vm, receipts @ [transfer_receipt X tx b (of_nat i)
                [\<lparr> vt_from = t_from t, vt_to = t_to t, vt_amount = t_amount t \<rparr>]]))))
        | Create c \<Rightarrow>
            (case vm of
               None \<Rightarrow> Inl (UnsupportedTxType ''create transactions require a VM executor (S1.5-P14)'')
             | Some v \<Rightarrow>
                 bind_res (apply_create X V s c chain_id v b (of_nat i)) (\<lambda>(s, v, r). Inr (s, Some v, receipts @ [r])))
        | Call k \<Rightarrow>
            (case vm of
               None \<Rightarrow> Inl (UnsupportedTxType ''call transactions require a VM executor (S1.5-P14)'')
             | Some v \<Rightarrow>
                 bind_res (apply_call X V s b k v (of_nat i)) (\<lambda>(s, r). Inr (s, Some v, receipts @ [r]))))"

fun position :: "('a \<Rightarrow> bool) \<Rightarrow> 'a list \<Rightarrow> nat option" where
  "position P [] = None"
| "position P (x # xs) = (if P x then Some 0 else map_option Suc (position P xs))"

definition apply_non_genesis ::
  "ext \<Rightarrow> 'v vm_executor \<Rightarrow> state \<Rightarrow> block \<Rightarrow> u32 \<Rightarrow> 'v option \<Rightarrow> core_error + (state \<times> 'v option \<times> receipt list)" where
  "apply_non_genesis X V s b chain_id vm =
     bind_res (foldM (\<lambda>_ tx. validate_tx_chain_id tx chain_id) () (blk_transactions b)) (\<lambda>_.
       let expected_reward = block_reward_at_height_for_chain (blk_index b) (total_supply s) chain_id in
       case position tx_is_coinbase (blk_transactions b) of
         None \<Rightarrow> Inl (InvalidCoinbaseAmount expected_reward 0)
       | Some ci \<Rightarrow>
           (case blk_transactions b ! ci of
              Transfer t \<Rightarrow>
                if t_amount t > expected_reward then Inl (InvalidCoinbaseAmount expected_reward (t_amount t))
                else bind_res (credit_receiver s t) (\<lambda>s.
                  foldM (apply_tx X V b chain_id)
                    (s, vm, [transfer_receipt X (blk_transactions b ! ci) b (of_nat ci) []])
                    (enumerate 0 (blk_transactions b)))
            | _ \<Rightarrow> Inl (UnsupportedTxType ''coinbase must be a transfer transaction'')))"

definition apply_block_inner ::
  "ext \<Rightarrow> 'v vm_executor \<Rightarrow> state \<Rightarrow> block \<Rightarrow> u32 \<Rightarrow> 'v option \<Rightarrow> core_error + (state \<times> 'v option)" where
  "apply_block_inner X V s b chain_id vm =
     (let s = s\<lparr>st_receipts := []\<rparr> in
      if blk_index b = 0 then
        bind_res (apply_genesis X s b chain_id) (\<lambda>(s, receipts). Inr (s\<lparr>st_receipts := receipts\<rparr>, vm))
      else
        bind_res (apply_non_genesis X V s b chain_id vm) (\<lambda>(s, vm, receipts).
          Inr (s\<lparr>st_receipts := receipts\<rparr>, vm)))"

text \<open>The executor stand-in of the transfer-only path.\<close>

definition NoVm :: "unit vm_executor" where
  "NoVm =
     (let e = HostFunctionError ''apply_block'' ''no VM executor available''
      in \<lparr> vm_execute = (\<lambda>_ _. Inl e), vm_execute_constructor = (\<lambda>_ _. Inl e), vm_register_code = (\<lambda>_ _ _. Inl e) \<rparr>)"

definition apply_block :: "ext \<Rightarrow> state \<Rightarrow> block \<Rightarrow> u32 \<Rightarrow> core_error + state" where
  "apply_block X s b chain_id = bind_res (apply_block_inner X NoVm s b chain_id None) (\<lambda>(s, _). Inr s)"

definition apply_block_with_vm ::
  "ext \<Rightarrow> 'v vm_executor \<Rightarrow> state \<Rightarrow> block \<Rightarrow> u32 \<Rightarrow> 'v \<Rightarrow> core_error + (state \<times> 'v option)" where
  "apply_block_with_vm X V s b chain_id vm = apply_block_inner X V s b chain_id (Some vm)"

section \<open>Reversing a block\<close>

definition unapply_genesis_tx :: "state \<Rightarrow> transaction \<Rightarrow> core_error + state" where
  "unapply_genesis_tx s tx =
     (case tx of
        Transfer t \<Rightarrow> debit_receiver s t
      | _ \<Rightarrow> Inl (UnsupportedTxType ''create/call transactions are not supported at genesis''))"

definition unapply_genesis :: "state \<Rightarrow> block \<Rightarrow> core_error + state" where
  "unapply_genesis s b = foldM unapply_genesis_tx s (rev (blk_transactions b))"

text \<open>The status a transaction ended with; a missing receipt counts as a success.\<close>

definition receipt_success :: "state \<Rightarrow> bytes \<Rightarrow> bool" where
  "receipt_success s tid =
     (case find (\<lambda>r. rc_txid r = tid) (st_receipts s) of
        Some r \<Rightarrow> rc_status r = TxSuccess
      | None \<Rightarrow> True)"

definition unapply_create :: "ext \<Rightarrow> state \<Rightarrow> create_tx \<Rightarrow> u32 \<Rightarrow> core_error + state" where
  "unapply_create X s c chain_id =
     (let tid = txid X (Create c) in
      bind_res (ok_or (checked_sub (get_nonce s (c_from c)) 1) StateOverflow) (\<lambda>nonce.
      bind_res (derive_contract_address X (c_from c) nonce chain_id) (\<lambda>address.
        let was_success = receipt_success s tid;
            s = unapply_call_storage X s tid;
            drop_record = (\<lambda>s. s\<lparr>value_transfers_undo := fmdrop tid (value_transfers_undo s)\<rparr>)
        in bind_res
             (if was_success then
                bind_res
                  (case fmlookup (value_transfers_undo s) tid of
                     Some transfers \<Rightarrow> reverse_value_transfers (drop_record s) transfers
                   | None \<Rightarrow> Inr s)
                  (credit (c_from c) (c_endowment c))
              else Inr (drop_record s))
             (\<lambda>s.
               let s = set_account address account_default s;
                   s = s\<lparr>st_storage := fmdrop address (st_storage s)\<rparr>
               in Inr (set_nonce (c_from c) nonce s)))))"

definition unapply_call :: "ext \<Rightarrow> state \<Rightarrow> call_tx \<Rightarrow> core_error + state" where
  "unapply_call X s k =
     (let tid = txid X (Call k) in
      bind_res (ok_or (checked_sub (get_nonce s (k_from k)) 1) StateOverflow) (\<lambda>nonce.
        let s = set_nonce (k_from k) nonce s
        in bind_res
             (if receipt_success s tid then
                (case fmlookup (value_transfers_undo s) tid of
                   Some transfers \<Rightarrow>
                     reverse_value_transfers
                       (s\<lparr>value_transfers_undo := fmdrop tid (value_transfers_undo s)\<rparr>) transfers
                 | None \<Rightarrow>
                     if k_value k > 0 then
                       reverse_value_transfers s [\<lparr> vt_from = k_from k, vt_to = k_to k, vt_amount = k_value k \<rparr>]
                     else Inr s)
              else Inr s)
             (\<lambda>s. Inr (unapply_call_storage X s tid))))"

definition unapply_tx :: "ext \<Rightarrow> u32 \<Rightarrow> state \<Rightarrow> transaction \<Rightarrow> core_error + state" where
  "unapply_tx X chain_id s tx =
     (case tx of
        Transfer t \<Rightarrow>
          if t_is_coinbase t then debit_receiver s t
          else bind_res (decrement_nonce s t) (\<lambda>s.
               bind_res (debit_receiver s t) (\<lambda>s. credit_sender s t))
      | Create c \<Rightarrow> unapply_create X s c chain_id
      | Call k \<Rightarrow> unapply_call X s k)"

definition unapply_non_genesis :: "ext \<Rightarrow> state \<Rightarrow> block \<Rightarrow> u32 \<Rightarrow> core_error + state" where
  "unapply_non_genesis X s b chain_id = foldM (unapply_tx X chain_id) s (rev (blk_transactions b))"

definition unapply_block :: "ext \<Rightarrow> state \<Rightarrow> block \<Rightarrow> u32 \<Rightarrow> core_error + state" where
  "unapply_block X s b chain_id =
     bind_res (if blk_index b = 0 then unapply_genesis s b else unapply_non_genesis X s b chain_id)
       (\<lambda>s. Inr (s\<lparr>st_receipts := []\<rparr>))"

section \<open>The committed state root\<close>

definition root_after_inner ::
  "ext \<Rightarrow> state \<Rightarrow> block \<Rightarrow> bool \<Rightarrow> (state \<Rightarrow> block \<Rightarrow> core_error + state) \<Rightarrow> core_error + bytes" where
  "root_after_inner X s b allow_zero_state_root apply =
     bind_res (apply s b) (\<lambda>new_state.
       let computed = compute_root X (balances new_state) in
       if blk_state_root b = zero32 then
         if \<not> (blk_index b = 0 \<or> allow_zero_state_root) then Inl (StateRootMismatch zero32 computed)
         else Inr computed
       else if blk_state_root b \<noteq> computed then Inl (StateRootMismatch (blk_state_root b) computed)
       else Inr computed)"

definition root_after :: "ext \<Rightarrow> state \<Rightarrow> block \<Rightarrow> u32 \<Rightarrow> bool \<Rightarrow> core_error + bytes" where
  "root_after X s b chain_id allow_zero_state_root =
     root_after_inner X s b allow_zero_state_root (\<lambda>s b. apply_block X s b chain_id)"

definition root_after_with_vm ::
  "ext \<Rightarrow> 'v vm_executor \<Rightarrow> state \<Rightarrow> block \<Rightarrow> u32 \<Rightarrow> bool \<Rightarrow> 'v \<Rightarrow> core_error + bytes" where
  "root_after_with_vm X V s b chain_id allow_zero_state_root vm =
     root_after_inner X s b allow_zero_state_root
       (\<lambda>s b. bind_res (apply_block_with_vm X V s b chain_id vm) (\<lambda>(s, _). Inr s))"

definition receipts_root :: "ext \<Rightarrow> receipt list \<Rightarrow> bytes" where
  "receipts_root X receipts = receipts_subroot X receipts"

end
