(* ===== verification/Sc_Ledger.thy ===== *)
theory Sc_Ledger
  imports Sc_State
begin

text \<open>
  The ledger laws of the state: what every write of \<open>inner.rs\<close> does to the balance, to the nonce and
  to the contract data of an account, the total supply, and the theorems that a block mints no more
  than its reward, whatever the executor answers.
\<close>

section \<open>Cells\<close>

text \<open>The sum of a function with finite support.\<close>

definition total_of :: "('k \<Rightarrow> u64) \<Rightarrow> nat" where
  "total_of f = (\<Sum>k\<in>{k. f k \<noteq> 0}. unat (f k))"

lemma total_of_over:
  assumes "finite A" and "{k. f k \<noteq> 0} \<subseteq> A"
  shows "total_of f = (\<Sum>k\<in>A. unat (f k))"
  unfolding total_of_def using assms by (intro sum.mono_neutral_left) auto

lemma total_of_upd:
  assumes "finite {k. f k \<noteq> 0}"
  shows "total_of (f(k := v)) + unat (f k) = total_of f + unat v"
proof -
  let ?A = "insert k {k. f k \<noteq> 0}"
  have fin: "finite ?A" using assms by simp
  have t: "total_of (f(k := v)) = (\<Sum>j\<in>?A. unat ((f(k := v)) j))"
    using fin by (subst total_of_over [of ?A]) auto
  have s: "total_of f = (\<Sum>j\<in>?A. unat (f j))"
    using fin by (subst total_of_over [of ?A]) auto
  have "(\<Sum>j\<in>?A - {k}. unat ((f(k := v)) j)) = (\<Sum>j\<in>?A - {k}. unat (f j))"
    by (intro sum.cong) auto
  then show ?thesis
    using fin unfolding t s by (simp add: sum.remove [of ?A k])
qed

text \<open>The interface shared by the balances and by the nonces: a write changes the cell it names and
  nothing else, and only finitely many cells differ from zero. A checked move between two cells
  then keeps the sum, and its reversal gives the cells back.\<close>

locale cells =
  fixes get :: "'s \<Rightarrow> 'k \<Rightarrow> u64"
    and put :: "'k \<Rightarrow> u64 \<Rightarrow> 's \<Rightarrow> 's"
  assumes get_put: "get (put k v s) = (get s)(k := v)"
    and finite_support: "finite {k. get s k \<noteq> 0}"
begin

lemma total_put: "total_of (get (put k v s)) + unat (get s k) = total_of (get s) + unat v"
  unfolding get_put by (rule total_of_upd) (rule finite_support)

lemma le_total: "unat (get s k) \<le> total_of (get s)"
proof (cases "get s k = 0")
  case False
  then show ?thesis unfolding total_of_def using finite_support [of s] by (intro member_le_sum) auto
qed simp

lemma total_sub:
  assumes "checked_sub (get s k) v = Some w"
  shows "total_of (get (put k w s)) + unat v = total_of (get s)"
  using total_put [of k w s] assms by (simp add: checked_sub_Some_iff)

lemma total_add:
  assumes "checked_add (get s k) v = Some w"
  shows "total_of (get (put k w s)) = total_of (get s) + unat v"
  using total_put [of k w s] assms unfolding checked_add_Some_iff by linarith

lemma sub_back:
  assumes "checked_sub (get s k) v = Some w"
  shows "checked_add (get (put k w s) k) v = Some (get s k)" and "get (put k (get s k) (put k w s)) = get s"
  using assms by (auto simp: get_put intro: checked_add_sub)

lemma add_back:
  assumes "checked_add (get s k) v = Some w"
  shows "checked_sub (get (put k w s) k) v = Some (get s k)" and "get (put k (get s k) (put k w s)) = get s"
  using assms by (auto simp: get_put intro: checked_sub_add)

end

section \<open>The three views of an account\<close>

definition contract_view :: "state \<Rightarrow> string \<Rightarrow> (bytes \<times> bytes) option" where
  "contract_view s addr =
     (case fmlookup (balances s) addr of
        Some (Contract a) \<Rightarrow> Some (code_hash a, storage_root a)
      | _ \<Rightarrow> None)"

text \<open>The invariant of the account map: no entry is empty, and a contract has a code hash, so that it
  is never pruned.\<close>

definition pinned :: "account \<Rightarrow> bool" where
  "pinned a \<longleftrightarrow> \<not> acc_is_empty a \<and> (\<forall>c. a = Contract c \<longrightarrow> code_hash c \<noteq> zero32)"

definition clean :: "state \<Rightarrow> bool" where
  "clean s \<longleftrightarrow> fmpred (\<lambda>_. pinned) (balances s)"

lemma cleanD: "clean s \<Longrightarrow> fmlookup (balances s) addr = Some a \<Longrightarrow> pinned a"
  by (simp add: clean_def fmpred_iff)

lemma cleanI: "(\<And>addr a. fmlookup (balances s) addr = Some a \<Longrightarrow> pinned a) \<Longrightarrow> clean s"
  by (simp add: clean_def fmpred_iff)

lemma prune_lookup:
  "fmlookup (balances (prune_if_empty addr s)) a =
     (if a = addr \<and> (\<exists>acc. fmlookup (balances s) addr = Some acc \<and> acc_is_empty acc) then None
      else fmlookup (balances s) a)"
  by (auto simp: prune_if_empty_def split: option.splits)

lemma prune_fields [simp]:
  "st_storage (prune_if_empty addr s) = st_storage s"
  "st_receipts (prune_if_empty addr s) = st_receipts s"
  "storage_undo (prune_if_empty addr s) = storage_undo s"
  "value_transfers_undo (prune_if_empty addr s) = value_transfers_undo s"
  by (simp_all add: prune_if_empty_def split: option.splits)

text \<open>Only \<open>balances\<close> is written by the account operations.\<close>

lemma set_fields [simp]:
  "st_storage (set_balance addr b s) = st_storage s" "st_storage (set_nonce addr n s) = st_storage s"
  "st_storage (set_account addr a s) = st_storage s" "st_storage (set_storage_root addr r s) = st_storage s"
  "st_receipts (set_balance addr b s) = st_receipts s" "st_receipts (set_nonce addr n s) = st_receipts s"
  "st_receipts (set_account addr a s) = st_receipts s" "st_receipts (set_storage_root addr r s) = st_receipts s"
  "storage_undo (set_balance addr b s) = storage_undo s" "storage_undo (set_nonce addr n s) = storage_undo s"
  "storage_undo (set_account addr a s) = storage_undo s" "storage_undo (set_storage_root addr r s) = storage_undo s"
  "value_transfers_undo (set_balance addr b s) = value_transfers_undo s"
  "value_transfers_undo (set_nonce addr n s) = value_transfers_undo s"
  "value_transfers_undo (set_account addr a s) = value_transfers_undo s"
  "value_transfers_undo (set_storage_root addr r s) = value_transfers_undo s"
  by (simp_all add: set_balance_def set_nonce_def set_account_def set_storage_root_def
      split: option.splits account.splits)

text \<open>The views do not read the other fields.\<close>

lemma view_fields [simp]:
  "get_balance (s\<lparr>st_storage := u\<rparr>) = get_balance s" "get_balance (s\<lparr>st_receipts := rs\<rparr>) = get_balance s"
  "get_balance (s\<lparr>storage_undo := su\<rparr>) = get_balance s" "get_balance (s\<lparr>value_transfers_undo := vu\<rparr>) = get_balance s"
  "get_nonce (s\<lparr>st_storage := u\<rparr>) = get_nonce s" "get_nonce (s\<lparr>st_receipts := rs\<rparr>) = get_nonce s"
  "get_nonce (s\<lparr>storage_undo := su\<rparr>) = get_nonce s" "get_nonce (s\<lparr>value_transfers_undo := vu\<rparr>) = get_nonce s"
  "contract_view (s\<lparr>st_storage := u\<rparr>) = contract_view s" "contract_view (s\<lparr>st_receipts := rs\<rparr>) = contract_view s"
  "contract_view (s\<lparr>storage_undo := su\<rparr>) = contract_view s"
  "contract_view (s\<lparr>value_transfers_undo := vu\<rparr>) = contract_view s"
  "clean (s\<lparr>st_storage := u\<rparr>) = clean s" "clean (s\<lparr>st_receipts := rs\<rparr>) = clean s"
  "clean (s\<lparr>storage_undo := su\<rparr>) = clean s" "clean (s\<lparr>value_transfers_undo := vu\<rparr>) = clean s"
  by (simp_all add: fun_eq_iff get_balance_def get_nonce_def contract_view_def clean_def)

lemma acc_set_contract:
  "acc_set_balance b a = Contract c' \<longleftrightarrow> (\<exists>c. a = Contract c \<and> c' = c\<lparr>con_balance := b\<rparr>)"
  "acc_set_nonce n a = Contract c' \<longleftrightarrow> (\<exists>c. a = Contract c \<and> c' = c\<lparr>con_nonce := n\<rparr>)"
  by (cases a; auto)+

lemma get_balance_set [simp]:
  "get_balance (set_balance addr b s) = (get_balance s)(addr := b)"
  "get_balance (set_nonce addr n s) = get_balance s"
  "get_balance (set_account addr a s) = (get_balance s)(addr := acc_balance a)"
  "get_balance (set_storage_root addr r s) = get_balance s"
  by (auto simp: fun_eq_iff get_balance_def set_balance_def set_nonce_def set_account_def set_storage_root_def
      prune_lookup entry_or_default_def fmlookup_fmupd_cases dest!: acc_is_empty_balance
      split: option.splits account.splits)

lemma get_nonce_set [simp]:
  "get_nonce (set_balance addr b s) = get_nonce s"
  "get_nonce (set_nonce addr n s) = (get_nonce s)(addr := n)"
  "get_nonce (set_account addr a s) = (get_nonce s)(addr := acc_nonce a)"
  "get_nonce (set_storage_root addr r s) = get_nonce s"
  by (auto simp: fun_eq_iff get_nonce_def set_balance_def set_nonce_def set_account_def set_storage_root_def
      prune_lookup entry_or_default_def fmlookup_fmupd_cases dest!: acc_is_empty_balance
      split: option.splits account.splits)

lemma contract_view_set [simp]:
  assumes "clean s"
  shows "contract_view (set_balance addr b s) = contract_view s"
    and "contract_view (set_nonce addr n s) = contract_view s"
proof -
  have *: "\<not> acc_is_empty (Contract c)" if "code_hash c \<noteq> zero32" for c using that by simp
  show "contract_view (set_balance addr b s) = contract_view s"
  proof
    fix a
    show "contract_view (set_balance addr b s) a = contract_view s a"
      using cleanD [OF assms, of a]
      by (cases "fmlookup (balances s) a"; cases "the (fmlookup (balances s) a)")
        (auto simp: contract_view_def set_balance_def prune_lookup entry_or_default_def fmlookup_fmupd_cases
          account_default_def pinned_def)
  qed
  show "contract_view (set_nonce addr n s) = contract_view s"
  proof
    fix a
    show "contract_view (set_nonce addr n s) a = contract_view s a"
      using cleanD [OF assms, of a]
      by (cases "fmlookup (balances s) a"; cases "the (fmlookup (balances s) a)")
        (auto simp: contract_view_def set_nonce_def prune_lookup entry_or_default_def fmlookup_fmupd_cases
          account_default_def pinned_def)
  qed
qed

lemma contract_view_set_account:
  "contract_view (set_account addr (Contract c) s) =
     (contract_view s)(addr := if acc_is_empty (Contract c) then None else Some (code_hash c, storage_root c))"
  "contract_view (set_account addr account_default s) = (contract_view s)(addr := None)"
  by (auto simp: fun_eq_iff contract_view_def set_account_def)

lemma contract_view_set_storage_root:
  "contract_view (set_storage_root addr r s) =
     (case contract_view s addr of None \<Rightarrow> contract_view s | Some (ch, _) \<Rightarrow> (contract_view s)(addr := Some (ch, r)))"
  by (auto simp: fun_eq_iff contract_view_def set_storage_root_def fmlookup_fmupd_cases
      split: option.splits account.splits)

lemma account_is_contract_view: "account_is_contract s addr \<longleftrightarrow> contract_view s addr \<noteq> None"
  by (auto simp: account_is_contract_def get_account_def contract_view_def split: option.splits account.splits)

section \<open>The invariant of the account map\<close>

lemma clean_set [simp, intro]:
  assumes "clean s"
  shows "clean (set_balance addr b s)" and "clean (set_nonce addr n s)"
proof -
  have p: "code_hash c \<noteq> zero32" if "entry_or_default s addr = Contract c" for c
    using cleanD [OF assms, of addr] that
    by (auto simp: entry_or_default_def account_default_def pinned_def split: option.splits)
  show "clean (set_balance addr b s)"
    using cleanD [OF assms] p
    by (intro cleanI) (auto simp: set_balance_def prune_lookup pinned_def acc_set_contract split: if_splits)
  show "clean (set_nonce addr n s)"
    using cleanD [OF assms] p
    by (intro cleanI) (auto simp: set_nonce_def prune_lookup pinned_def acc_set_contract split: if_splits)
qed

lemma clean_set_account:
  assumes "clean s" and "\<And>c. a = Contract c \<Longrightarrow> code_hash c \<noteq> zero32"
  shows "clean (set_account addr a s)"
  using cleanD [OF assms(1)] assms(2)
  by (intro cleanI) (auto simp: set_account_def pinned_def split: if_splits)

lemma clean_remove [simp]: "clean s \<Longrightarrow> clean (set_account addr account_default s)"
  by (rule clean_set_account) (simp_all add: account_default_def)

lemma clean_set_storage_root [simp, intro]:
  assumes "clean s"
  shows "clean (set_storage_root addr r s)"
  using cleanD [OF assms] by (intro cleanI)
    (fastforce simp: set_storage_root_def pinned_def split: if_splits option.splits account.splits)

text \<open>A clean state is determined by its views.\<close>

lemma balances_eqI:
  assumes "clean s" and "clean t" and "get_balance s = get_balance t" and "get_nonce s = get_nonce t"
    and "contract_view s = contract_view t"
  shows "balances s = balances t"
proof (rule fmap_ext)
  fix a
  show "fmlookup (balances s) a = fmlookup (balances t) a"
    using cleanD [OF assms(1), of a] cleanD [OF assms(2), of a]
      fun_cong [OF assms(3), of a] fun_cong [OF assms(4), of a] fun_cong [OF assms(5), of a]
    by (auto simp: get_balance_def get_nonce_def contract_view_def pinned_def
        split: option.splits account.splits)
qed

interpretation bal: cells get_balance set_balance
proof unfold_locales
  fix s :: state
  have "{a. get_balance s a \<noteq> 0} \<subseteq> fmdom' (balances s)"
    by (auto simp: get_balance_def fmlookup_dom'_iff split: option.splits)
  then show "finite {a. get_balance s a \<noteq> 0}" by (rule finite_subset) simp
qed simp

interpretation non: cells get_nonce set_nonce
proof unfold_locales
  fix s :: state
  have "{a. get_nonce s a \<noteq> 0} \<subseteq> fmdom' (balances s)"
    by (auto simp: get_nonce_def fmlookup_dom'_iff split: option.splits)
  then show "finite {a. get_nonce s a \<noteq> 0}" by (rule finite_subset) simp
qed simp

section \<open>The total supply\<close>

definition coins :: "state \<Rightarrow> nat" where
  "coins s = sum_list (map (\<lambda>(_, a). unat (acc_balance a)) (sorted_list_of_fmap (balances s)))"

lemma coins_total: "coins s = total_of (get_balance s)"
proof -
  have "coins s = (\<Sum>a\<in>fmdom' (balances s). unat (get_balance s a))"
    unfolding coins_def sorted_list_of_fmap_def
    by (simp add: comp_def sum_list_distinct_conv_sum_set sorted_list_of_fset.rep_eq fmdom'_alt_def)
      (auto simp: get_balance_def intro!: sum.cong split: option.splits)
  then show ?thesis
    by (subst total_of_over [of "fmdom' (balances s)"])
      (auto simp: get_balance_def fmlookup_dom'_iff split: option.splits)
qed

lemma total_supply_coins: "total_supply s = of_nat (coins s)"
proof -
  have "sum_list (map (\<lambda>(_, a). acc_balance a) xs) = of_nat (sum_list (map (\<lambda>(_, a). unat (acc_balance a)) xs))"
    for xs :: "(string \<times> account) list"
    by (induction xs) auto
  then show ?thesis by (simp add: total_supply_def coins_def)
qed

lemma coins_cong: "get_balance s = get_balance t \<Longrightarrow> coins s = coins t"
  by (simp add: coins_total)

lemma coins_fields [simp]:
  "coins (s\<lparr>st_storage := u\<rparr>) = coins s" "coins (s\<lparr>st_receipts := rs\<rparr>) = coins s"
  "coins (s\<lparr>storage_undo := su\<rparr>) = coins s" "coins (s\<lparr>value_transfers_undo := vu\<rparr>) = coins s"
  "coins (set_nonce addr n s) = coins s" "coins (set_storage_root addr r s) = coins s"
  by (rule coins_cong; simp)+

lemma coins_set_account: "coins (set_account addr a s) + unat (get_balance s addr) = coins s + unat (acc_balance a)"
  unfolding coins_total by (simp add: total_of_upd bal.finite_support)

lemma debit_Inr:
  "debit addr v s = Inr t \<longleftrightarrow> (\<exists>b. checked_sub (get_balance s addr) v = Some b \<and> t = set_balance addr b s)"
  by (auto simp: debit_def bind_res_Inr_iff)

lemma credit_Inr:
  "credit addr v s = Inr t \<longleftrightarrow> (\<exists>b. checked_add (get_balance s addr) v = Some b \<and> t = set_balance addr b s)"
  by (auto simp: credit_def bind_res_Inr_iff)

lemma coins_debit: "debit addr v s = Inr t \<Longrightarrow> coins t + unat v = coins s"
  unfolding coins_total debit_Inr using bal.total_sub by blast

lemma coins_credit: "credit addr v s = Inr t \<Longrightarrow> coins t = coins s + unat v"
  unfolding coins_total credit_Inr using bal.total_add by blast

lemma coins_move_value: "move_value s v = Inr t \<Longrightarrow> coins t = coins s"
  by (auto simp: move_value_def dest!: coins_debit coins_credit)

lemma coins_commit: 
  assumes "commit_value_transfers s tid ts = Inr t" 
  shows "coins t = coins s"
proof -
  have "coins t = coins s" if "foldM move_value s ts = Inr t" for t
    using that by (rule foldM_invariant [where P = "\<lambda>u. coins u = coins s"]) (auto dest: coins_move_value)
  then show ?thesis using assms by (auto simp: commit_value_transfers_def split: if_splits)
qed

lemma get_balance_flush_scope [simp]: "get_balance (fst (flush_scope X acc scope)) = get_balance (fst acc)"
  by (auto simp: flush_scope_def Let_def split: prod.splits)

lemma get_balance_flush_scopes:
  "get_balance (fst (foldl (flush_scope X) acc scopes)) = get_balance (fst acc)"
  by (induction scopes arbitrary: acc) auto

lemma get_balance_flush [simp]: "get_balance (flush_storage_writes X s res tid) = get_balance s"
proof -
  obtain t undo where f: "foldl (flush_scope X) (s, []) (res_storage_overlay res) = (t, undo)" by force
  then have "get_balance t = get_balance s"
    using get_balance_flush_scopes [of X "(s, [])" "res_storage_overlay res"] by simp
  then show ?thesis by (simp add: flush_storage_writes_def f)
qed

lemma coins_flush [simp]: "coins (flush_storage_writes X s res tid) = coins s"
  by (rule coins_cong) simp

section \<open>The outcomes of a deployment and of a call\<close>

lemma receipt_of_simps [simp]:
  "rc_txid (from_execution tid h i res) = tid" "rc_status (from_execution tid h i res) = res_status res"
  "rc_txid (from_vm_error tid h i e g) = tid" "rc_status (from_vm_error tid h i e g) \<noteq> TxSuccess"
  "rc_txid (transfer_receipt X tx b j ts) = txid X tx"
  by (simp_all add: from_execution_def from_vm_error_def transfer_receipt_def split: vm_error.splits)

text \<open>The state a constructor runs on.\<close>

definition deployed :: "ext \<Rightarrow> state \<Rightarrow> create_tx \<Rightarrow> string \<Rightarrow> state" where
  "deployed X s c address =
     set_nonce (c_from c) (get_nonce s (c_from c) + 1)
       (set_account address (Contract \<lparr> code_hash = blake3 X (c_init_code c), storage_root = zero32,
          con_nonce = 1, con_balance = c_endowment c \<rparr>) s)"

lemma apply_createE [consumes 1, case_names failed success]:
  assumes "apply_create X V s c chain_id vm b i = Inr (t, vm', r)"
  obtains
    (failed) address where
      "derive_contract_address X (c_from c) (get_nonce s (c_from c)) chain_id = Inr address"
      and "\<not> account_is_contract s address" and "rc_txid r = txid X (Create c)" and "rc_status r \<noteq> TxSuccess"
      and "t = set_account address account_default (deployed X s c address)"
  | (success) address ctx res u where
      "derive_contract_address X (c_from c) (get_nonce s (c_from c)) chain_id = Inr address"
      and "\<not> account_is_contract s address" and "rc_txid r = txid X (Create c)" and "rc_status r = TxSuccess"
      and "vm_execute_constructor V vm' ctx = Inr res" and "res_status res = TxSuccess"
      and "debit (c_from c) (c_endowment c) (flush_storage_writes X (deployed X s c address) res (txid X (Create c))) = Inr u"
      and "commit_value_transfers u (txid X (Create c)) (res_value_transfers res) = Inr t"
proof -
  obtain address where addr: "derive_contract_address X (c_from c) (get_nonce s (c_from c)) chain_id = Inr address"
    using assms by (auto simp: apply_create_def Let_def)
  let ?s1 = "deployed X s c address" and ?tid = "txid X (Create c)"
  let ?ctx = "frame_context ?s1 b (c_from c) address (c_endowment c) (c_gas_limit c) (c_init_args c)"
  from assms addr have coll: "\<not> account_is_contract s address"
    and bal: "\<not> get_balance s (c_from c) < c_endowment c"
    by (auto simp: apply_create_def Let_def split: if_splits)
  from assms addr coll bal obtain vm1 where reg: "vm_register_code V vm address (c_init_code c) = Inr vm1"
    by (auto simp: apply_create_def Let_def split: sum.splits)
  note unf = apply_create_def Let_def addr coll bal reg deployed_def [symmetric]
  show thesis
  proof (cases "vm_execute_constructor V vm1 ?ctx")
    case (Inl e)
    with assms show thesis by (intro failed [OF addr coll]) (auto simp: unf)
  next
    case (Inr res)
    show thesis
    proof (cases "res_status res = TxSuccess")
      case False
      with assms Inr show thesis by (intro failed [OF addr coll]) (auto simp: unf)
    next
      case True
      with assms Inr obtain u where
        "debit (c_from c) (c_endowment c) (flush_storage_writes X ?s1 res ?tid) = Inr u"
        and "commit_value_transfers u ?tid (res_value_transfers res) = Inr t"
        and "vm' = vm1" and "rc_txid r = ?tid" and "rc_status r = TxSuccess"
        by (auto simp: unf)
      with Inr True show thesis by (intro success [OF addr coll]) auto
    qed
  qed
qed

lemma apply_callE [consumes 1, case_names plain failed success]:
  assumes "apply_call X V s b k vm i = Inr (t, r)"
  obtains
    (plain) ts where
      "ts = (if k_value k > 0 then [\<lparr> vt_from = k_from k, vt_to = k_to k, vt_amount = k_value k \<rparr>] else [])"
      and "rc_txid r = txid X (Call k)" and "rc_status r = TxSuccess"
      and "commit_value_transfers (set_nonce (k_from k) (get_nonce s (k_from k) + 1) s) (txid X (Call k)) ts = Inr t"
  | (failed) "rc_txid r = txid X (Call k)" and "rc_status r \<noteq> TxSuccess"
      and "t = set_nonce (k_from k) (get_nonce s (k_from k) + 1) s"
  | (success) ctx res u where "rc_txid r = txid X (Call k)" and "rc_status r = TxSuccess"
      and "vm_execute V vm ctx = Inr res" and "ctx_value ctx = k_value k" and "res_status res = TxSuccess"
      and "commit_value_transfers (set_nonce (k_from k) (get_nonce s (k_from k) + 1) s) (txid X (Call k))
             (res_value_transfers res) = Inr u"
      and "t = flush_storage_writes X u res (txid X (Call k))"
proof -
  let ?s1 = "set_nonce (k_from k) (get_nonce s (k_from k) + 1) s"
  let ?ctx = "frame_context ?s1 b (k_from k) (k_to k) (k_value k) (k_gas_limit k) (k_data k)"
  have bal: "\<not> get_balance s (k_from k) < k_value k" using assms by (auto simp: apply_call_def)
  note unf = apply_call_def Let_def bal
  show thesis
  proof (cases "account_is_contract ?s1 (k_to k)")
    case False
    with assms show thesis by (intro plain [OF refl]) (auto simp: unf)
  next
    case contract: True
    show thesis
    proof (cases "vm_execute V vm ?ctx")
      case (Inl e)
      with assms contract show thesis by (intro failed) (auto simp: unf)
    next
      case (Inr res)
      have "ctx_value ?ctx = k_value k" by (simp add: frame_context_def)
      with assms contract Inr show thesis
        by (cases "res_status res = TxSuccess") (auto simp: unf intro: failed success)
    qed
  qed
qed

section \<open>No block mints more than its reward\<close>

lemma coins_deployed:
  "coins (deployed X s c address) + unat (get_balance s address) = coins s + unat (c_endowment c)"
  using coins_set_account [of address _ s] by (simp add: deployed_def)

lemma coins_apply_create:
  assumes "apply_create X V s c chain_id vm b i = Inr (t, vm', r)"
  shows "\<exists>address. derive_contract_address X (c_from c) (get_nonce s (c_from c)) chain_id = Inr address
    \<and> coins t + unat (get_balance s address) = coins s"
  using assms
proof (cases rule: apply_createE)
  case (failed address)
  have "get_balance (deployed X s c address) address = c_endowment c" by (simp add: deployed_def)
  then have "coins t + unat (get_balance s address) = coins s"
    using coins_deployed [of X s c address] coins_set_account [of address account_default "deployed X s c address"]
    by (simp add: failed)
  with failed show ?thesis by blast
next
  case (success address ctx res u)
  have "coins t + unat (c_endowment c) = coins (deployed X s c address)"
    using coins_debit [OF success(7)] coins_commit [OF success(8)] by simp
  with coins_deployed [of X s c address] success show ?thesis by auto
qed

lemma coins_apply_call:
  assumes "apply_call X V s b k vm i = Inr (t, r)"
  shows "coins t = coins s"
  using assms by (cases rule: apply_callE) (auto dest!: coins_commit)

definition is_create :: "transaction \<Rightarrow> bool" where
  "is_create tx = (case tx of Create _ \<Rightarrow> True | _ \<Rightarrow> False)"

lemma coins_apply_tx:
  assumes "apply_tx X V b chain_id (s, vm, rs) (i, tx) = Inr (t, vm', rs')"
  shows "coins t \<le> coins s" and "\<not> is_create tx \<Longrightarrow> coins t = coins s"
proof -
  have "coins t \<le> coins s \<and> (\<not> is_create tx \<longrightarrow> coins t = coins s)"
  proof (cases tx)
    case (Transfer x)
    with assms show ?thesis
      by (auto simp: apply_tx_def deduct_sender_def credit_receiver_def increment_nonce_def
          split: if_splits dest!: coins_debit coins_credit)
  next
    case (Create c)
    with assms show ?thesis
      by (auto simp: apply_tx_def is_create_def split: if_splits option.splits dest!: coins_apply_create)
  next
    case (Call k)
    with assms show ?thesis
      by (auto simp: apply_tx_def split: if_splits option.splits dest!: coins_apply_call)
  qed
  then show "coins t \<le> coins s" and "\<not> is_create tx \<Longrightarrow> coins t = coins s" by auto
qed

lemma coins_apply_txs:
  assumes "foldM (apply_tx X V b chain_id) (s, vm, rs) itxs = Inr (t, vm', rs')"
  shows "coins t \<le> coins s" and "list_all (\<lambda>(_, tx). \<not> is_create tx) itxs \<Longrightarrow> coins t = coins s"
proof -
  have "coins (fst (t, vm', rs')) \<le> coins s"
    using assms
  proof (rule foldM_invariant [where P = "\<lambda>u. coins (fst u) \<le> coins s"])
    fix u itx v assume "coins (fst u) \<le> coins s" and "apply_tx X V b chain_id u itx = Inr v"
    then show "coins (fst v) \<le> coins s"
      by (cases u; cases itx; cases v) (auto dest: coins_apply_tx(1))
  qed simp
  then show "coins t \<le> coins s" by simp
  assume no: "list_all (\<lambda>(_, tx). \<not> is_create tx) itxs"
  have "coins (fst (t, vm', rs')) = coins s"
    using assms
  proof (rule foldM_invariant [where P = "\<lambda>u. coins (fst u) = coins s"])
    fix u itx v
    assume "itx \<in> set itxs" and "coins (fst u) = coins s" and "apply_tx X V b chain_id u itx = Inr v"
    with no show "coins (fst v) = coins s"
      by (cases u; cases itx; cases v) (auto simp: list_all_iff dest: coins_apply_tx(2))
  qed simp
  then show "coins t = coins s" by simp
qed

lemma position_SomeD: "position P xs = Some i \<Longrightarrow> i < length xs \<and> P (xs ! i) \<and> (\<forall>j<i. \<not> P (xs ! j))"
proof (induction xs arbitrary: i)
  case (Cons x xs)
  show ?case
  proof (cases "P x")
    case False
    with Cons.prems obtain k where "position P xs = Some k" "i = Suc k" by auto
    with Cons.IH [of k] False show ?thesis by (auto simp: less_Suc_eq_0_disj)
  qed (use Cons.prems in auto)
qed simp

abbreviation expected_reward :: "state \<Rightarrow> block \<Rightarrow> u32 \<Rightarrow> u64" where
  "expected_reward s b chain_id \<equiv> block_reward_at_height_for_chain (blk_index b) (total_supply s) chain_id"

lemma apply_non_genesisE:
  assumes "apply_non_genesis X V s b chain_id vm = Inr (t, vm', rs)"
  obtains ci cb u where
    "position tx_is_coinbase (blk_transactions b) = Some ci" and "blk_transactions b ! ci = Transfer cb"
    and "t_is_coinbase cb" and "t_amount cb \<le> expected_reward s b chain_id"
    and "\<forall>tx\<in>set (blk_transactions b). tx_chain_id tx = chain_id"
    and "credit_receiver s cb = Inr u"
    and "foldM (apply_tx X V b chain_id) (u, vm, [transfer_receipt X (Transfer cb) b (of_nat ci) []])
           (enumerate 0 (blk_transactions b)) = Inr (t, vm', rs)"
proof -
  from assms obtain ci where ci: "position tx_is_coinbase (blk_transactions b) = Some ci"
    and ids: "foldM (\<lambda>_ tx. validate_tx_chain_id tx chain_id) () (blk_transactions b) = Inr ()"
    by (auto simp: apply_non_genesis_def Let_def split: option.splits)
  have "\<forall>tx\<in>set txs. tx_chain_id tx = chain_id"
    if "foldM (\<lambda>_ tx. validate_tx_chain_id tx chain_id) () txs = Inr ()" for txs
    using that by (induction txs) (auto simp: validate_tx_chain_id_def split: if_splits)
  note ids' = this [OF ids]
  from assms ci ids obtain cb where cb: "blk_transactions b ! ci = Transfer cb"
    by (auto simp: apply_non_genesis_def Let_def split: transaction.splits)
  have "t_is_coinbase cb" using position_SomeD [OF ci] cb by simp
  moreover from assms ci ids cb have "t_amount cb \<le> expected_reward s b chain_id"
    by (auto simp: apply_non_genesis_def Let_def split: if_splits)
  moreover from this assms ci ids cb obtain u where "credit_receiver s cb = Inr u"
    and "foldM (apply_tx X V b chain_id) (u, vm, [transfer_receipt X (Transfer cb) b (of_nat ci) []])
           (enumerate 0 (blk_transactions b)) = Inr (t, vm', rs)"
    by (auto simp: apply_non_genesis_def Let_def split: if_splits)
  ultimately show thesis using that [OF ci cb] ids' by blast
qed

theorem coins_apply_non_genesis:
  assumes "apply_non_genesis X V s b chain_id vm = Inr (t, vm', rs)"
  shows "\<exists>cb. Transfer cb \<in> set (blk_transactions b) \<and> t_is_coinbase cb
    \<and> t_amount cb \<le> expected_reward s b chain_id
    \<and> coins t \<le> coins s + unat (t_amount cb)
    \<and> (list_all (\<lambda>tx. \<not> is_create tx) (blk_transactions b) \<longrightarrow> coins t = coins s + unat (t_amount cb))"
  using assms
proof (rule apply_non_genesisE)
  fix ci cb u
  assume p: "position tx_is_coinbase (blk_transactions b) = Some ci" "blk_transactions b ! ci = Transfer cb"
    and cb: "t_is_coinbase cb" "t_amount cb \<le> expected_reward s b chain_id"
    and cr: "credit_receiver s cb = Inr u"
    and fold: "foldM (apply_tx X V b chain_id) (u, vm, [transfer_receipt X (Transfer cb) b (of_nat ci) []])
           (enumerate 0 (blk_transactions b)) = Inr (t, vm', rs)"
  have "coins u = coins s + unat (t_amount cb)" using cr by (simp add: credit_receiver_def coins_credit)
  moreover have "Transfer cb \<in> set (blk_transactions b)" using position_SomeD [OF p(1)] p(2) by (metis nth_mem)
  moreover have "list_all (\<lambda>(_, tx). \<not> is_create tx) (enumerate 0 (blk_transactions b))"
    if "list_all (\<lambda>tx. \<not> is_create tx) (blk_transactions b)"
    using that by (auto simp: list_all_iff in_set_enumerate_eq)
  ultimately show ?thesis using cb coins_apply_txs [OF fold] by (intro exI [of _ cb]) auto
qed

lemma coins_apply_block_inner:
  assumes "apply_block_inner X V s b chain_id vm = Inr (t, vm')" and "blk_index b \<noteq> 0"
  shows "coins t \<le> coins s + unat (expected_reward s b chain_id)"
proof -
  from assms obtain u rs where u: "apply_non_genesis X V (s\<lparr>st_receipts := []\<rparr>) b chain_id vm = Inr (u, vm', rs)"
    and t: "t = u\<lparr>st_receipts := rs\<rparr>"
    by (auto simp: apply_block_inner_def Let_def split: prod.splits)
  from coins_apply_non_genesis [OF u] show ?thesis
    by (auto simp: t total_supply_coins word_le_nat_alt)
qed

section \<open>Genesis\<close>

definition tx_amounts :: "transaction list \<Rightarrow> nat" where
  "tx_amounts txs = sum_list (map (\<lambda>tx. case tx of Transfer t \<Rightarrow> unat (t_amount t) | _ \<Rightarrow> 0) txs)"

lemma coins_apply_genesis:
  assumes "apply_genesis X s b chain_id = Inr (t, rs)"
  shows "coins t = coins s + tx_amounts (blk_transactions b)"
proof -
  have "foldM (apply_genesis_tx X b chain_id) (s, rs0) (enumerate n txs) = Inr (t, rs) \<Longrightarrow>
      coins t = coins s + tx_amounts txs" for s rs0 n txs
  proof (induction txs arbitrary: s rs0 n)
    case (Cons tx txs)
    from Cons.prems obtain s1 rs1 where
      tx: "apply_genesis_tx X b chain_id (s, rs0) (n, tx) = Inr (s1, rs1)"
      and rest: "foldM (apply_genesis_tx X b chain_id) (s1, rs1) (enumerate (Suc n) txs) = Inr (t, rs)"
      by auto
    obtain y where "tx = Transfer y" and "credit_receiver s y = Inr s1"
      using tx by (auto simp: apply_genesis_tx_def split: transaction.splits)
    then show ?case
      using Cons.IH [OF rest] by (simp add: tx_amounts_def credit_receiver_def coins_credit)
  qed (simp add: tx_amounts_def)
  then show ?thesis using assms by (simp add: apply_genesis_def)
qed

section \<open>The supply of a chain\<close>

text \<open>Applying a run of blocks, each with the executor built for it.\<close>

definition apply_blocks ::
  "ext \<Rightarrow> 'v vm_executor \<Rightarrow> u32 \<Rightarrow> state \<Rightarrow> (block \<times> 'v option) list \<Rightarrow> core_error + state" where
  "apply_blocks X V chain_id s bvs =
     foldM (\<lambda>s (b, vm). bind_res (apply_block_inner X V s b chain_id vm) (\<lambda>(s, _). Inr s)) s bvs"

lemma tail_reward_le: "unat (calculate_tail_reward (of_nat n)) \<le> n * 6 div 52560000"
proof -
  have "(of_nat n :: u64) * 6 = of_nat (n * 6)" by simp
  then have "unat ((of_nat n :: u64) * 6) \<le> n * 6" by (simp only: unat_of_nat) (rule mod_less_eq_dividend)
  then show ?thesis
    by (simp add: calculate_tail_reward_def emission_consts unat_div div_le_mono)
qed

lemma reward_le:
  "unat (block_reward_at_height_for_chain h (of_nat n) chain_id) \<le> unat (halving_schedule h) + n * 6 div 52560000"
  using tail_reward_le [of n]
  by (auto simp: block_reward_at_height_for_chain_def REGTEST_REWARD_def max_def)

lemma growth_step:
  fixes c c' d e h H n :: nat
  assumes "c' \<le> c + (h + c * 6 div d)" and "c * d ^ n \<le> H * e ^ n" and e: "e = d + 6"
  shows "c' * d ^ Suc n \<le> (H + h) * e ^ Suc n"
proof -
  have "c' * d \<le> c * d + h * d + c * 6 div d * d" using assms(1) mult_le_mono1 [of c' _ d] by (fastforce simp: algebra_simps)
  also have "\<dots> \<le> c * e + h * d" by (simp add: e algebra_simps)
  finally have "c' * d ^ Suc n \<le> (c * e + h * d) * d ^ n"
    using mult_le_mono1 [of "c' * d" _ "d ^ n"] by (simp add: mult.assoc)
  also have "\<dots> = e * (c * d ^ n) + h * d ^ Suc n" by (simp add: algebra_simps)
  also have "\<dots> \<le> e * (H * e ^ n) + h * e ^ Suc n"
    by (intro add_mono mult_le_mono order.refl assms(2) power_mono) (simp_all add: e)
  finally show ?thesis by (simp add: algebra_simps)
qed

lemma apply_blocks_snoc:
  "apply_blocks X V chain_id s (bvs @ [(b, vm)]) = Inr t \<longleftrightarrow>
     (\<exists>u vm'. apply_blocks X V chain_id s bvs = Inr u \<and> apply_block_inner X V u b chain_id vm = Inr (t, vm'))"
  by (auto simp: apply_blocks_def foldM_append bind_res_Inr_iff split: prod.splits)

theorem coins_apply_blocks:
  assumes "apply_blocks X V chain_id s bvs = Inr t"
    and "\<And>i. i < length bvs \<Longrightarrow> blk_index (fst (bvs ! i)) = of_nat (i + 1)" and "length bvs < 2 ^ 64"
  shows "coins t * 52560000 ^ length bvs
    \<le> (coins s + (\<Sum>h<length bvs. unat (halving_schedule (of_nat (h + 1))))) * 52560006 ^ length bvs"
  using assms
proof (induction bvs arbitrary: t rule: rev_induct)
  case Nil
  then show ?case by (simp add: apply_blocks_def)
next
  case (snoc bv bvs)
  obtain b vm where bv: "bv = (b, vm)" by force
  from snoc.prems(1) obtain u vm' where u: "apply_blocks X V chain_id s bvs = Inr u"
    and t: "apply_block_inner X V u b chain_id vm = Inr (t, vm')" by (auto simp: bv apply_blocks_snoc)
  have IH: "coins u * 52560000 ^ length bvs
      \<le> (coins s + (\<Sum>h<length bvs. unat (halving_schedule (of_nat (h + 1))))) * 52560006 ^ length bvs"
  proof (rule snoc.IH [OF u])
    fix i assume "i < length bvs"
    then show "blk_index (fst (bvs ! i)) = of_nat (i + 1)" using snoc.prems(2) [of i] by (simp add: nth_append)
  qed (use snoc.prems(3) in simp)
  have idx: "blk_index b = of_nat (length bvs + 1)" using snoc.prems(2) [of "length bvs"] by (simp add: bv)
  have "unat (of_nat (length bvs + 1) :: u64) = length bvs + 1"
    using snoc.prems(3) by (subst unat_of_nat) (simp add: bv)
  then have "blk_index b \<noteq> 0" unfolding idx by (metis add_is_0 one_neq_zero unat_0)
  note step = coins_apply_block_inner [OF t this]
  have "coins t \<le> coins u + (unat (halving_schedule (of_nat (length bvs + 1))) + coins u * 6 div 52560000)"
    using step reward_le [of "blk_index b" "coins u" chain_id] by (simp add: total_supply_coins idx)
  from growth_step [OF this IH] show ?case
    by (simp add: bv add.assoc)
qed

end
