(* ===== verification/Sc_Undo.thy ===== *)
theory Sc_Undo
  imports Sc_Ledger
begin

text \<open>
  Invariant and reversal of the state transition of \<open>inner.rs\<close>. Every block keeps the state well
  formed: no empty account, every contract's \<open>storage_root\<close> is the root of its storage. Unapplying a
  block that was applied to a well-formed state gives that state back, for transfers, deployments and
  calls, successful or not.
\<close>

section \<open>Well-formed states\<close>

definition stored_root :: "ext \<Rightarrow> state \<Rightarrow> string \<Rightarrow> bytes" where
  "stored_root X s addr =
     (case fmlookup (st_storage s) addr of Some st \<Rightarrow> contract_storage_root X st | None \<Rightarrow> zero32)"

definition wf_storage :: "ext \<Rightarrow> state \<Rightarrow> bool" where
  "wf_storage X s \<longleftrightarrow>
     (\<forall>addr st. fmlookup (st_storage s) addr = Some st \<longrightarrow> st \<noteq> fmempty \<and> contract_view s addr \<noteq> None)
     \<and> (\<forall>addr ch r. contract_view s addr = Some (ch, r) \<longrightarrow> r = stored_root X s addr)"

definition wf_state :: "ext \<Rightarrow> state \<Rightarrow> bool" where
  "wf_state X s \<longleftrightarrow> clean s \<and> wf_storage X s"

lemma wf_storageD:
  assumes "wf_storage X s"
  shows "fmlookup (st_storage s) addr = Some st \<Longrightarrow> st \<noteq> fmempty"
    and "fmlookup (st_storage s) addr = Some st \<Longrightarrow> contract_view s addr \<noteq> None"
    and "contract_view s addr = Some (ch, r) \<Longrightarrow> r = stored_root X s addr"
  using assms by (auto simp: wf_storage_def)

lemma wf_clean: "wf_state X s \<Longrightarrow> clean s"
  by (simp add: wf_state_def)

lemma wf_storage_cong:
  assumes "st_storage t = st_storage s" and "contract_view t = contract_view s"
  shows "wf_storage X t = wf_storage X s"
  by (simp add: wf_storage_def stored_root_def assms)

lemma wf_state_new: "wf_state X state_new"
  by (simp add: wf_state_def wf_storage_def clean_def state_new_def contract_view_def)

lemma wf_state_receipts [simp]: "wf_state X (s\<lparr>st_receipts := rs\<rparr>) = wf_state X s"
  by (simp add: wf_state_def wf_storage_def stored_root_def)

section \<open>What the moves of value leave alone\<close>

text \<open>The state \<open>t\<close> differs from \<open>s\<close> in balances only.\<close>

definition balance_step :: "state \<Rightarrow> state \<Rightarrow> bool" where
  "balance_step s t \<longleftrightarrow> clean t \<and> get_nonce t = get_nonce s \<and> contract_view t = contract_view s
     \<and> st_storage t = st_storage s \<and> st_receipts t = st_receipts s \<and> storage_undo t = storage_undo s
     \<and> value_transfers_undo t = value_transfers_undo s"

lemma balance_step_refl [simp]: "balance_step s s \<longleftrightarrow> clean s"
  by (simp add: balance_step_def)

lemma balance_step_trans: "balance_step s t \<Longrightarrow> balance_step t u \<Longrightarrow> balance_step s u"
  by (simp add: balance_step_def)

lemma balance_step_clean: "balance_step s t \<Longrightarrow> clean t"
  by (simp add: balance_step_def)

lemma balance_step_set [simp]: "clean s \<Longrightarrow> balance_step s (set_balance addr b s)"
  by (simp add: balance_step_def)

lemma balance_step_debit: "clean s \<Longrightarrow> debit addr v s = Inr t \<Longrightarrow> balance_step s t"
  by (auto simp: debit_Inr)

lemma balance_step_credit: "clean s \<Longrightarrow> credit addr v s = Inr t \<Longrightarrow> balance_step s t"
  by (auto simp: credit_Inr)

lemma balance_step_move: "clean s \<Longrightarrow> move_value s v = Inr t \<Longrightarrow> balance_step s t"
  by (auto simp: move_value_def intro: balance_step_trans balance_step_clean
      dest!: balance_step_debit balance_step_credit [rotated])

lemma balance_step_unmove: "clean s \<Longrightarrow> unmove_value s v = Inr t \<Longrightarrow> balance_step s t"
  by (auto simp: unmove_value_def intro: balance_step_trans balance_step_clean
      dest!: balance_step_debit balance_step_credit [rotated])

lemma balance_step_moves:
  assumes "clean s"
  shows "foldM move_value s ts = Inr t \<Longrightarrow> balance_step s t"
    and "foldM unmove_value s ts = Inr t \<Longrightarrow> balance_step s t"
proof -
  show "balance_step s t" if "foldM move_value s ts = Inr t"
    using that by (rule foldM_invariant [where P = "balance_step s"])
      (auto simp: assms intro: balance_step_trans balance_step_move balance_step_clean)
  show "balance_step s t" if "foldM unmove_value s ts = Inr t"
    using that by (rule foldM_invariant [where P = "balance_step s"])
      (auto simp: assms intro: balance_step_trans balance_step_unmove balance_step_clean)
qed

lemma balance_step_wf: "balance_step s t \<Longrightarrow> wf_state X s \<Longrightarrow> wf_state X t"
  using wf_storage_cong [of t s X] by (simp add: balance_step_def wf_state_def)

section \<open>Reversing moves of value\<close>

lemma credit_debit:
  assumes "debit addr v s = Inr t" and "get_balance t' = get_balance t"
  shows "\<exists>u. credit addr v t' = Inr u \<and> get_balance u = get_balance s"
  using assms by (auto simp: debit_Inr credit_Inr dest!: checked_add_sub)

lemma debit_credit:
  assumes "credit addr v s = Inr t" and "get_balance t' = get_balance t"
  shows "\<exists>u. debit addr v t' = Inr u \<and> get_balance u = get_balance s"
  using assms by (auto simp: debit_Inr credit_Inr dest!: checked_sub_add)

lemma unmove_move:
  assumes "move_value s v = Inr t" and "get_balance t' = get_balance t"
  shows "\<exists>u. unmove_value t' v = Inr u \<and> get_balance u = get_balance s"
proof -
  from assms(1) obtain s1 where d: "debit (vt_from v) (vt_amount v) s = Inr s1"
    and c: "credit (vt_to v) (vt_amount v) s1 = Inr t" by (auto simp: move_value_def)
  from debit_credit [OF c assms(2)] obtain u1 where
    u1: "debit (vt_to v) (vt_amount v) t' = Inr u1" "get_balance u1 = get_balance s1" by blast
  from credit_debit [OF d u1(2)] u1(1) show ?thesis by (auto simp: unmove_value_def)
qed

lemma reverse_moves:
  assumes "foldM move_value s ts = Inr t" and "get_balance t' = get_balance t"
  shows "\<exists>u. reverse_value_transfers t' ts = Inr u \<and> get_balance u = get_balance s"
  using assms
proof (induction ts arbitrary: s)
  case (Cons v ts)
  from Cons.prems(1) obtain s1 where m: "move_value s v = Inr s1" and r: "foldM move_value s1 ts = Inr t" by auto
  from Cons.IH [OF r Cons.prems(2)] obtain u1 where
    u1: "reverse_value_transfers t' ts = Inr u1" "get_balance u1 = get_balance s1" by blast
  from unmove_move [OF m u1(2)] u1(1) show ?case
    by (auto simp: reverse_value_transfers_def foldM_append)
qed (simp add: reverse_value_transfers_def)

text \<open>Two clean states with the same views and the same other fields are equal.\<close>

lemma state_eqI:
  assumes "clean s" and "clean t" and "get_balance s = get_balance t" and "get_nonce s = get_nonce t"
    and "contract_view s = contract_view t" and "st_storage s = st_storage t" and "st_receipts s = st_receipts t"
    and "storage_undo s = storage_undo t" and "value_transfers_undo s = value_transfers_undo t"
  shows "s = t"
  using balances_eqI [OF assms(1-5)] assms(6-9) by (cases s; cases t) simp

section \<open>Flushing storage writes\<close>

lemma lookup_put_slots:
  "fmlookup (foldl put_slot st (map (\<lambda>(k, _). (k, f k)) ws)) k =
     (if k \<in> fst ` set ws then f k else fmlookup st k)"
  by (induction ws arbitrary: st) (auto simp: put_slot_def split: option.splits)

lemma lookup_apply_to:
  "k \<notin> fst ` set ws \<Longrightarrow> fmlookup (apply_to (from_writes ws) st) k = fmlookup st k"
  unfolding apply_to_def from_writes_def
  by (induction ws arbitrary: st) (auto simp: put_slot_def)

text \<open>The writes of a scope are undone by its pre-images, whatever their order.\<close>

lemma put_preimages:
  "foldl put_slot (apply_to (from_writes ws) st) (map (\<lambda>(k, _). (k, fmlookup st k)) ws) = st"
  by (rule fmap_ext) (auto simp: lookup_put_slots lookup_apply_to)

lemma apply_to_nonempty: "ws \<noteq> [] \<Longrightarrow> apply_to (from_writes ws) st \<noteq> fmempty"
  unfolding apply_to_def from_writes_def
proof (induction ws arbitrary: st rule: rev_induct)
  case (snoc w ws)
  obtain k v where w: "w = (k, v)" by force
  have "fmlookup (foldl put_slot st (map (\<lambda>(key, value). (key, Some value)) (ws @ [w]))) k = Some v"
    by (simp add: w put_slot_def)
  then show ?case by (metis fmempty_lookup option.distinct(1))
qed simp

text \<open>What a flush does at each address, and the undo record it leaves.\<close>

definition scope_active :: "state \<Rightarrow> string \<times> (bytes \<times> bytes) list \<Rightarrow> bool" where
  "scope_active s scope \<longleftrightarrow> snd scope \<noteq> [] \<and> contract_view s (fst scope) \<noteq> None"

definition scope_undo :: "state \<Rightarrow> string \<times> (bytes \<times> bytes) list \<Rightarrow> storage_undo_entry list" where
  "scope_undo s scope =
     (if scope_active s scope
      then map (\<lambda>(k, _). (fst scope, k, fmlookup (storage_of s (fst scope)) k)) (snd scope) else [])"

lemma flush_scope_view:
  "flush_scope X (s, undo) (a, ws) =
     (if scope_active s (a, ws)
      then (set_storage_root a (contract_storage_root X (apply_to (from_writes ws) (storage_of s a)))
              (s\<lparr>st_storage := fmupd a (apply_to (from_writes ws) (storage_of s a)) (st_storage s)\<rparr>),
            undo @ scope_undo s (a, ws))
      else (s, undo))"
  by (auto simp: flush_scope_def scope_active_def scope_undo_def account_is_contract_view Let_def
      preimages_of_def from_writes_def comp_def case_prod_unfold)

text \<open>The state \<open>t\<close> differs from \<open>s\<close> in storage and storage roots only.\<close>

definition storage_step :: "state \<Rightarrow> state \<Rightarrow> bool" where
  "storage_step s t \<longleftrightarrow> (clean s \<longrightarrow> clean t) \<and> get_balance t = get_balance s \<and> get_nonce t = get_nonce s
     \<and> st_receipts t = st_receipts s \<and> storage_undo t = storage_undo s
     \<and> value_transfers_undo t = value_transfers_undo s"

lemma storage_step_refl [simp]: "storage_step s s"
  by (simp add: storage_step_def)

lemma storage_step_trans: "storage_step s t \<Longrightarrow> storage_step t u \<Longrightarrow> storage_step s u"
  by (simp add: storage_step_def)

lemma storage_step_set [simp]:
  "storage_step s (set_storage_root a r (s\<lparr>st_storage := m\<rparr>))" "storage_step s (set_storage_root a r s)"
  "storage_step s (s\<lparr>st_storage := m\<rparr>)"
  by (simp_all add: storage_step_def)

lemma storage_step_flush_scope: "storage_step s (fst (flush_scope X (s, undo) scope))"
  by (cases scope) (simp add: flush_scope_view)

lemma storage_step_flush_scopes: "storage_step s (fst (foldl (flush_scope X) (s, undo) scopes))"
proof (induction scopes arbitrary: s undo)
  case (Cons sc scopes)
  obtain s1 u1 where f: "flush_scope X (s, undo) sc = (s1, u1)" by force
  with storage_step_flush_scope [of s X undo sc] have "storage_step s s1" by simp
  with Cons [of s1 u1] show ?case by (auto simp: f intro: storage_step_trans)
qed simp

lemma contract_view_root_update:
  "contract_view s a \<noteq> None \<Longrightarrow>
   contract_view (set_storage_root a r s) = (contract_view s)(a \<mapsto> (fst (the (contract_view s a)), r))"
  by (auto simp: contract_view_set_storage_root)

lemma flush_scopes_spec:
  assumes "foldl (flush_scope X) (s, undo) scopes = (t, undo')" and "distinct (map fst scopes)"
  shows "fmlookup (st_storage t) a =
           (case map_of scopes a of
              Some ws \<Rightarrow> if scope_active s (a, ws) then Some (apply_to (from_writes ws) (storage_of s a))
                        else fmlookup (st_storage s) a
            | None \<Rightarrow> fmlookup (st_storage s) a)" (is ?storage)
    and "map_option fst (contract_view t a) = map_option fst (contract_view s a)" (is ?code)
    and "a \<notin> fst ` set (filter (scope_active s) scopes) \<Longrightarrow> contract_view t a = contract_view s a" (is "_ \<Longrightarrow> ?view")
    and "undo' = undo @ concat (map (scope_undo s) scopes)" (is ?undo)
proof -
  have "?storage \<and> ?code \<and> (a \<notin> fst ` set (filter (scope_active s) scopes) \<longrightarrow> ?view) \<and> ?undo"
    using assms
  proof (induction scopes arbitrary: s undo)
    case (Cons sc scopes)
    obtain b ws where sc: "sc = (b, ws)" by force
    obtain s1 u1 where f: "flush_scope X (s, undo) sc = (s1, u1)" by force
    have rest: "foldl (flush_scope X) (s1, u1) scopes = (t, undo')" and dist: "distinct (map fst scopes)"
      and new: "b \<notin> fst ` set scopes" using Cons.prems by (simp_all add: f [unfolded sc] sc)
    note IH = Cons.IH [OF rest dist]
    have none: "map_of scopes b = None" using new by (simp add: map_of_eq_None_iff)
    have view: "contract_view s1 x = contract_view s x" and stor: "fmlookup (st_storage s1) x = fmlookup (st_storage s) x"
      if "x \<noteq> b" for x
      using f that by (auto simp: sc flush_scope_view scope_active_def contract_view_root_update split: if_splits)
    have code: "map_option fst (contract_view s1 x) = map_option fst (contract_view s x)" for x
      using f by (cases "x = b") (auto simp: sc flush_scope_view scope_active_def contract_view_root_update split: if_splits)
    have act: "scope_active s1 (x, w) = scope_active s (x, w)" and so: "storage_of s1 x = storage_of s x"
      and un: "scope_undo s1 (x, w) = scope_undo s (x, w)" if "x \<noteq> b" for x w
      using view [OF that] stor [OF that] by (auto simp: scope_active_def scope_undo_def storage_of_def)
    have ne: "x \<noteq> b" if "(x, w) \<in> set scopes" for x w using new that by force
    have "concat (map (scope_undo s1) scopes) = concat (map (scope_undo s) scopes)"
      using un ne by (intro arg_cong [where f = concat] map_cong) auto
    moreover have "u1 = undo @ scope_undo s sc" using f by (auto simp: sc flush_scope_view scope_undo_def split: if_splits)
    moreover have "fst ` set (filter (scope_active s1) scopes) = fst ` set (filter (scope_active s) scopes)"
      using ne act by (intro arg_cong [where f = "image fst"]) auto
    moreover have "fmlookup (st_storage s1) b = (if scope_active s sc then Some (apply_to (from_writes ws) (storage_of s b))
        else fmlookup (st_storage s) b)" and "\<not> scope_active s sc \<Longrightarrow> contract_view s1 b = contract_view s b"
      using f by (auto simp: sc flush_scope_view split: if_splits)
    ultimately show ?case
      using IH view [of a] stor [of a] act [of a] so [of a] code [of a] none
      by (cases "a = b") (auto simp: sc split: option.splits)
  qed simp
  then show ?storage and ?code and ?undo
    and "a \<notin> fst ` set (filter (scope_active s) scopes) \<Longrightarrow> ?view" by blast+
qed

section \<open>Restoring storage\<close>

lemma storage_step_restore: "storage_step s (foldl restore_slot s es)"
proof (induction es arbitrary: s)
  case (Cons e es)
  have "storage_step s (restore_slot s e)" by (simp add: restore_slot_def split: prod.splits)
  with Cons [of "restore_slot s e"] show ?case by (auto intro: storage_step_trans)
qed simp

lemma storage_of_restore:
  "storage_of (foldl restore_slot s es) a = foldl put_slot (storage_of s a) (map snd (filter (\<lambda>e. fst e = a) es))"
  by (induction es arbitrary: s) (auto simp: restore_slot_def storage_of_def split: prod.splits)

lemma restore_spec:
  "contract_view (foldl restore_slot s es) = contract_view s"
  "a \<notin> fst ` set es \<Longrightarrow> fmlookup (st_storage (foldl restore_slot s es)) a = fmlookup (st_storage s) a"
  "a \<in> fst ` set es \<Longrightarrow> fmlookup (st_storage (foldl restore_slot s es)) a \<noteq> None"
proof -
  have mono: "fmlookup (st_storage s) a \<noteq> None \<Longrightarrow> fmlookup (st_storage (foldl restore_slot s es)) a \<noteq> None" for s es
    by (induction es arbitrary: s) (auto simp: restore_slot_def split: prod.splits)
  show "contract_view (foldl restore_slot s es) = contract_view s"
    by (induction es arbitrary: s) (auto simp: restore_slot_def split: prod.splits)
  show "a \<notin> fst ` set es \<Longrightarrow> fmlookup (st_storage (foldl restore_slot s es)) a = fmlookup (st_storage s) a"
    by (induction es arbitrary: s) (auto simp: restore_slot_def split: prod.splits)
  show "a \<in> fst ` set es \<Longrightarrow> fmlookup (st_storage (foldl restore_slot s es)) a \<noteq> None"
  proof (induction es arbitrary: s)
    case (Cons e es)
    have "fmlookup (st_storage (restore_slot s e)) (fst e) \<noteq> None" by (auto simp: restore_slot_def split: prod.splits)
    with Cons mono [of "restore_slot s e" es] show ?case by auto
  qed simp
qed

definition drop_empty :: "contract_storage option \<Rightarrow> contract_storage option" where
  "drop_empty st = (if st = Some fmempty then None else st)"

definition root_of :: "ext \<Rightarrow> contract_storage option \<Rightarrow> bytes" where
  "root_of X st = (case st of Some m \<Rightarrow> contract_storage_root X m | None \<Rightarrow> zero32)"

lemma refresh_root_view:
  "fmlookup (st_storage (refresh_root X s a)) x =
     (if x = a then drop_empty (fmlookup (st_storage s) a) else fmlookup (st_storage s) x)"
  "contract_view (refresh_root X s a) x =
     (if x = a then map_option (\<lambda>(ch, _). (ch, root_of X (drop_empty (fmlookup (st_storage s) a)))) (contract_view s a)
      else contract_view s x)"
  by (auto simp: refresh_root_def Let_def drop_empty_def root_of_def contract_view_set_storage_root
      split: option.splits prod.splits)

lemma storage_step_refresh_root: "storage_step s (refresh_root X s a)"
  by (simp add: refresh_root_def Let_def)

lemma storage_step_refresh: "storage_step s (foldl (refresh_root X) s as)"
  by (induction as arbitrary: s) (auto intro: storage_step_trans storage_step_refresh_root)

lemma refresh_spec:
  assumes "distinct as"
  shows "fmlookup (st_storage (foldl (refresh_root X) s as)) a =
      (if a \<in> set as then drop_empty (fmlookup (st_storage s) a) else fmlookup (st_storage s) a)"
    and "contract_view (foldl (refresh_root X) s as) a =
      (if a \<in> set as
       then map_option (\<lambda>(ch, _). (ch, root_of X (drop_empty (fmlookup (st_storage s) a)))) (contract_view s a)
       else contract_view s a)"
  using assms by (induction as arbitrary: s) (auto simp: refresh_root_view)

lemma filter_scope_undo:
  assumes "distinct (map fst scopes)"
  shows "filter (\<lambda>e. fst e = a) (concat (map (scope_undo s) scopes)) =
    (case map_of scopes a of Some ws \<Rightarrow> scope_undo s (a, ws) | None \<Rightarrow> [])"
  using assms
proof (induction scopes)
  case (Cons sc scopes)
  have one: "filter (\<lambda>e. fst e = a) (scope_undo s sc) = (if fst sc = a then scope_undo s sc else [])"
    by (auto simp: scope_undo_def filter_empty_conv intro!: filter_True)
  have "map_of scopes a = None" if "fst sc = a" using Cons.prems that by (auto simp: map_of_eq_None_iff)
  with Cons one show ?case by (cases sc) auto
qed simp

lemma scope_undo_addresses:
  "fst ` set (concat (map (scope_undo s) scopes)) = fst ` set (filter (scope_active s) scopes)"
proof -
  have "fst ` set (scope_undo s sc) = (if scope_active s sc then {fst sc} else {})" for sc
    by (simp add: scope_undo_def scope_active_def image_image case_prod_unfold image_constant_conv)
  then have "fst ` set (concat (map (scope_undo s) scopes)) = (\<Union>sc\<in>set scopes. if scope_active s sc then {fst sc} else {})"
    by (simp add: image_UN)
  then show ?thesis by auto
qed

text \<open>The second half of the reversal: restoring the pre-images of a flush and refreshing the roots
  gives the storage and the contract data from before the flush.\<close>

lemma unflush:
  assumes wf: "wf_storage X s" and dist: "distinct (map fst scopes)"
    and flush: "foldl (flush_scope X) (s, []) scopes = (t, undo)"
    and t': "st_storage t' = st_storage t" "contract_view t' = contract_view t"
  defines "r \<equiv> foldl (refresh_root X) (foldl restore_slot t' undo) (remdups (map fst undo))"
  shows "st_storage r = st_storage s" and "contract_view r = contract_view s"
proof -
  note spec = flush_scopes_spec [OF flush dist]
  have undo: "undo = concat (map (scope_undo s) scopes)" using spec(4) by simp
  have touched: "set (remdups (map fst undo)) = fst ` set (filter (scope_active s) scopes)"
    unfolding undo set_remdups list.set_map by (rule scope_undo_addresses)
  let ?m = "foldl restore_slot t' undo"
  note refresh = refresh_spec [of "remdups (map fst undo)", OF distinct_remdups, of X ?m, folded r_def]
  have "fmlookup (st_storage r) a = fmlookup (st_storage s) a \<and> contract_view r a = contract_view s a" for a
  proof (cases "a \<in> fst ` set (filter (scope_active s) scopes)")
    case False
    then have nu: "a \<notin> fst ` set undo" unfolding undo using scope_undo_addresses by metis
    have na: "\<not> scope_active s (a, ws)" if "map_of scopes a = Some ws" for ws
      using False map_of_SomeD [OF that] by force
    have "fmlookup (st_storage ?m) a = fmlookup (st_storage s) a"
      using restore_spec(2) [OF nu, of t'] spec(1) [of a] na by (auto simp: t' split: option.splits)
    moreover have "contract_view ?m a = contract_view s a"
      using spec(3) [OF False] by (simp add: restore_spec t')
    ultimately show ?thesis using False refresh [of a] touched by simp
  next
    case True
    then obtain ws where "(a, ws) \<in> set scopes" and act: "scope_active s (a, ws)" by auto
    with dist have mo: "map_of scopes a = Some ws" by simp
    have au: "a \<in> fst ` set undo" using True unfolding undo scope_undo_addresses .
    have "storage_of ?m a = storage_of s a"
      using spec(1) [of a] act mo filter_scope_undo [OF dist, of a s]
      by (simp add: storage_of_restore undo scope_undo_def comp_def case_prod_unfold
          put_preimages [unfolded case_prod_unfold] t' storage_of_def [of t'])
    then have st: "fmlookup (st_storage ?m) a = Some (storage_of s a)"
      using restore_spec(3) [OF au, of t'] by (auto simp: storage_of_def [of ?m])
    have orig: "drop_empty (Some (storage_of s a)) = fmlookup (st_storage s) a"
      using wf_storageD(1) [OF wf] by (auto simp: drop_empty_def storage_of_def split: option.splits)
    obtain ch ro where cv: "contract_view s a = Some (ch, ro)" using act by (auto simp: scope_active_def)
    have "ro = root_of X (fmlookup (st_storage s) a)"
      using wf_storageD(3) [OF wf cv] by (simp add: stored_root_def root_of_def)
    moreover obtain r' where "contract_view t a = Some (ch, r')" using spec(2) [of a] cv by auto
    ultimately show ?thesis
      using refresh [of a] True touched st orig cv by (simp add: restore_spec t')
  qed
  then show "st_storage r = st_storage s" and "contract_view r = contract_view s"
    by (auto intro: fmap_ext)
qed

section \<open>Flush and reversal as whole operations\<close>

definition result_ok :: "execution_result \<Rightarrow> bool" where
  "result_ok res \<longleftrightarrow> distinct (map fst (res_storage_overlay res))"

lemma flush_fields:
  "get_nonce (flush_storage_writes X s res tid) = get_nonce s"
  "st_receipts (flush_storage_writes X s res tid) = st_receipts s"
  "value_transfers_undo (flush_storage_writes X s res tid) = value_transfers_undo s"
  "clean s \<Longrightarrow> clean (flush_storage_writes X s res tid)"
  "k \<noteq> tid \<Longrightarrow> fmlookup (storage_undo (flush_storage_writes X s res tid)) k = fmlookup (storage_undo s) k"
proof -
  obtain t undo where f: "foldl (flush_scope X) (s, []) (res_storage_overlay res) = (t, undo)" by force
  with storage_step_flush_scopes [of s X "[]" "res_storage_overlay res"] have "storage_step s t" by simp
  then show "get_nonce (flush_storage_writes X s res tid) = get_nonce s"
    "st_receipts (flush_storage_writes X s res tid) = st_receipts s"
    "value_transfers_undo (flush_storage_writes X s res tid) = value_transfers_undo s"
    "clean s \<Longrightarrow> clean (flush_storage_writes X s res tid)"
    "k \<noteq> tid \<Longrightarrow> fmlookup (storage_undo (flush_storage_writes X s res tid)) k = fmlookup (storage_undo s) k"
    by (simp_all add: flush_storage_writes_def f storage_step_def)
qed

lemma flush_code:
  assumes "result_ok res"
  shows "map_option fst (contract_view (flush_storage_writes X s res tid) a) = map_option fst (contract_view s a)"
proof -
  obtain t undo where f: "foldl (flush_scope X) (s, []) (res_storage_overlay res) = (t, undo)" by force
  from flush_scopes_spec(2) [OF f] assms show ?thesis by (simp add: flush_storage_writes_def f result_ok_def)
qed

lemma unapply_flush:
  assumes wf: "wf_storage X s" and ok: "result_ok res" and new: "fmlookup (storage_undo s) tid = None"
    and t: "t = flush_storage_writes X s res tid"
    and t': "st_storage t' = st_storage t" "contract_view t' = contract_view t" "storage_undo t' = storage_undo t"
  defines "r \<equiv> unapply_call_storage X t' tid"
  shows "st_storage r = st_storage s" and "contract_view r = contract_view s" and "storage_undo r = storage_undo s"
    and "get_balance r = get_balance t'" and "get_nonce r = get_nonce t'" and "st_receipts r = st_receipts t'"
    and "value_transfers_undo r = value_transfers_undo t'" and "clean t' \<Longrightarrow> clean r"
proof -
  obtain u undo where f: "foldl (flush_scope X) (s, []) (res_storage_overlay res) = (u, undo)" by force
  with storage_step_flush_scopes [of s X "[]" "res_storage_overlay res"] have step: "storage_step s u" by simp
  let ?t1 = "if undo = [] then t' else t'\<lparr>storage_undo := fmdrop tid (storage_undo t')\<rparr>"
  have r: "r = foldl (refresh_root X) (foldl restore_slot ?t1 undo) (remdups (map fst undo))"
    using new step by (auto simp: r_def t'(3) t unapply_call_storage_def flush_storage_writes_def f storage_step_def)
  have "st_storage ?t1 = st_storage u" "contract_view ?t1 = contract_view u"
    by (auto simp: t' t flush_storage_writes_def f)
  from unflush [OF wf ok [unfolded result_ok_def] f this]
  show "st_storage r = st_storage s" "contract_view r = contract_view s" unfolding r by blast+
  have "storage_step ?t1 r" unfolding r by (blast intro: storage_step_trans storage_step_restore storage_step_refresh)
  moreover have "storage_undo ?t1 = storage_undo s"
    using new step by (auto simp: t' t flush_storage_writes_def f storage_step_def intro!: fmap_ext)
  ultimately show "storage_undo r = storage_undo s" "get_balance r = get_balance t'" "get_nonce r = get_nonce t'"
    "st_receipts r = st_receipts t'" "value_transfers_undo r = value_transfers_undo t'" "clean t' \<Longrightarrow> clean r"
    by (auto simp: storage_step_def split: if_splits)
qed

lemma wf_storage_flush_scope:
  assumes "wf_storage X s"
  shows "wf_storage X (fst (flush_scope X (s, undo) scope))"
proof -
  obtain a ws where sc: "scope = (a, ws)" by force
  show ?thesis
  proof (cases "scope_active s (a, ws)")
    case True
    then obtain ch r where cv: "contract_view s a = Some (ch, r)" and ws: "ws \<noteq> []"
      by (auto simp: scope_active_def)
    show ?thesis
      using wf_storageD [OF assms] cv True apply_to_nonempty [OF ws]
      by (auto simp: sc flush_scope_view wf_storage_def stored_root_def contract_view_root_update
          fmlookup_fmupd_cases split: if_splits option.splits)
  qed (use assms in \<open>simp add: sc flush_scope_view\<close>)
qed

lemma wf_state_flush:
  assumes "wf_state X s"
  shows "wf_state X (flush_storage_writes X s res tid)"
proof -
  have "wf_storage X (fst (foldl (flush_scope X) (s, undo) scopes))" if "wf_storage X s" for s undo scopes
    using that
  proof (induction scopes arbitrary: s undo)
    case (Cons sc scopes)
    obtain s1 u1 where "flush_scope X (s, undo) sc = (s1, u1)" by force
    with wf_storage_flush_scope [OF Cons.prems, of undo sc] Cons.IH [of s1 u1] show ?case by simp
  qed simp
  from this [of s "[]" "res_storage_overlay res"] assms
  have "wf_storage X (flush_storage_writes X s res tid)"
    by (auto simp: flush_storage_writes_def wf_state_def wf_storage_def stored_root_def split: prod.splits)
  then show ?thesis using assms flush_fields(4) by (simp add: wf_state_def)
qed

section \<open>Every block keeps the state well formed\<close>

lemma wf_set_nonce [simp]: "wf_state X s \<Longrightarrow> wf_state X (set_nonce addr n s)"
  using wf_storage_cong [of "set_nonce addr n s" s X] by (simp add: wf_state_def)

lemma wf_debit: "wf_state X s \<Longrightarrow> debit addr v s = Inr t \<Longrightarrow> wf_state X t"
  by (rule balance_step_wf [OF balance_step_debit [OF wf_clean]])

lemma wf_credit: "wf_state X s \<Longrightarrow> credit addr v s = Inr t \<Longrightarrow> wf_state X t"
  by (rule balance_step_wf [OF balance_step_credit [OF wf_clean]])

lemma wf_state_vtu [simp]: "wf_state X (s\<lparr>value_transfers_undo := m\<rparr>) = wf_state X s"
  by (simp add: wf_state_def wf_storage_def stored_root_def)

lemma commit_Inr:
  "commit_value_transfers s tid ts = Inr t \<longleftrightarrow>
     (if ts = [] then t = s
      else \<exists>u. foldM move_value s ts = Inr u \<and> t = u\<lparr>value_transfers_undo := fmupd tid ts (value_transfers_undo u)\<rparr>)"
  by (auto simp: commit_value_transfers_def bind_res_Inr_iff)

lemma wf_commit:
  assumes "wf_state X s" and "commit_value_transfers s tid ts = Inr t"
  shows "wf_state X t"
proof (cases "ts = []")
  case False
  then obtain u where u: "foldM move_value s ts = Inr u" and t: "t = u\<lparr>value_transfers_undo := fmupd tid ts (value_transfers_undo u)\<rparr>"
    using assms(2) by (auto simp: commit_Inr)
  show ?thesis unfolding t wf_state_vtu by (rule balance_step_wf [OF balance_step_moves(1) [OF wf_clean [OF assms(1)] u] assms(1)])
qed (use assms in \<open>simp add: commit_Inr\<close>)

lemma wf_deployed:
  assumes "wf_state X s" and "\<not> account_is_contract s address" and "blake3 X (c_init_code c) \<noteq> zero32"
  shows "wf_state X (deployed X s c address)"
    and "wf_state X (set_account address account_default (deployed X s c address))"
proof -
  have cv: "contract_view s address = None" using assms(2) unfolding account_is_contract_view by blast
  then have st: "fmlookup (st_storage s) address = None"
    using assms(1) wf_storageD(2) by (fastforce simp: wf_state_def)
  let ?a = "Contract \<lparr> code_hash = blake3 X (c_init_code c), storage_root = zero32, con_nonce = 1, con_balance = c_endowment c \<rparr>"
  have "clean (set_account address ?a s)"
    using assms(3) by (intro clean_set_account wf_clean [OF assms(1)]) auto
  then have wf: "wf_state X (set_account address ?a s)"
    using assms cv st by (auto simp: wf_state_def wf_storage_def stored_root_def contract_view_set_account)
  then show "wf_state X (deployed X s c address)" by (simp add: deployed_def)
  then have cl: "clean (deployed X s c address)" by (simp add: wf_state_def)
  have "contract_view (deployed X s c address) = (contract_view s)(address \<mapsto> (blake3 X (c_init_code c), zero32))"
    using wf assms(3) by (simp add: deployed_def wf_state_def contract_view_set_account)
  moreover have "clean (set_account address account_default (deployed X s c address))"
    by (intro clean_set_account cl) (simp add: account_default_def)
  moreover have "st_storage (deployed X s c address) = st_storage s" by (simp add: deployed_def)
  ultimately show "wf_state X (set_account address account_default (deployed X s c address))"
    using assms(1) st cv by (auto simp: wf_state_def wf_storage_def stored_root_def contract_view_set_account)
qed

definition code_hashes_ok :: "ext \<Rightarrow> transaction \<Rightarrow> bool" where
  "code_hashes_ok X tx = (case tx of Create c \<Rightarrow> blake3 X (c_init_code c) \<noteq> zero32 | _ \<Rightarrow> True)"

lemma wf_apply_tx:
  assumes "wf_state X s" and "apply_tx X V b chain_id (s, vm, rs) (i, tx) = Inr (t, vm', rs')"
    and "code_hashes_ok X tx"
  shows "wf_state X t"
proof (cases tx)
  case (Transfer x)
  with assms(1,2) show ?thesis
    by (auto simp: apply_tx_def deduct_sender_def credit_receiver_def increment_nonce_def
        split: if_splits intro!: wf_set_nonce intro: wf_debit wf_credit)
next
  case (Create c)
  then have code: "blake3 X (c_init_code c) \<noteq> zero32" using assms(3) by (simp add: code_hashes_ok_def)
  from Create assms(2) obtain v v' r where "apply_create X V s c chain_id v b (of_nat i) = Inr (t, v', r)"
    by (auto simp: apply_tx_def split: option.splits)
  then show ?thesis
  proof (cases rule: apply_createE)
    case (failed address)
    then show ?thesis using wf_deployed(2) [OF assms(1) _ code] by simp
  next
    case (success address ctx res u)
    have "wf_state X (flush_storage_writes X (deployed X s c address) res (txid X (Create c)))"
      by (intro wf_state_flush wf_deployed(1) assms(1) success(2) code)
    from wf_commit [OF wf_debit [OF this success(7)] success(8)] show ?thesis .
  qed
next
  case (Call k)
  from Call assms(2) obtain v r where "apply_call X V s b k v (of_nat i) = Inr (t, r)"
    by (auto simp: apply_tx_def split: option.splits)
  then show ?thesis
  proof (cases rule: apply_callE)
    case (plain ts)
    show ?thesis by (rule wf_commit [OF wf_set_nonce [OF assms(1)] plain(4)])
  next
    case failed
    then show ?thesis using assms(1) by simp
  next
    case (success ctx res u)
    show ?thesis unfolding success(7) by (rule wf_state_flush [OF wf_commit [OF wf_set_nonce [OF assms(1)] success(6)]])
  qed
qed

theorem wf_apply_block:
  assumes "wf_state X s" and "apply_block_inner X V s b chain_id vm = Inr (t, vm')"
    and "list_all (code_hashes_ok X) (blk_transactions b)"
  shows "wf_state X t"
proof (cases "blk_index b = 0")
  case True
  then obtain u rs where "apply_genesis X (s\<lparr>st_receipts := []\<rparr>) b chain_id = Inr (u, rs)" and t: "t = u\<lparr>st_receipts := rs\<rparr>"
    using assms(2) by (auto simp: apply_block_inner_def)
  then have "foldM (apply_genesis_tx X b chain_id) (s\<lparr>st_receipts := []\<rparr>, []) (enumerate 0 (blk_transactions b)) = Inr (u, rs)"
    by (simp add: apply_genesis_def)
  then have "wf_state X (fst (u, rs))"
  proof (rule foldM_invariant [where P = "\<lambda>u. wf_state X (fst u)"])
    fix u itx v assume wf: "wf_state X (fst u)" and tx: "apply_genesis_tx X b chain_id u itx = Inr v"
    obtain s0 rs0 i tx0 where eq: "u = (s0, rs0)" "itx = (i, tx0)" by (cases u; cases itx)
    from tx obtain y s1 where "credit_receiver s0 y = Inr s1" and "fst v = s1"
      by (auto simp: eq apply_genesis_tx_def split: transaction.splits)
    with wf show "wf_state X (fst v)" by (auto simp: eq credit_receiver_def intro: wf_credit)
  qed (use assms(1) in simp)
  then show ?thesis by (simp add: t)
next
  case False
  then obtain u rs where u: "apply_non_genesis X V (s\<lparr>st_receipts := []\<rparr>) b chain_id vm = Inr (u, vm', rs)"
    and t: "t = u\<lparr>st_receipts := rs\<rparr>"
    using assms(2) by (auto simp: apply_block_inner_def split: prod.splits)
  from u show ?thesis
  proof (rule apply_non_genesisE)
    fix ci cb w
    assume "credit_receiver (s\<lparr>st_receipts := []\<rparr>) cb = Inr w"
      and fold: "foldM (apply_tx X V b chain_id) (w, vm, [transfer_receipt X (Transfer cb) b (of_nat ci) []])
         (enumerate 0 (blk_transactions b)) = Inr (u, vm', rs)"
    then have w: "wf_state X w" using assms(1) wf_credit [of X "s\<lparr>st_receipts := []\<rparr>"] by (auto simp: credit_receiver_def)
    from fold have "wf_state X (fst (u, vm', rs))"
    proof (rule foldM_invariant [where P = "\<lambda>u. wf_state X (fst u)"])
      fix u itx v
      assume "itx \<in> set (enumerate 0 (blk_transactions b))" and "wf_state X (fst u)" and "apply_tx X V b chain_id u itx = Inr v"
      with assms(3) show "wf_state X (fst v)"
        by (cases u; cases itx; cases v) (auto simp: list_all_iff in_set_enumerate_eq intro: wf_apply_tx)
    qed (use w in simp)
    then show ?thesis by (simp add: t)
  qed
qed

section \<open>Reversing one transaction\<close>

lemma unapply_transfer:
  assumes cl: "clean s" and d: "debit f v s = Inr s1" and c: "credit a v s1 = Inr s2"
    and t: "t = set_nonce f (get_nonce s2 f + 1) s2"
  shows "bind_res (debit a v (set_nonce f (get_nonce t f - 1) (t\<lparr>st_receipts := rs\<rparr>))) (credit f v) = Inr (s\<lparr>st_receipts := rs\<rparr>)"
proof -
  have cl2: "clean s2" and n: "get_nonce s2 = get_nonce s" and cv: "contract_view s2 = contract_view s"
    and fields: "st_storage s2 = st_storage s" "storage_undo s2 = storage_undo s" "value_transfers_undo s2 = value_transfers_undo s"
    using balance_step_debit [OF cl d] balance_step_credit [OF balance_step_clean [OF balance_step_debit [OF cl d]] c]
    by (simp_all add: balance_step_def)
  let ?u0 = "set_nonce f (get_nonce t f - 1) (t\<lparr>st_receipts := rs\<rparr>)"
  have u0: "get_balance ?u0 = get_balance s2" "clean ?u0" using cl2 by (simp_all add: t)
  from debit_credit [OF c u0(1)] obtain u1 where u1: "debit a v ?u0 = Inr u1" "get_balance u1 = get_balance s1" by blast
  from credit_debit [OF d u1(2)] obtain u2 where u2: "credit f v u1 = Inr u2" "get_balance u2 = get_balance s" by blast
  have step: "balance_step ?u0 u2"
    using balance_step_debit [OF u0(2) u1(1)] balance_step_credit [OF _ u2(1)] balance_step_clean balance_step_trans by blast
  have "u2 = s\<lparr>st_receipts := rs\<rparr>"
    using step cl cl2 u2(2) by (intro state_eqI) (simp_all add: balance_step_def t n cv fields)
  with u1 u2 show ?thesis by simp
qed

lemma get_nonce_checked_pred:
  "(n :: u64) \<noteq> - 1 \<Longrightarrow> checked_sub (n + 1) 1 = Some n"
  by (auto simp: checked_sub_def word_le_nat_alt unat_eq_zero add_eq_0_iff2 Suc_le_eq)

text \<open>The effect of a commit on the record of moves, and its reversal.\<close>

lemma commit_views:
  assumes "clean s" and "commit_value_transfers s tid ts = Inr t"
  shows "clean t" and "get_nonce t = get_nonce s" and "contract_view t = contract_view s"
    and "st_storage t = st_storage s" and "st_receipts t = st_receipts s" and "storage_undo t = storage_undo s"
    and "value_transfers_undo t = (if ts = [] then value_transfers_undo s else fmupd tid ts (value_transfers_undo s))"
proof -
  have "clean t \<and> get_nonce t = get_nonce s \<and> contract_view t = contract_view s \<and> st_storage t = st_storage s
    \<and> st_receipts t = st_receipts s \<and> storage_undo t = storage_undo s
    \<and> value_transfers_undo t = (if ts = [] then value_transfers_undo s else fmupd tid ts (value_transfers_undo s))"
  proof (cases "ts = []")
    case False
    then obtain u where u: "foldM move_value s ts = Inr u" and t: "t = u\<lparr>value_transfers_undo := fmupd tid ts (value_transfers_undo u)\<rparr>"
      using assms(2) by (auto simp: commit_Inr)
    from balance_step_moves(1) [OF assms(1) u] False show ?thesis by (simp add: balance_step_def t)
  qed (use assms in \<open>simp add: commit_Inr\<close>)
  then show "clean t" and "get_nonce t = get_nonce s" and "contract_view t = contract_view s"
    and "st_storage t = st_storage s" and "st_receipts t = st_receipts s" and "storage_undo t = storage_undo s"
    and "value_transfers_undo t = (if ts = [] then value_transfers_undo s else fmupd tid ts (value_transfers_undo s))"
    by blast+
qed

text \<open>The part of the reversal that calls and deployments share: the recorded moves are reversed and
  the record is dropped.\<close>

definition undo_moves :: "bytes \<Rightarrow> state \<Rightarrow> core_error + state" where
  "undo_moves tid s =
     (case fmlookup (value_transfers_undo s) tid of
        Some transfers \<Rightarrow>
          reverse_value_transfers (s\<lparr>value_transfers_undo := fmdrop tid (value_transfers_undo s)\<rparr>) transfers
      | None \<Rightarrow> Inr s)"

lemma undo_moves_commit:
  assumes "clean s" and commit: "commit_value_transfers s tid ts = Inr t"
    and new: "fmlookup (value_transfers_undo s) tid = None"
    and t': "clean t'" "get_balance t' = get_balance t" "value_transfers_undo t' = value_transfers_undo t"
  obtains u where "undo_moves tid t' = Inr u" and "get_balance u = get_balance s"
    and "balance_step (t'\<lparr>value_transfers_undo := value_transfers_undo s\<rparr>) u"
proof (cases "ts = []")
  case True
  then have "t = s" using commit by (simp add: commit_Inr)
  with t' new have "undo_moves tid t' = Inr t'" and "t'\<lparr>value_transfers_undo := value_transfers_undo s\<rparr> = t'"
    by (simp_all add: undo_moves_def)
  with t' \<open>t = s\<close> show thesis by (intro that [of t']) (simp_all add: balance_step_def)
next
  case False
  then obtain w where w: "foldM move_value s ts = Inr w" and t: "t = w\<lparr>value_transfers_undo := fmupd tid ts (value_transfers_undo w)\<rparr>"
    using commit by (auto simp: commit_Inr)
  have vw: "value_transfers_undo w = value_transfers_undo s"
    using balance_step_moves(1) [OF assms(1) w] by (simp add: balance_step_def)
  have drop: "fmdrop tid (fmupd tid ts (value_transfers_undo s)) = value_transfers_undo s"
    using new by (intro fmap_ext) simp
  let ?t1 = "t'\<lparr>value_transfers_undo := value_transfers_undo s\<rparr>"
  have "get_balance ?t1 = get_balance w" using t' t by simp
  from reverse_moves [OF w this] obtain u where
    u: "reverse_value_transfers ?t1 ts = Inr u" "get_balance u = get_balance s" by blast
  have "undo_moves tid t' = Inr u" using u(1) by (simp add: undo_moves_def t' t vw drop)
  moreover have "balance_step ?t1 u"
    using balance_step_moves(2) [of ?t1 "rev ts" u] u(1) t'(1) by (simp add: reverse_value_transfers_def)
  ultimately show thesis using u(2) that by blast
qed

text \<open>What the executor promises: its overlay is a map, and the trail of a successful call that
  carries value starts with the entry transfer.\<close>

definition vm_ok :: "'v vm_executor \<Rightarrow> bool" where
  "vm_ok V \<longleftrightarrow>
     (\<forall>v ctx res. vm_execute V v ctx = Inr res \<longrightarrow>
        result_ok res \<and> (res_status res = TxSuccess \<and> ctx_value ctx > 0 \<longrightarrow> res_value_transfers res \<noteq> []))
     \<and> (\<forall>v ctx res. vm_execute_constructor V v ctx = Inr res \<longrightarrow> result_ok res)"

lemma vm_okD:
  assumes "vm_ok V"
  shows "vm_execute V v ctx = Inr res \<Longrightarrow> result_ok res"
    and "vm_execute V v ctx = Inr res \<Longrightarrow> res_status res = TxSuccess \<Longrightarrow> res_value_transfers res = [] \<Longrightarrow> ctx_value ctx = 0"
    and "vm_execute_constructor V v ctx = Inr res \<Longrightarrow> result_ok res"
proof -
  show "result_ok res" if "vm_execute V v ctx = Inr res" using assms that unfolding vm_ok_def by blast
  show "ctx_value ctx = 0"
    if "vm_execute V v ctx = Inr res" "res_status res = TxSuccess" "res_value_transfers res = []"
    using assms that unfolding vm_ok_def word_gt_0 by metis
  show "result_ok res" if "vm_execute_constructor V v ctx = Inr res" using assms that unfolding vm_ok_def by blast
qed

lemma unapply_call_success:
  assumes wf: "wf_state X s" and nonce: "get_nonce s (k_from k) \<noteq> - 1"
    and new: "fmlookup (storage_undo s) tid = None" "fmlookup (value_transfers_undo s) tid = None"
    and tid: "tid = txid X (Call k)"
    and commit: "commit_value_transfers (set_nonce (k_from k) (get_nonce s (k_from k) + 1) s) tid ts = Inr w"
    and ts: "ts = [] \<Longrightarrow> k_value k = 0"
    and flush: "t = flush_storage_writes X w res tid" "result_ok res"
    and succ: "receipt_success (t\<lparr>st_receipts := rs\<rparr>) tid"
  shows "unapply_call X (t\<lparr>st_receipts := rs\<rparr>) k = Inr (s\<lparr>st_receipts := rs\<rparr>)"
proof -
  let ?s1 = "set_nonce (k_from k) (get_nonce s (k_from k) + 1) s"
  have cl: "clean s" "clean ?s1" using wf by (simp_all add: wf_state_def)
  note cv = commit_views [OF cl(2) commit]
  have wfw: "wf_storage X w" using wf_commit [OF wf_set_nonce [OF wf] commit] by (simp add: wf_state_def)
  have clt: "clean t" unfolding flush(1) by (rule flush_fields(4) [OF cv(1)])
  let ?t1 = "set_nonce (k_from k) (get_nonce s (k_from k)) (t\<lparr>st_receipts := rs\<rparr>)"
  have pred: "checked_sub (get_nonce (t\<lparr>st_receipts := rs\<rparr>) (k_from k)) 1 = Some (get_nonce s (k_from k))"
    using nonce by (simp add: flush(1) flush_fields cv get_nonce_checked_pred)
  have t1: "clean ?t1" "get_balance ?t1 = get_balance w" "value_transfers_undo ?t1 = value_transfers_undo w"
    using clt by (simp_all add: flush(1) flush_fields)
  obtain u where u: "undo_moves tid ?t1 = Inr u" "get_balance u = get_balance ?s1"
    and step: "balance_step (?t1\<lparr>value_transfers_undo := value_transfers_undo ?s1\<rparr>) u"
    by (rule undo_moves_commit [OF cl(2) commit _ t1]) (use new in simp)
  have rec: "receipt_success ?t1 tid" using succ by (simp add: receipt_success_def)
  have "k_value k = 0" if "fmlookup (value_transfers_undo ?t1) tid = None"
    using that ts unfolding t1(3) cv(7) by (simp split: if_splits)
  then have unapply: "unapply_call X (t\<lparr>st_receipts := rs\<rparr>) k = Inr (unapply_call_storage X u tid)"
    using u(1) pred rec by (auto simp: unapply_call_def Let_def tid [symmetric] undo_moves_def split: option.splits)
  have u': "st_storage u = st_storage t" "contract_view u = contract_view t" "storage_undo u = storage_undo t"
    using step clt by (simp_all add: balance_step_def)
  have neww: "fmlookup (storage_undo w) tid = None" using new cv by simp
  note r = unapply_flush [OF wfw flush(2) neww flush(1) u']
  have "unapply_call_storage X u tid = s\<lparr>st_receipts := rs\<rparr>"
    using r(8) balance_step_clean [OF step] cl cv u(2) step
    by (intro state_eqI) (simp_all add: r(1-7) balance_step_def flush(1) flush_fields)
  with unapply show ?thesis by simp
qed

lemma no_writes_flush:
  assumes "res_storage_overlay res = []"
  shows "flush_storage_writes X s res tid = s"
  by (simp add: flush_storage_writes_def assms)

lemma unapply_apply_call:
  assumes wf: "wf_state X s" and vm: "vm_ok V" and nonce: "get_nonce s (k_from k) \<noteq> - 1"
    and new: "fmlookup (storage_undo s) (txid X (Call k)) = None"
      "fmlookup (value_transfers_undo s) (txid X (Call k)) = None"
    and app: "apply_call X V s b k v i = Inr (t, r)"
    and succ: "receipt_success (t\<lparr>st_receipts := rs\<rparr>) (txid X (Call k)) \<longleftrightarrow> rc_status r = TxSuccess"
  shows "unapply_call X (t\<lparr>st_receipts := rs\<rparr>) k = Inr (s\<lparr>st_receipts := rs\<rparr>)"
  using app
proof (cases rule: apply_callE)
  case (plain ts)
  let ?res = "\<lparr> res_gas_used = 0, res_logs = [], res_status = TxSuccess, res_return_data = [],
    res_storage_overlay = [], res_value_transfers = [] \<rparr> :: execution_result"
  show ?thesis
    by (rule unapply_call_success [OF wf nonce new refl plain(4), where res = ?res])
      (use plain succ in \<open>auto simp: no_writes_flush result_ok_def word_gt_0 split: if_splits\<close>)
next
  case failed
  have cl: "clean s" using wf by (simp add: wf_state_def)
  let ?t1 = "set_nonce (k_from k) (get_nonce s (k_from k)) (t\<lparr>st_receipts := rs\<rparr>)"
  have "checked_sub (get_nonce (t\<lparr>st_receipts := rs\<rparr>) (k_from k)) 1 = Some (get_nonce s (k_from k))"
    using nonce by (simp add: failed get_nonce_checked_pred)
  moreover have "\<not> receipt_success ?t1 (txid X (Call k))" using succ failed by (simp add: receipt_success_def)
  moreover have "unapply_call_storage X ?t1 (txid X (Call k)) = ?t1"
    using new by (simp add: unapply_call_storage_def failed)
  moreover have "?t1 = s\<lparr>st_receipts := rs\<rparr>" using cl by (intro state_eqI) (simp_all add: failed)
  ultimately show ?thesis by (simp add: unapply_call_def Let_def)
next
  case (success ctx res u)
  have "result_ok res" and "res_value_transfers res = [] \<Longrightarrow> k_value k = 0"
    using vm_okD(1,2) [OF vm success(3)] success(4,5) by simp_all
  then show ?thesis
    using unapply_call_success [OF wf nonce new refl success(6) _ success(7)] succ success(2) by blast
qed

text \<open>The deployments for which the reversal is exact: the derived address had no account, and the
  code has a hash that is not the zero sentinel.\<close>

definition deploy_fresh :: "ext \<Rightarrow> u32 \<Rightarrow> state \<Rightarrow> create_tx \<Rightarrow> bool" where
  "deploy_fresh X chain_id s c \<longleftrightarrow>
     (case derive_contract_address X (c_from c) (get_nonce s (c_from c)) chain_id of
        Inl _ \<Rightarrow> True
      | Inr address \<Rightarrow>
          fmlookup (balances s) address = None \<and> address \<noteq> c_from c \<and> blake3 X (c_init_code c) \<noteq> zero32)"

lemma absent_views:
  assumes "fmlookup (balances s) a = None"
  shows "get_balance s a = 0" and "get_nonce s a = 0" and "contract_view s a = None"
  using assms by (simp_all add: get_balance_def get_nonce_def contract_view_def)

lemma deployed_views:
  assumes wf: "wf_state X s" and abs: "fmlookup (balances s) address = None"
    and code: "blake3 X (c_init_code c) \<noteq> zero32"
  defines "s1 \<equiv> deployed X s c address"
  shows "wf_state X s1" and "get_balance s1 = (get_balance s)(address := c_endowment c)"
    and "get_nonce s1 = (get_nonce s)(address := 1, c_from c := get_nonce s (c_from c) + 1)"
    and "contract_view s1 = (contract_view s)(address \<mapsto> (blake3 X (c_init_code c), zero32))"
    and "st_storage s1 = st_storage s" and "st_receipts s1 = st_receipts s" and "storage_undo s1 = storage_undo s"
    and "value_transfers_undo s1 = value_transfers_undo s"
    and "fmlookup (st_storage s) address = None"
proof -
  have nc: "\<not> account_is_contract s address" using absent_views(3) [OF abs] by (simp add: account_is_contract_view)
  show "wf_state X s1" unfolding s1_def by (rule wf_deployed(1) [OF wf nc code])
  let ?a = "Contract \<lparr> code_hash = blake3 X (c_init_code c), storage_root = zero32, con_nonce = 1, con_balance = c_endowment c \<rparr>"
  have "clean (set_account address ?a s)" using code by (intro clean_set_account wf_clean [OF wf]) auto
  then show "contract_view s1 = (contract_view s)(address \<mapsto> (blake3 X (c_init_code c), zero32))"
    by (simp add: s1_def deployed_def contract_view_set_account)
  show "fmlookup (st_storage s) address = None"
    using wf wf_storageD(2) [of X s address] absent_views(3) [OF abs]
    by (cases "fmlookup (st_storage s) address") (auto simp: wf_state_def)
qed (simp_all add: s1_def deployed_def)

text \<open>The last steps of the reversal of a deployment.\<close>

lemma undeploy:
  assumes wf: "wf_state X s" and abs: "fmlookup (balances s) address = None" and ne: "address \<noteq> c_from c"
    and u: "clean u" "get_balance u = (get_balance s)(address := e)"
      "get_nonce u = (get_nonce s)(address := n, c_from c := m)"
      "contract_view u = (contract_view s)(address := cv)" "st_storage u = st_storage s"
      "storage_undo u = storage_undo s" "value_transfers_undo u = value_transfers_undo s"
      "fmlookup (st_storage s) address = None"
  shows "(let s' = set_account address account_default u; s' = s'\<lparr>st_storage := fmdrop address (st_storage s')\<rparr>
          in set_nonce (c_from c) (get_nonce s (c_from c)) s') = s\<lparr>st_receipts := st_receipts u\<rparr>"
proof -
  have "clean (set_account address account_default u)"
    using u(1) by (intro clean_set_account) (simp_all add: account_default_def)
  moreover have "fmdrop address (st_storage s) = st_storage s" using u(8) by (intro fmap_ext) simp
  ultimately show ?thesis
    unfolding Let_def using wf_clean [OF wf] ne absent_views [OF abs]
    by (intro state_eqI) (auto simp: u contract_view_set_account fun_eq_iff)
qed

lemma unapply_apply_create:
  assumes wf: "wf_state X s" and vm: "vm_ok V" and nonce: "get_nonce s (c_from c) \<noteq> - 1"
    and new: "fmlookup (storage_undo s) (txid X (Create c)) = None"
      "fmlookup (value_transfers_undo s) (txid X (Create c)) = None"
    and fresh: "deploy_fresh X chain_id s c"
    and app: "apply_create X V s c chain_id v b i = Inr (t, v', r)"
    and succ: "receipt_success (t\<lparr>st_receipts := rs\<rparr>) (txid X (Create c)) \<longleftrightarrow> rc_status r = TxSuccess"
  shows "unapply_create X (t\<lparr>st_receipts := rs\<rparr>) c chain_id = Inr (s\<lparr>st_receipts := rs\<rparr>)"
  using app
proof (cases rule: apply_createE)
  case (failed address)
  have abs: "fmlookup (balances s) address = None" and ne: "address \<noteq> c_from c" and code: "blake3 X (c_init_code c) \<noteq> zero32"
    using fresh failed(1) by (simp_all add: deploy_fresh_def)
  note dv = deployed_views [OF wf abs code]
  let ?t = "t\<lparr>st_receipts := rs\<rparr>"
  let ?u = "?t\<lparr>value_transfers_undo := fmdrop (txid X (Create c)) (value_transfers_undo ?t)\<rparr>"
  have "clean ?u" using wf_clean [OF dv(1)] by (simp add: failed(5))
  have keep: "fmdrop (txid X (Create c)) (value_transfers_undo s) = value_transfers_undo s"
    using new by (intro fmap_ext) simp
  have "unapply_create X ?t c chain_id = Inr (let s' = set_account address account_default ?u;
      s' = s'\<lparr>st_storage := fmdrop address (st_storage s')\<rparr> in set_nonce (c_from c) (get_nonce s (c_from c)) s')"
    using succ failed(4) new ne nonce
    by (simp add: unapply_create_def Let_def unapply_call_storage_def failed(1,5) dv get_nonce_checked_pred)
  also have "\<dots> = Inr (s\<lparr>st_receipts := rs\<rparr>)"
    by (subst undeploy [OF wf abs ne \<open>clean ?u\<close>, where e = 0 and n = 0 and m = "get_nonce s (c_from c) + 1" and cv = None])
      (use ne in \<open>auto simp: failed(5) dv keep contract_view_set_account absent_views [OF abs] fun_eq_iff\<close>)
  finally show ?thesis .
next
  case (success address ctx res u)
  let ?tid = "txid X (Create c)" and ?s1 = "deployed X s c address"
  let ?f = "flush_storage_writes X ?s1 res ?tid" and ?t = "t\<lparr>st_receipts := rs\<rparr>"
  have abs: "fmlookup (balances s) address = None" and ne: "address \<noteq> c_from c" and code: "blake3 X (c_init_code c) \<noteq> zero32"
    using fresh success(1) by (simp_all add: deploy_fresh_def)
  note dv = deployed_views [OF wf abs code]
  have clf: "clean ?f" using wf_clean [OF dv(1)] by (rule flush_fields(4))
  have du: "balance_step ?f u" by (rule balance_step_debit [OF clf success(7)])
  note cv = commit_views [OF balance_step_clean [OF du] success(8)]
  have ok: "result_ok res" by (rule vm_okD(3) [OF vm success(5)])
  have same: "st_storage ?t = st_storage ?f" "contract_view ?t = contract_view ?f" "storage_undo ?t = storage_undo ?f"
    using du cv by (simp_all add: balance_step_def)
  have "wf_storage X ?s1" using dv(1) by (simp add: wf_state_def)
  moreover have "fmlookup (storage_undo ?s1) ?tid = None" using new dv by simp
  ultimately have rr: "st_storage r1 = st_storage ?s1" "contract_view r1 = contract_view ?s1" "storage_undo r1 = storage_undo ?s1"
    "get_balance r1 = get_balance t" "get_nonce r1 = get_nonce t" "st_receipts r1 = rs"
    "value_transfers_undo r1 = value_transfers_undo t" "clean r1"
    if "r1 = unapply_call_storage X ?t ?tid" for r1
    using unapply_flush [OF _ ok _ refl same] cv(1) that by simp_all
  define r1 where r1: "r1 = unapply_call_storage X ?t ?tid"
  note rr = rr [OF r1]
  have vu: "fmlookup (value_transfers_undo u) ?tid = None" using du new dv by (simp add: balance_step_def flush_fields)
  obtain u1 where u1: "undo_moves ?tid r1 = Inr u1" "get_balance u1 = get_balance u"
    and st1: "balance_step (r1\<lparr>value_transfers_undo := value_transfers_undo u\<rparr>) u1"
    by (rule undo_moves_commit [OF balance_step_clean [OF du] success(8) vu rr(8,4,7)])
  from credit_debit [OF success(7) u1(2)] obtain u2 where
    u2: "credit (c_from c) (c_endowment c) u1 = Inr u2" "get_balance u2 = get_balance ?f" by blast
  have st2: "balance_step (r1\<lparr>value_transfers_undo := value_transfers_undo u\<rparr>) u2"
    by (rule balance_step_trans [OF st1 balance_step_credit [OF balance_step_clean [OF st1] u2(1)]])
  have n: "get_nonce t = get_nonce ?s1" using cv du by (simp add: balance_step_def flush_fields)
  have pred: "checked_sub (get_nonce ?t (c_from c)) 1 = Some (get_nonce s (c_from c))"
    using nonce by (simp add: n dv get_nonce_checked_pred)
  have "unapply_create X ?t c chain_id = Inr (let s' = set_account address account_default u2;
      s' = s'\<lparr>st_storage := fmdrop address (st_storage s')\<rparr> in set_nonce (c_from c) (get_nonce s (c_from c)) s')"
    using succ success(1,4) pred u1(1) u2(1)
    by (simp add: unapply_create_def Let_def r1 [symmetric] undo_moves_def cong: option.case_cong)
  also have "\<dots> = Inr (s\<lparr>st_receipts := st_receipts u2\<rparr>)"
    using st2 du u2(2)
    by (subst undeploy [OF wf abs ne, where u = u2]) (simp_all add: balance_step_def rr n dv flush_fields)
  also have "st_receipts u2 = rs" using st2 rr by (simp add: balance_step_def)
  finally show ?thesis .
qed

section \<open>Reversing a block\<close>

lemma apply_tx_receipt:
  assumes "apply_tx X V b chain_id (s, vm, rs) (i, tx) = Inr (t, vm', rs')" and "\<not> tx_is_coinbase tx"
  shows "\<exists>r. rs' = rs @ [r] \<and> rc_txid r = txid X tx"
proof (cases tx)
  case (Transfer x)
  with assms show ?thesis by (auto simp: apply_tx_def)
next
  case (Create c)
  with assms show ?thesis by (auto simp: apply_tx_def split: option.splits elim!: apply_createE)
next
  case (Call k)
  with assms show ?thesis by (auto simp: apply_tx_def split: option.splits elim!: apply_callE)
qed

lemma apply_tx_undo_maps:
  assumes "clean s" and "apply_tx X V b chain_id (s, vm, rs) (i, tx) = Inr (t, vm', rs')" and "tid \<noteq> txid X tx"
    and "code_hashes_ok X tx"
  shows "fmlookup (storage_undo t) tid = fmlookup (storage_undo s) tid
    \<and> fmlookup (value_transfers_undo t) tid = fmlookup (value_transfers_undo s) tid"
proof (cases tx)
  case (Transfer x)
  with assms(2) show ?thesis
    by (auto simp: apply_tx_def deduct_sender_def credit_receiver_def increment_nonce_def debit_Inr credit_Inr split: if_splits)
next
  case (Create c)
  from Create assms(2) obtain v v' r where app: "apply_create X V s c chain_id v b (of_nat i) = Inr (t, v', r)"
    by (auto simp: apply_tx_def split: option.splits)
  have same: "storage_undo (deployed X s c a) = storage_undo s" "value_transfers_undo (deployed X s c a) = value_transfers_undo s"
    for a by (simp_all add: deployed_def)
  from app show ?thesis
  proof (cases rule: apply_createE)
    case (success address ctx res u)
    let ?f = "flush_storage_writes X (deployed X s c address) res (txid X (Create c))"
    have "clean (deployed X s c address)"
      using assms(1,4) unfolding deployed_def by (intro clean_set clean_set_account) (auto simp: code_hashes_ok_def Create)
    then have cl: "clean ?f" by (rule flush_fields(4))
    note u = balance_step_debit [OF cl success(7)]
    show ?thesis
      using commit_views(6,7) [OF balance_step_clean [OF u] success(8)] u assms(3)
      by (auto simp: balance_step_def flush_fields same Create)
  qed (simp add: same)
next
  case (Call k)
  have cl: "clean (set_nonce (k_from k) (get_nonce s (k_from k) + 1) s)" using assms(1) by simp
  from Call assms(2) obtain v r where "apply_call X V s b k v (of_nat i) = Inr (t, r)"
    by (auto simp: apply_tx_def split: option.splits)
  then show ?thesis
  proof (cases rule: apply_callE)
    case (plain ts)
    then show ?thesis using commit_views(6,7) [OF cl plain(4)] assms(3) by (auto simp: Call)
  next
    case (success ctx res u)
    show ?thesis using commit_views(6,7) [OF cl success(6)] assms(3) by (auto simp: success(7) flush_fields Call)
  qed simp
qed

text \<open>The conditions on the transactions of a block, checked along its execution: the executor is in
  use only where the reversal is exact.\<close>

definition reversible :: "ext \<Rightarrow> u32 \<Rightarrow> state \<Rightarrow> transaction \<Rightarrow> bool" where
  "reversible X chain_id s tx =
     (case tx of
        Transfer _ \<Rightarrow> True
      | Create c \<Rightarrow> get_nonce s (c_from c) \<noteq> - 1 \<and> deploy_fresh X chain_id s c \<and> blake3 X (c_init_code c) \<noteq> zero32
      | Call k \<Rightarrow> get_nonce s (k_from k) \<noteq> - 1)"

fun reversible_run ::
  "ext \<Rightarrow> 'v vm_executor \<Rightarrow> block \<Rightarrow> u32 \<Rightarrow> state \<times> 'v option \<times> receipt list \<Rightarrow> (nat \<times> transaction) list \<Rightarrow> bool" where
  "reversible_run X V b chain_id acc [] = True"
| "reversible_run X V b chain_id acc (itx # itxs) =
     (reversible X chain_id (fst acc) (snd itx)
      \<and> (case apply_tx X V b chain_id acc itx of
           Inl _ \<Rightarrow> True
         | Inr acc' \<Rightarrow> reversible_run X V b chain_id acc' itxs))"

lemma unapply_apply_tx:
  assumes wf: "wf_state X s" and vm: "vm_ok V" and rev: "reversible X chain_id s tx" and cb: "\<not> tx_is_coinbase tx"
    and new: "fmlookup (storage_undo s) (txid X tx) = None" "fmlookup (value_transfers_undo s) (txid X tx) = None"
    and app: "apply_tx X V b chain_id (s, v, rs0) (i, tx) = Inr (t, v', rs0 @ [r])"
    and rec: "receipt_success (t\<lparr>st_receipts := rs\<rparr>) (txid X tx) \<longleftrightarrow> rc_status r = TxSuccess"
  shows "unapply_tx X chain_id (t\<lparr>st_receipts := rs\<rparr>) tx = Inr (s\<lparr>st_receipts := rs\<rparr>)"
proof (cases tx)
  case (Transfer x)
  with app cb obtain s1 s2 where "debit (t_from x) (t_amount x) s = Inr s1" "credit (t_to x) (t_amount x) s1 = Inr s2"
    "t = set_nonce (t_from x) (get_nonce s2 (t_from x) + 1) s2"
    by (auto simp: apply_tx_def deduct_sender_def credit_receiver_def increment_nonce_def split: if_splits)
  from unapply_transfer [OF wf_clean [OF wf] this, of rs] Transfer cb show ?thesis
    by (simp add: unapply_tx_def decrement_nonce_def debit_receiver_def credit_sender_def)
next
  case (Create c)
  with app obtain w w' where "apply_create X V s c chain_id w b (of_nat i) = Inr (t, w', r)"
    by (auto simp: apply_tx_def split: option.splits)
  with unapply_apply_create [OF wf vm, of c chain_id w b "of_nat i" t w' r rs] new rec rev Create
  show ?thesis by (simp add: unapply_tx_def reversible_def)
next
  case (Call k)
  with app obtain w where "apply_call X V s b k w (of_nat i) = Inr (t, r)"
    by (auto simp: apply_tx_def split: option.splits)
  with unapply_apply_call [OF wf vm, of k b w "of_nat i" t r rs] new rec rev Call
  show ?thesis by (simp add: unapply_tx_def reversible_def)
qed

lemma reversible_code: "reversible X chain_id s tx \<Longrightarrow> code_hashes_ok X tx"
  by (simp add: reversible_def code_hashes_ok_def split: transaction.splits)

lemma receipt_success_find:
  "find (\<lambda>x. rc_txid x = tid) rs = Some r \<Longrightarrow> receipt_success (t\<lparr>st_receipts := rs\<rparr>) tid \<longleftrightarrow> rc_status r = TxSuccess"
  by (simp add: receipt_success_def)

lemma unapply_apply_txs:
  assumes "wf_state X s" and "vm_ok V" and "list_all (\<lambda>tx. \<not> tx_is_coinbase tx) txs" and "distinct (map (txid X) txs)"
    and "\<forall>tx\<in>set txs. fmlookup (storage_undo s) (txid X tx) = None \<and> fmlookup (value_transfers_undo s) (txid X tx) = None"
    and "reversible_run X V b chain_id (s, v, rs0) (enumerate n txs)"
    and "foldM (apply_tx X V b chain_id) (s, v, rs0) (enumerate n txs) = Inr (t, v', rs1)"
  shows "\<exists>new. rs1 = rs0 @ new \<and> map rc_txid new = map (txid X) txs \<and>
    (\<forall>rs. (\<forall>r\<in>set new. find (\<lambda>x. rc_txid x = rc_txid r) rs = Some r) \<longrightarrow>
       foldM (unapply_tx X chain_id) (t\<lparr>st_receipts := rs\<rparr>) (rev txs) = Inr (s\<lparr>st_receipts := rs\<rparr>))"
  using assms
proof (induction txs arbitrary: s v rs0 n)
  case (Cons tx txs)
  from Cons.prems(7) obtain s1 v1 rs1' where
    app: "apply_tx X V b chain_id (s, v, rs0) (n, tx) = Inr (s1, v1, rs1')"
    and rest: "foldM (apply_tx X V b chain_id) (s1, v1, rs1') (enumerate (Suc n) txs) = Inr (t, v', rs1)"
    by auto
  have cb: "\<not> tx_is_coinbase tx" using Cons.prems(3) by simp
  from apply_tx_receipt [OF app cb] obtain r where rs1': "rs1' = rs0 @ [r]" and r: "rc_txid r = txid X tx" by blast
  have rev: "reversible X chain_id s tx" and run: "reversible_run X V b chain_id (s1, v1, rs1') (enumerate (Suc n) txs)"
    using Cons.prems(6) app by simp_all
  have wf1: "wf_state X s1" by (rule wf_apply_tx [OF Cons.prems(1) app reversible_code [OF rev]])
  have "\<forall>tx'\<in>set txs. fmlookup (storage_undo s1) (txid X tx') = None \<and> fmlookup (value_transfers_undo s1) (txid X tx') = None"
  proof
    fix tx' assume "tx' \<in> set txs"
    with Cons.prems(4,5) have "txid X tx \<noteq> txid X tx'"
      and "fmlookup (storage_undo s) (txid X tx') = None \<and> fmlookup (value_transfers_undo s) (txid X tx') = None"
      by (auto simp: rev_image_eqI)
    with apply_tx_undo_maps [OF wf_clean [OF Cons.prems(1)] app _ reversible_code [OF rev]]
    show "fmlookup (storage_undo s1) (txid X tx') = None \<and> fmlookup (value_transfers_undo s1) (txid X tx') = None"
      by simp
  qed
  from Cons.IH [OF wf1 Cons.prems(2) _ _ this run rest] Cons.prems(3,4) obtain new where
    new: "rs1 = rs1' @ new" "map rc_txid new = map (txid X) txs"
    and IH: "\<And>rs. (\<forall>r\<in>set new. find (\<lambda>x. rc_txid x = rc_txid r) rs = Some r) \<Longrightarrow>
       foldM (unapply_tx X chain_id) (t\<lparr>st_receipts := rs\<rparr>) (rev txs) = Inr (s1\<lparr>st_receipts := rs\<rparr>)"
    by auto
  have "foldM (unapply_tx X chain_id) (t\<lparr>st_receipts := rs\<rparr>) (rev (tx # txs)) = Inr (s\<lparr>st_receipts := rs\<rparr>)"
    if found: "\<forall>r\<in>set (r # new). find (\<lambda>x. rc_txid x = rc_txid r) rs = Some r" for rs
  proof -
    have "unapply_tx X chain_id (s1\<lparr>st_receipts := rs\<rparr>) tx = Inr (s\<lparr>st_receipts := rs\<rparr>)"
      using app found r Cons.prems(5)
      by (intro unapply_apply_tx [OF Cons.prems(1,2) rev cb]) (auto simp: rs1' intro!: receipt_success_find)
    with IH [of rs] found show ?thesis by (simp add: foldM_append)
  qed
  with new r show ?case by (intro exI [of _ "r # new"]) (simp add: rs1')
qed simp

lemma find_distinct:
  "distinct (map f xs) \<Longrightarrow> x \<in> set xs \<Longrightarrow> find (\<lambda>y. f y = f x) xs = Some x"
  by (induction xs) force+

text \<open>The shape of the blocks that can be reversed, as a condition that can be evaluated.\<close>

definition block_reversible :: "ext \<Rightarrow> 'v vm_executor \<Rightarrow> state \<Rightarrow> block \<Rightarrow> u32 \<Rightarrow> 'v option \<Rightarrow> bool" where
  "block_reversible X V s b chain_id vm \<longleftrightarrow>
     distinct (map (txid X) (blk_transactions b))
     \<and> list_all (\<lambda>tx. fmlookup (storage_undo s) (txid X tx) = None \<and> fmlookup (value_transfers_undo s) (txid X tx) = None)
         (blk_transactions b)
     \<and> (case blk_transactions b of
          Transfer cb # txs \<Rightarrow>
            t_is_coinbase cb \<and> list_all (\<lambda>tx. \<not> tx_is_coinbase tx) txs
            \<and> (case credit_receiver (s\<lparr>st_receipts := []\<rparr>) cb of
                 Inr u \<Rightarrow> reversible_run X V b chain_id (u, vm, [transfer_receipt X (Transfer cb) b 0 []]) (enumerate 1 txs)
               | Inl _ \<Rightarrow> True)
        | _ \<Rightarrow> False)"

theorem unapply_apply_block:
  assumes wf: "wf_state X s" and vm: "vm_ok V" and shape: "block_reversible X V s b chain_id v"
    and height: "blk_index b \<noteq> 0" and app: "apply_block_inner X V s b chain_id v = Inr (t, v')"
  shows "unapply_block X t b chain_id = Inr (s\<lparr>st_receipts := []\<rparr>)"
proof -
  let ?s = "s\<lparr>st_receipts := []\<rparr>"
  from shape obtain cb txs where txs: "blk_transactions b = Transfer cb # txs" and cb: "t_is_coinbase cb"
    and others: "list_all (\<lambda>tx. \<not> tx_is_coinbase tx) txs" and dist: "distinct (map (txid X) (Transfer cb # txs))"
    by (auto simp: block_reversible_def split: list.splits transaction.splits)
  from app height obtain w rs where an: "apply_non_genesis X V ?s b chain_id v = Inr (w, v', rs)"
    and t: "t = w\<lparr>st_receipts := rs\<rparr>" by (auto simp: apply_block_inner_def split: prod.splits)
  from an obtain u where u: "credit_receiver ?s cb = Inr u"
    and fold: "foldM (apply_tx X V b chain_id) (u, v, [transfer_receipt X (Transfer cb) b 0 []]) (enumerate 1 txs) = Inr (w, v', rs)"
    by (rule apply_non_genesisE) (use cb in \<open>auto simp: txs apply_tx_def\<close>)
  have step: "balance_step ?s u"
    using u wf_clean [OF wf] by (intro balance_step_credit) (auto simp: credit_receiver_def)
  have wfu: "wf_state X u" using balance_step_wf [OF step] wf by simp
  have run: "reversible_run X V b chain_id (u, v, [transfer_receipt X (Transfer cb) b 0 []]) (enumerate 1 txs)"
    using shape by (simp add: block_reversible_def txs u)
  have undo: "\<forall>tx\<in>set txs. fmlookup (storage_undo u) (txid X tx) = None \<and> fmlookup (value_transfers_undo u) (txid X tx) = None"
    using shape step by (simp add: block_reversible_def txs balance_step_def list_all_iff)
  from unapply_apply_txs [OF wfu vm others _ undo run fold] dist obtain new where
    rs: "rs = transfer_receipt X (Transfer cb) b 0 [] # new" and ids: "map rc_txid new = map (txid X) txs"
    and unwind: "(\<forall>r\<in>set new. find (\<lambda>x. rc_txid x = rc_txid r) rs = Some r) \<Longrightarrow>
       foldM (unapply_tx X chain_id) (w\<lparr>st_receipts := rs\<rparr>) (rev txs) = Inr (u\<lparr>st_receipts := rs\<rparr>)"
    by auto
  have "distinct (map rc_txid rs)" using dist by (simp add: rs ids)
  then have "\<forall>r\<in>set new. find (\<lambda>x. rc_txid x = rc_txid r) rs = Some r"
    using find_distinct [of rc_txid rs] by (simp add: rs)
  note unwound = unwind [OF this]
  from u have "credit (t_to cb) (t_amount cb) ?s = Inr u" by (simp add: credit_receiver_def)
  from debit_credit [OF this, of "u\<lparr>st_receipts := rs\<rparr>"] obtain z where
    z: "debit (t_to cb) (t_amount cb) (u\<lparr>st_receipts := rs\<rparr>) = Inr z" "get_balance z = get_balance s" by auto
  have "balance_step (u\<lparr>st_receipts := rs\<rparr>) z" using wf_clean [OF wfu] by (intro balance_step_debit [OF _ z(1)]) simp
  then have "z\<lparr>st_receipts := []\<rparr> = ?s"
    using step z(2) wf_clean [OF wf] by (intro state_eqI) (simp_all add: balance_step_def)
  then show ?thesis
    using height unwound z(1) cb
    by (simp add: unapply_block_def unapply_non_genesis_def txs t foldM_append unapply_tx_def debit_receiver_def)
qed

theorem unapply_apply_genesis:
  assumes cl: "clean s" and height: "blk_index b = 0" and app: "apply_block_inner X V s b chain_id v = Inr (t, v')"
  shows "unapply_block X t b chain_id = Inr (s\<lparr>st_receipts := []\<rparr>)"
proof -
  have gen: "foldM unapply_genesis_tx (t\<lparr>st_receipts := q\<rparr>) (rev txs) = Inr (s\<lparr>st_receipts := q\<rparr>)"
    if "clean s" and "foldM (apply_genesis_tx X b chain_id) (s, rs0) (enumerate n txs) = Inr (t, rs)" for s rs0 n txs t rs q
    using that
  proof (induction txs arbitrary: s rs0 n)
    case (Cons tx txs)
    from Cons.prems(2) obtain s1 rs1 where tx: "apply_genesis_tx X b chain_id (s, rs0) (n, tx) = Inr (s1, rs1)"
      and rest: "foldM (apply_genesis_tx X b chain_id) (s1, rs1) (enumerate (Suc n) txs) = Inr (t, rs)" by auto
    from tx obtain y where y: "tx = Transfer y" and c: "credit (t_to y) (t_amount y) s = Inr s1"
      by (auto simp: apply_genesis_tx_def credit_receiver_def split: transaction.splits)
    have st: "balance_step s s1" by (rule balance_step_credit [OF Cons.prems(1) c])
    from debit_credit [OF c, of "s1\<lparr>st_receipts := q\<rparr>"] obtain z where
      z: "debit (t_to y) (t_amount y) (s1\<lparr>st_receipts := q\<rparr>) = Inr z" "get_balance z = get_balance s" by auto
    have "balance_step (s1\<lparr>st_receipts := q\<rparr>) z"
      using balance_step_clean [OF st] by (intro balance_step_debit [OF _ z(1)]) simp
    then have "z = s\<lparr>st_receipts := q\<rparr>"
      using st z(2) Cons.prems(1) by (intro state_eqI) (simp_all add: balance_step_def)
    with Cons.IH [OF balance_step_clean [OF st] rest] z(1) show ?case
      by (simp add: foldM_append unapply_genesis_tx_def y debit_receiver_def)
  qed simp
  from app height obtain w rs where
    fold: "foldM (apply_genesis_tx X b chain_id) (s\<lparr>st_receipts := []\<rparr>, []) (enumerate 0 (blk_transactions b)) = Inr (w, rs)"
    and t: "t = w\<lparr>st_receipts := rs\<rparr>"
    by (auto simp: apply_block_inner_def apply_genesis_def)
  have "foldM unapply_genesis_tx t (rev (blk_transactions b)) = Inr (s\<lparr>st_receipts := rs\<rparr>)"
    using gen [OF _ fold, of rs] cl by (simp add: t)
  then show ?thesis using height by (simp add: unapply_block_def unapply_genesis_def)
qed

end
