(* ===== verification/Sc_Witness.thy ===== *)
theory Sc_Witness
  imports Sc_State
begin

unbundle bit_operations_syntax

text \<open>
  Stateless verification: the multi-leaf root update of
  \<open>crates/strangecoin-core/src/state/sparse_merkle.rs\<close> (\<open>root_after_updates\<close>) and the state witnesses
  of \<open>state/witness.rs\<close>.
\<close>

section \<open>Node paths\<close>

definition path_prefix :: "bytes \<Rightarrow> nat \<Rightarrow> bytes" where
  "path_prefix key depth =
     (let whole = depth div 8;
          prefix = copy_from_slice 0 (take whole key) zero32;
          rem = depth mod 8
      in if rem > 0 then prefix[whole := key ! whole AND push_bit (8 - rem) 0xff] else prefix)"

definition sibling_path :: "bytes \<Rightarrow> nat \<Rightarrow> bytes" where
  "sibling_path key level =
     (let path = path_prefix key level
      in if bit_at key level = 0
         then path[level div 8 := path ! (level div 8) OR push_bit (7 - level mod 8) 1] else path)"

section \<open>Replacing leaves\<close>

record leaf_update =
  lu_address :: string
  lu_pre :: account
  lu_proof :: "bytes list"
  lu_post :: account

type_synonym node_map = "(nat \<times> bytes, bytes) fmap"

text \<open>The first loop checks a pre-proof and enters its frontier; the second writes the new leaves; the
  third recomputes the ancestors of every key, from the leaf up.\<close>

definition seed_update :: "ext \<Rightarrow> bytes \<Rightarrow> node_map \<Rightarrow> leaf_update \<Rightarrow> core_error + node_map" where
  "seed_update X pre_root nodes u =
     (let key = account_key_hash X (lu_address u) in
      if \<not> verify_proof X pre_root (lu_address u) (lu_pre u) (lu_proof u) then Inl WitnessVerificationFailed
      else Inr (foldl (\<lambda>nodes level. fmupd (level + 1, sibling_path key level) (lu_proof u ! level) nodes)
        (fmupd (DEPTH, key) (leaf_hash_for X key (lu_pre u)) nodes) [0..<DEPTH]))"

definition post_update :: "ext \<Rightarrow> node_map \<Rightarrow> leaf_update \<Rightarrow> node_map" where
  "post_update X nodes u =
     (let key = account_key_hash X (lu_address u) in fmupd (DEPTH, key) (leaf_hash_for X key (lu_post u)) nodes)"

definition raise_level :: "ext \<Rightarrow> bytes \<Rightarrow> node_map \<Rightarrow> nat \<Rightarrow> core_error + node_map" where
  "raise_level X key nodes level =
     (let on_path = path_prefix key (level + 1);
          off_path = sibling_path key level;
          (left, right) = (if bit_at key level = 0 then (on_path, off_path) else (off_path, on_path))
      in bind_res (ok_or (fmlookup nodes (level + 1, left)) WitnessVerificationFailed) (\<lambda>left_hash.
         bind_res (ok_or (fmlookup nodes (level + 1, right)) WitnessVerificationFailed) (\<lambda>right_hash.
           Inr (fmupd (level, path_prefix key level) (hash_pair X left_hash right_hash) nodes))))"

definition raise_update :: "ext \<Rightarrow> node_map \<Rightarrow> leaf_update \<Rightarrow> core_error + node_map" where
  "raise_update X nodes u = foldM (raise_level X (account_key_hash X (lu_address u))) nodes (rev [0..<DEPTH])"

definition root_after_updates :: "ext \<Rightarrow> bytes \<Rightarrow> leaf_update list \<Rightarrow> core_error + bytes" where
  "root_after_updates X pre_root updates =
     (if updates = [] then Inr pre_root
      else
        bind_res (foldM (seed_update X pre_root) fmempty updates) (\<lambda>nodes.
        bind_res (foldM (raise_update X) (foldl (post_update X) nodes updates) updates) (\<lambda>nodes.
          ok_or (fmlookup nodes (0, zero32)) WitnessVerificationFailed)))"

section \<open>Witnesses\<close>

record account_proof =
  ap_balance :: u64
  ap_nonce :: u64
  ap_code_hash :: "bytes option"
  ap_storage_root :: "bytes option"
  ap_key_hash :: bytes
  ap_proof :: "bytes list"

definition proof_account :: "account_proof \<Rightarrow> account" where
  "proof_account p =
     (case (ap_code_hash p, ap_storage_root p) of
        (Some ch, Some sr) \<Rightarrow>
          Contract \<lparr> code_hash = ch, storage_root = sr, con_nonce = ap_nonce p, con_balance = ap_balance p \<rparr>
      | _ \<Rightarrow> account_eoa (ap_balance p) (ap_nonce p))"

record state_witness =
  sw_pre_state_root :: bytes
  sw_proofs :: "(string, account_proof) fmap"

definition build_trie :: "ext \<Rightarrow> state \<Rightarrow> smt_leaves" where
  "build_trie X s =
     foldl (\<lambda>trie (addr, a). trie_insert X addr a trie) fmempty
       (sort_key (\<lambda>(addr, _). blake3 X (as_bytes addr)) (sorted_list_of_fmap (balances s)))"

definition push_new :: "string list \<Rightarrow> string \<Rightarrow> string list" where
  "push_new addrs addr = (if addr \<in> set addrs then addrs else addrs @ [addr])"

definition touched_by :: "string list \<Rightarrow> transaction \<Rightarrow> string list" where
  "touched_by addrs tx =
     (if tx_is_coinbase tx then (case tx_receiver tx of Some r \<Rightarrow> push_new addrs r | None \<Rightarrow> addrs)
      else
        let addrs = push_new addrs (tx_sender tx)
        in case tx_receiver tx of Some r \<Rightarrow> push_new addrs r | None \<Rightarrow> addrs)"

definition collect_touched_addresses :: "block \<Rightarrow> string list" where
  "collect_touched_addresses b = foldl touched_by [] (blk_transactions b)"

definition account_or_default :: "state \<Rightarrow> string \<Rightarrow> account" where
  "account_or_default s addr = (case fmlookup (balances s) addr of Some a \<Rightarrow> a | None \<Rightarrow> account_default)"

definition build_proof :: "ext \<Rightarrow> state \<Rightarrow> smt_leaves \<Rightarrow> (string, account_proof) fmap \<Rightarrow> string
    \<Rightarrow> core_error + (string, account_proof) fmap" where
  "build_proof X s trie proofs addr =
     (let a = account_or_default s addr in
      bind_res (prove X trie addr a) (\<lambda>proof.
        let (ch, sr) = (case a of Contract c \<Rightarrow> (Some (code_hash c), Some (storage_root c)) | Eoa _ \<Rightarrow> (None, None))
        in Inr (fmupd addr
             \<lparr> ap_balance = acc_balance a, ap_nonce = acc_nonce a, ap_code_hash = ch, ap_storage_root = sr,
               ap_key_hash = blake3 X (as_bytes addr), ap_proof = proof \<rparr> proofs)))"

definition build_witness :: "ext \<Rightarrow> state \<Rightarrow> block \<Rightarrow> core_error + state_witness" where
  "build_witness X pre_state b =
     bind_res (foldM (build_proof X pre_state (build_trie X pre_state)) fmempty (collect_touched_addresses b)) (\<lambda>proofs.
       Inr \<lparr> sw_pre_state_root = compute_root X (balances pre_state), sw_proofs = proofs \<rparr>)"

text \<open>The witness is iterated in the order of its addresses; the result does not depend on it, since the
  entries have different keys.\<close>

definition witness_updates :: "state_witness \<Rightarrow> state \<Rightarrow> leaf_update list" where
  "witness_updates w post_state =
     map (\<lambda>(addr, p). \<lparr> lu_address = addr, lu_pre = proof_account p, lu_proof = ap_proof p,
            lu_post = account_or_default post_state addr \<rparr>) (sorted_list_of_fmap (sw_proofs w))"

definition reconstruct :: "state_witness \<Rightarrow> state" where
  "reconstruct w = state_new\<lparr>balances := fmmap proof_account (sw_proofs w)\<rparr>"

definition verify_block_stateless :: "ext \<Rightarrow> bytes \<Rightarrow> block \<Rightarrow> u32 \<Rightarrow> state_witness \<Rightarrow> core_error + unit" where
  "verify_block_stateless X parent_state_root b chain_id w =
     (if sw_pre_state_root w \<noteq> parent_state_root then Inl WitnessVerificationFailed
      else if \<not> list_all (\<lambda>(addr, p). verify_proof X parent_state_root addr (proof_account p) (ap_proof p))
             (sorted_list_of_fmap (sw_proofs w)) then Inl WitnessVerificationFailed
      else if \<not> list_all (\<lambda>addr. fmlookup (sw_proofs w) addr \<noteq> None) (collect_touched_addresses b)
      then Inl WitnessVerificationFailed
      else
        bind_res (apply_block X (reconstruct w) b chain_id) (\<lambda>post_state.
        bind_res (root_after_updates X parent_state_root (witness_updates w post_state)) (\<lambda>computed.
          if blk_index b = 0 \<and> blk_state_root b = zero32 then Inr ()
          else if blk_state_root b \<noteq> computed then Inl (PostStateRootMismatch (blk_state_root b) computed)
          else Inr ())))"

section \<open>Paths as bits\<close>

lemma length_path_prefix [simp]: "length key = 32 \<Longrightarrow> depth \<le> 256 \<Longrightarrow> length (path_prefix key depth) = 32"
  by (simp add: path_prefix_def Let_def copy_from_slice_def)

lemma length_sibling_path [simp]: "length key = 32 \<Longrightarrow> level < 256 \<Longrightarrow> length (sibling_path key level) = 32"
  by (simp add: sibling_path_def Let_def)

lemma path_prefix_nth:
  assumes "length key = 32" and "depth \<le> 256" and "j < 32"
  shows "path_prefix key depth ! j =
    (if j < depth div 8 then key ! j
     else if j = depth div 8 \<and> depth mod 8 > 0 then key ! j AND push_bit (8 - depth mod 8) 0xff else 0)"
proof -
  have "length (copy_from_slice 0 (take (depth div 8) key) zero32) = 32"
    using assms by (simp add: copy_from_slice_def)
  moreover have "depth div 8 < 32" if "depth mod 8 > 0"
    using that assms(2) by presburger
  ultimately show ?thesis
    using assms by (auto simp: path_prefix_def Let_def copy_from_slice_def nth_append zero32_def nth_list_update)
qed

lemma bit_high_mask:
  "0 < r \<Longrightarrow> r < 8 \<Longrightarrow> i < 8 \<Longrightarrow> bit (push_bit (8 - r) 255 :: u8) (7 - i) \<longleftrightarrow> i < r"
proof -
  assume r: "0 < r" "r < 8" and i: "i < 8"
  have m: "(255 :: u8) = mask 8" by (simp add: mask_eq_exp_minus_1)
  have "8 - r \<le> 7 - i \<longleftrightarrow> i < r" using r i by linarith
  moreover have "7 - i - (8 - r) < 8" "7 - i < 8" using r i by linarith+
  ultimately show ?thesis unfolding m bit_push_bit_iff bit_mask_iff by simp
qed

lemma bit_single: "bit (push_bit k 1 :: u8) n \<longleftrightarrow> n = k \<and> n < 8"
  unfolding bit_push_bit_iff bit_1_iff by auto

lemma bit_at_path_prefix:
  assumes "length key = 32" and "depth \<le> 256" and "i < 256"
  shows "bit_at (path_prefix key depth) i = 1 \<longleftrightarrow> i < depth \<and> bit_at key i = 1"
proof -
  have j: "i div 8 < 32" using assms(3) by presburger
  consider "i div 8 < depth div 8" | "i div 8 = depth div 8" | "depth div 8 < i div 8" by linarith
  then show ?thesis
  proof cases
    case 1
    then have "i < depth" by (meson div_le_mono not_less)
    with 1 show ?thesis using j assms by (simp add: bit_at_bit path_prefix_nth)
  next
    case 2
    have "i < depth \<longleftrightarrow> i mod 8 < depth mod 8" using 2 div_mult_mod_eq [of i 8] div_mult_mod_eq [of depth 8] by linarith
    moreover have "bit (push_bit (8 - depth mod 8) 255 :: u8) (7 - i mod 8) \<longleftrightarrow> i mod 8 < depth mod 8" if "depth mod 8 > 0"
      using that by (simp add: bit_high_mask)
    ultimately show ?thesis
      using 2 j assms by (auto simp: bit_at_bit path_prefix_nth bit_and_iff)
  next
    case 3
    then have "\<not> i < depth" by (meson div_le_mono less_imp_le not_less)
    with 3 show ?thesis using j assms by (simp add: bit_at_bit path_prefix_nth)
  qed
qed

lemma key_bits_path_prefix:
  assumes "length key = 32" and "depth \<le> 256"
  shows "key_bits (path_prefix key depth) = take depth (key_bits key) @ replicate (256 - depth) False"
proof (rule nth_equalityI)
  fix i assume "i < length (key_bits (path_prefix key depth))"
  then show "key_bits (path_prefix key depth) ! i = (take depth (key_bits key) @ replicate (256 - depth) False) ! i"
    using assms by (simp add: key_bits_nth bit_at_path_prefix nth_append)
qed (use assms in simp)

lemma bit_at_sibling_path:
  assumes "length key = 32" and "level < 256" and "i < 256"
  shows "bit_at (sibling_path key level) i = 1 \<longleftrightarrow> (if i = level then bit_at key i \<noteq> 1 else i < level \<and> bit_at key i = 1)"
proof (cases "bit_at key level = 0")
  case True
  let ?p = "path_prefix key level"
  have len: "length ?p = 32" "level div 8 < 32" "i div 8 < 32" using assms by (simp, presburger, presburger)
  have b1: "bit (push_bit (7 - level mod 8) 1 :: u8) (7 - i mod 8) \<longleftrightarrow> i mod 8 = level mod 8"
    by (simp only: bit_single) auto
  have "bit_at (sibling_path key level) i = 1 \<longleftrightarrow> bit_at ?p i = 1 \<or> i div 8 = level div 8 \<and> i mod 8 = level mod 8"
    using True len b1 by (auto simp: sibling_path_def Let_def bit_at_bit nth_list_update bit_or_iff)
  also have "i div 8 = level div 8 \<and> i mod 8 = level mod 8 \<longleftrightarrow> i = level"
    by (metis div_mult_mod_eq)
  finally show ?thesis using True assms bit_at_path_prefix [of key level i] by auto
next
  case False
  then show ?thesis
    using assms bit_at_path_prefix [of key level i] by (auto simp: sibling_path_def Let_def bit_at_eq_0)
qed

lemma key_bits_sibling_path:
  assumes "length key = 32" and "level < 256"
  shows "key_bits (sibling_path key level)
    = take level (key_bits key) @ (\<not> key_bits key ! level) # replicate (255 - level) False"
proof (rule nth_equalityI)
  fix i assume "i < length (key_bits (sibling_path key level))"
  then show "key_bits (sibling_path key level) ! i
      = (take level (key_bits key) @ (\<not> key_bits key ! level) # replicate (255 - level) False) ! i"
    using assms by (auto simp: key_bits_nth bit_at_sibling_path nth_append nth_Cons')
qed (use assms in simp)

text \<open>A node of the tree is a level with a key whose bits from that level on are zero.\<close>

definition position_ok :: "nat \<times> bytes \<Rightarrow> bool" where
  "position_ok n \<longleftrightarrow> fst n \<le> 256 \<and> length (snd n) = 32
     \<and> key_bits (snd n) = take (fst n) (key_bits (snd n)) @ replicate (256 - fst n) False"

abbreviation node_path :: "nat \<times> bytes \<Rightarrow> bool list" where
  "node_path n \<equiv> take (fst n) (key_bits (snd n))"

lemma node_eq:
  assumes "position_ok n" and "position_ok n'" and "fst n = fst n'" and "node_path n = node_path n'"
  shows "n = n'"
proof -
  have "key_bits (snd n) = key_bits (snd n')" using assms by (metis position_ok_def)
  then have "snd n = snd n'" using assms key_bits_inj by (metis position_ok_def)
  then show ?thesis using assms(3) by (simp add: prod_eq_iff)
qed

lemma node_prefix:
  assumes "length key = 32" and "depth \<le> 256"
  shows "position_ok (depth, path_prefix key depth)" and "node_path (depth, path_prefix key depth) = take depth (key_bits key)"
  using assms by (simp_all add: position_ok_def key_bits_path_prefix)

lemma node_sibling:
  assumes "length key = 32" and "level < 256"
  shows "position_ok (level + 1, sibling_path key level)"
    and "node_path (level + 1, sibling_path key level) = take level (key_bits key) @ [\<not> key_bits key ! level]"
  using assms by (simp_all add: position_ok_def key_bits_sibling_path)

lemma path_prefix_full: "length key = 32 \<Longrightarrow> path_prefix key 256 = key"
  by (rule key_bits_inj) (simp_all add: key_bits_path_prefix)

lemma path_prefix_zero: "length key = 32 \<Longrightarrow> path_prefix key 0 = zero32"
  by (simp add: path_prefix_def copy_from_slice_def)

subsection \<open>Node hashes\<close>

definition node_hash :: "ext \<Rightarrow> (bool list \<Rightarrow> bytes option) \<Rightarrow> nat \<times> bytes \<Rightarrow> bytes" where
  "node_hash X m n = smt X (256 - fst n) (\<lambda>p. m (node_path n @ p))"

definition touching :: "bytes set \<Rightarrow> nat \<times> bytes \<Rightarrow> bytes set" where
  "touching K n = {k \<in> K. take (fst n) (key_bits k) = node_path n}"

lemma siblings_nth:
  "l < length p \<Longrightarrow> siblings X p m ! l = smt X (length p - Suc l) (\<lambda>q. m (take l p @ (\<not> p ! l) # q))"
proof (induction p arbitrary: m l)
  case (Cons b p)
  then show ?case by (cases l) simp_all
qed simp

lemma node_hash_leaf: "length k = 32 \<Longrightarrow> node_hash X m (256, k) = leaf_at m (key_bits k)"
  by (simp add: node_hash_def leaf_at_def)

lemma node_hash_sibling:
  assumes "length k = 32" and "l < 256"
  shows "node_hash X m (l + 1, sibling_path k l) = siblings X (key_bits k) m ! l"
  using assms node_sibling(2) [OF assms] by (simp add: node_hash_def siblings_nth)

lemma node_hash_step:
  assumes "length k = 32" and "l < 256"
  shows "node_hash X m (l, path_prefix k l) =
    (if key_bits k ! l
     then hash_pair X (node_hash X m (l + 1, sibling_path k l)) (node_hash X m (l + 1, path_prefix k (l + 1)))
     else hash_pair X (node_hash X m (l + 1, path_prefix k (l + 1))) (node_hash X m (l + 1, sibling_path k l)))"
proof -
  have n: "256 - l = Suc (255 - l)" using assms(2) by simp
  show ?thesis
    using assms node_sibling(2) [OF assms] node_prefix(2) [OF assms(1), of "l + 1"] node_prefix(2) [OF assms(1), of l]
    by (simp add: node_hash_def n take_Suc_conv_app_nth)
qed

lemma touching_on_path:
  assumes "position_ok n" and "k \<in> touching K n" and "length k = 32"
  shows "n = (fst n, path_prefix k (fst n))"
proof (rule node_eq)
  have f: "fst n \<le> 256" using assms(1) by (simp add: position_ok_def)
  show "position_ok (fst n, path_prefix k (fst n))" using node_prefix(1) [OF assms(3) f] .
  show "node_path n = node_path (fst n, path_prefix k (fst n))"
    using assms(2) node_prefix(2) [OF assms(3) f] by (simp add: touching_def)
qed (use assms in simp_all)

lemma touching_prefix:
  "length k = 32 \<Longrightarrow> l \<le> 256 \<Longrightarrow> touching K (l, path_prefix k l) = {x \<in> K. take l (key_bits x) = take l (key_bits k)}"
  using node_prefix(2) [of k l] by (simp add: touching_def)

lemma touching_sibling:
  "length k = 32 \<Longrightarrow> l < 256 \<Longrightarrow>
   touching K (l + 1, sibling_path k l) = {x \<in> K. take (l + 1) (key_bits x) = take l (key_bits k) @ [\<not> key_bits k ! l]}"
  using node_sibling(2) [of k l] by (simp add: touching_def)

lemma touching_children:
  assumes "length k = 32" and "l < 256" and "k \<in> K"
  shows "touching K (l + 1, path_prefix k (l + 1)) \<subseteq> touching K (l, path_prefix k l)"
    and "touching K (l + 1, sibling_path k l) \<subseteq> touching K (l, path_prefix k l) - {k}"
    and "k \<in> touching K (l, path_prefix k l)"
proof -
  have up: "take l (key_bits x) = take l (key_bits k)"
    if "take (l + 1) (key_bits x) = take l (key_bits k) @ [b]" for x b
    using arg_cong [OF that, of "take l"] assms(2) by simp
  have on: "take (l + 1) (key_bits k) = take l (key_bits k) @ [key_bits k ! l]"
    using assms(2) by (simp add: take_Suc_conv_app_nth)
  have p: "touching K (l, path_prefix k l) = {x \<in> K. take l (key_bits x) = take l (key_bits k)}"
    "touching K (l + 1, path_prefix k (l + 1)) = {x \<in> K. take (l + 1) (key_bits x) = take (l + 1) (key_bits k)}"
    by (rule touching_prefix, use assms in simp_all)+
  show "touching K (l + 1, path_prefix k (l + 1)) \<subseteq> touching K (l, path_prefix k l)"
    unfolding p on using up by blast
  show "touching K (l + 1, sibling_path k l) \<subseteq> touching K (l, path_prefix k l) - {k}"
  proof
    fix x assume "x \<in> touching K (l + 1, sibling_path k l)"
    then have x: "x \<in> K" "take (l + 1) (key_bits x) = take l (key_bits k) @ [\<not> key_bits k ! l]"
      by (simp_all only: touching_sibling [OF assms(1,2)] mem_Collect_eq)
    then have "x \<noteq> k" using on by (metis append1_eq_conv)
    with x(1) up [OF x(2)] show "x \<in> touching K (l, path_prefix k l) - {k}" unfolding p by blast
  qed
  show "k \<in> touching K (l, path_prefix k l)"
    unfolding p using assms(3) by simp
qed

subsection \<open>Recomputing the ancestors\<close>

text \<open>Once the keys in \<open>D\<close> are processed, every node in the map all of whose updated descendants are
  in \<open>D\<close> holds the hash of its subtree in the new tree \<open>m\<close>.\<close>

definition raised :: "ext \<Rightarrow> (bool list \<Rightarrow> bytes option) \<Rightarrow> bytes set \<Rightarrow> bytes set \<Rightarrow> node_map \<Rightarrow> bool" where
  "raised X m K D nodes \<longleftrightarrow>
     (\<forall>n v. fmlookup nodes n = Some v \<longrightarrow> position_ok n \<longrightarrow> fst n = 256 \<or> touching K n \<subseteq> D \<longrightarrow> v = node_hash X m n)
     \<and> (\<forall>k\<in>K. fmlookup nodes (256, k) \<noteq> None \<and> (\<forall>l<256. fmlookup nodes (l + 1, sibling_path k l) \<noteq> None))"

text \<open>The same while the key \<open>k\<close> is processed, its ancestors from level \<open>l\<close> down done.\<close>

definition raising where
  "raising X m K D k l nodes \<longleftrightarrow> raised X m K D nodes
     \<and> (\<forall>j\<le>256. l \<le> j \<longrightarrow> (\<exists>v. fmlookup nodes (j, path_prefix k j) = Some v
          \<and> (touching K (j, path_prefix k j) \<subseteq> insert k D \<longrightarrow> v = node_hash X m (j, path_prefix k j))))"

lemma raisedD:
  "raised X m K D nodes \<Longrightarrow> fmlookup nodes n = Some v \<Longrightarrow> position_ok n \<Longrightarrow> fst n = 256 \<or> touching K n \<subseteq> D \<Longrightarrow>
   v = node_hash X m n"
  unfolding raised_def by blast

lemma raised_frontier:
  assumes "raised X m K D nodes" and "k \<in> K"
  shows "\<exists>v. fmlookup nodes (256, k) = Some v"
    and "l < 256 \<Longrightarrow> \<exists>v. fmlookup nodes (l + 1, sibling_path k l) = Some v"
  using assms unfolding raised_def by blast+

lemma raisingD:
  assumes "raising X m K D k l nodes" and "j \<le> 256" and "l \<le> j"
  shows "\<exists>v. fmlookup nodes (j, path_prefix k j) = Some v
    \<and> (touching K (j, path_prefix k j) \<subseteq> insert k D \<longrightarrow> v = node_hash X m (j, path_prefix k j))"
  using assms unfolding raising_def by blast

lemma raising_start:
  assumes "raised X m K D nodes" and "k \<in> K" and "length k = 32"
  shows "raising X m K D k 256 nodes"
proof -
  obtain v where v: "fmlookup nodes (256, k) = Some v" using raised_frontier(1) [OF assms(1,2)] by blast
  moreover have "position_ok (256, k)" using assms(3) by (simp add: position_ok_def)
  ultimately have "v = node_hash X m (256, k)" using raisedD [OF assms(1)] by simp
  with v assms(1,3) show ?thesis by (auto simp: raising_def path_prefix_full)
qed

lemma raised_upd:
  assumes "raised X m K D nodes" and "touching K n \<subseteq> D \<Longrightarrow> v = node_hash X m n" and "fst n < 256"
  shows "raised X m K D (fmupd n v nodes)"
  unfolding raised_def
proof (intro conjI allI impI ballI)
  fix n' v'
  assume "fmlookup (fmupd n v nodes) n' = Some v'" "position_ok n'" "fst n' = 256 \<or> touching K n' \<subseteq> D"
  then show "v' = node_hash X m n'" using raisedD [OF assms(1), of n' v'] assms(2,3) by (cases "n' = n") auto
qed (use raised_frontier [OF assms(1)] in \<open>simp_all\<close>)

lemma raise_level_raising:
  assumes inv: "raising X m K D k (l + 1) nodes" and k: "k \<in> K" "length k = 32" and l: "l < 256"
  shows "\<exists>nodes'. raise_level X k nodes l = Inr nodes' \<and> raising X m K D k l nodes'"
proof -
  let ?n = "(l, path_prefix k l)" and ?on = "(l + 1, path_prefix k (l + 1))" and ?off = "(l + 1, sibling_path k l)"
  have R: "raised X m K D nodes" using inv by (simp add: raising_def)
  obtain a where a: "fmlookup nodes ?on = Some a" "touching K ?on \<subseteq> insert k D \<Longrightarrow> a = node_hash X m ?on"
    using raisingD [OF inv, of "l + 1"] l by fastforce
  obtain b where b: "fmlookup nodes ?off = Some b" using raised_frontier(2) [OF R k(1) l] by blast
  have b': "b = node_hash X m ?off" if "touching K ?off \<subseteq> D"
    using raisedD [OF R b node_sibling(1) [OF k(2) l]] that by blast
  define v where "v = (if key_bits k ! l then hash_pair X b a else hash_pair X a b)"
  have run: "raise_level X k nodes l = Inr (fmupd ?n v nodes)"
  proof (cases "bit_at k l = 0")
    case True
    then show ?thesis
      using a(1) b l by (simp only: raise_level_def v_def key_bits_nth Let_def) simp
  next
    case False
    then show ?thesis
      using a(1) b l by (simp only: raise_level_def v_def key_bits_nth bit_at_eq_0 Let_def) simp
  qed
  have v: "v = node_hash X m ?n" if "touching K ?n \<subseteq> insert k D"
  proof -
    have "touching K ?on \<subseteq> insert k D" and "touching K ?off \<subseteq> D"
      using that touching_children [OF k(2) l k(1)] by blast+
    then show ?thesis using a(2) b' by (simp only: v_def node_hash_step [OF k(2) l])
  qed
  then have R': "raised X m K D (fmupd ?n v nodes)" by (intro raised_upd [OF R]) (use l in auto)
  have "raising X m K D k l (fmupd ?n v nodes)"
    unfolding raising_def
  proof (intro conjI allI impI)
    fix j assume j: "j \<le> 256" "l \<le> j"
    show "\<exists>v'. fmlookup (fmupd ?n v nodes) (j, path_prefix k j) = Some v'
      \<and> (touching K (j, path_prefix k j) \<subseteq> insert k D \<longrightarrow> v' = node_hash X m (j, path_prefix k j))"
    proof (cases "j = l")
      case True
      with v show ?thesis by simp
    next
      case False
      with j have "l + 1 \<le> j" by simp
      from raisingD [OF inv j(1) this] False show ?thesis by simp
    qed
  qed (rule R')
  with run show ?thesis by blast
qed

lemma raise_levels:
  assumes "raising X m K D k n nodes" and "k \<in> K" "length k = 32" and "n \<le> 256"
  shows "\<exists>nodes'. foldM (raise_level X k) nodes (rev [0..<n]) = Inr nodes' \<and> raising X m K D k 0 nodes'"
  using assms(1,4)
proof (induction n arbitrary: nodes)
  case (Suc n)
  then obtain nodes' where "raise_level X k nodes n = Inr nodes'" "raising X m K D k n nodes'"
    using raise_level_raising [OF _ assms(2,3), of X m D n nodes] by auto
  with Suc.IH [of nodes'] Suc.prems(2) show ?case by simp
qed simp

lemma raising_done:
  assumes "raising X m K D k 0 nodes" and "length k = 32"
  shows "raised X m K (insert k D) nodes"
  unfolding raised_def
proof (intro conjI allI impI ballI)
  have R: "raised X m K D nodes" using assms(1) by (simp add: raising_def)
  fix n v
  assume n: "fmlookup nodes n = Some v" "position_ok n" "fst n = 256 \<or> touching K n \<subseteq> insert k D"
  show "v = node_hash X m n"
  proof (cases "fst n = 256 \<or> touching K n \<subseteq> D")
    case True
    then show ?thesis by (rule raisedD [OF R n(1,2)])
  next
    case False
    with n(3) have "k \<in> touching K n" by blast
    from touching_on_path [OF n(2) this assms(2)] have eq: "n = (fst n, path_prefix k (fst n))" .
    have "fst n \<le> 256" using n(2) by (simp add: position_ok_def)
    from raisingD [OF assms(1) this] eq n(1,3) False show ?thesis by auto
  qed
qed (use assms(1) raised_frontier [of X m K D nodes] in \<open>simp_all add: raising_def\<close>)

lemma raise_updates:
  assumes "raised X m K D nodes" and "\<And>u. u \<in> set us \<Longrightarrow> account_key_hash X (lu_address u) \<in> K" and "hash32 X"
  shows "\<exists>nodes'. foldM (raise_update X) nodes us = Inr nodes'
    \<and> raised X m K (D \<union> (\<lambda>u. account_key_hash X (lu_address u)) ` set us) nodes'
    \<and> (us \<noteq> [] \<or> fmlookup nodes (0, zero32) \<noteq> None \<longrightarrow> fmlookup nodes' (0, zero32) \<noteq> None)"
  using assms(1,2)
proof (induction us arbitrary: D nodes)
  case (Cons u us)
  let ?k = "account_key_hash X (lu_address u)"
  have k: "?k \<in> K" "length ?k = 32" using Cons.prems(2) assms(3) by simp_all
  obtain nodes1 where r: "raise_update X nodes u = Inr nodes1" "raising X m K D ?k 0 nodes1"
    using raise_levels [OF raising_start [OF Cons.prems(1) k] k] by (auto simp: raise_update_def DEPTH_def)
  have "fmlookup nodes1 (0, zero32) \<noteq> None" using raisingD [OF r(2), of 0] k by (auto simp: path_prefix_zero)
  with Cons.IH [OF raising_done [OF r(2) k(2)]] Cons.prems(2) r(1) show ?case by fastforce
qed simp

subsection \<open>Seeding the map\<close>

definition seed_frontier :: "bytes \<Rightarrow> bytes list \<Rightarrow> node_map \<Rightarrow> nat \<Rightarrow> node_map" where
  "seed_frontier key proof nodes n =
     foldl (\<lambda>nodes level. fmupd (level + 1, sibling_path key level) (proof ! level) nodes) nodes [0..<n]"

lemma lookup_seed_frontier:
  "fmlookup (seed_frontier key proof nodes n) x =
    (if 0 < fst x \<and> fst x \<le> n \<and> snd x = sibling_path key (fst x - 1) then Some (proof ! (fst x - 1)) else fmlookup nodes x)"
proof (induction n)
  case (Suc n)
  have "fmlookup (seed_frontier key proof nodes (Suc n)) x
      = (if x = (n + 1, sibling_path key n) then Some (proof ! n) else fmlookup (seed_frontier key proof nodes n) x)"
    by (simp add: seed_frontier_def)
  then show ?case unfolding Suc.IH by (cases x) (simp add: le_Suc_eq)
qed (auto simp: seed_frontier_def)

lemma raised_seed:
  assumes R: "raised X m K K nodes" and k: "length k = 32"
    and leaf: "leaf = leaf_at m (key_bits k)" and pf: "proof = siblings X (key_bits k) m"
  shows "raised X m (insert k K) (insert k K) (seed_frontier k proof (fmupd (256, k) leaf nodes) 256)" (is "raised _ _ _ _ ?nodes")
  unfolding raised_def
proof (intro conjI allI impI ballI)
  fix n v assume n: "fmlookup ?nodes n = Some v" "position_ok n"
  have K: "touching K n \<subseteq> K" by (auto simp: touching_def)
  show "v = node_hash X m n"
  proof (cases "0 < fst n \<and> fst n \<le> 256 \<and> snd n = sibling_path k (fst n - 1)")
    case True
    then obtain l where l: "n = (l + 1, sibling_path k l)" "l < 256"
      by (metis Suc_eq_plus1 Suc_pred' less_eq_Suc_le prod.collapse)
    then show ?thesis using n(1) True node_hash_sibling [OF k l(2), of X m] by (simp add: lookup_seed_frontier pf)
  next
    case False
    then have "fmlookup (fmupd (256, k) leaf nodes) n = Some v"
      using n(1) unfolding lookup_seed_frontier by (simp only: if_False)
    then show ?thesis
      using raisedD [OF R, of n v] n(2) K by (cases "n = (256, k)") (auto simp: node_hash_leaf [OF k] leaf)
  qed
next
  fix k' assume "k' \<in> insert k K"
  then show "fmlookup ?nodes (256, k') \<noteq> None" using raised_frontier(1) [OF R, of k'] by (auto simp: lookup_seed_frontier)
next
  fix k' l assume "k' \<in> insert k K" and l: "l < (256 :: nat)"
  then consider "k' = k" | "k' \<in> K" by blast
  then show "fmlookup ?nodes (l + 1, sibling_path k' l) \<noteq> None"
  proof cases
    case 1
    then show ?thesis using l by (simp add: lookup_seed_frontier)
  next
    case 2
    then show ?thesis using raised_frontier(2) [OF R 2 l] by (auto simp: lookup_seed_frontier)
  qed
qed

text \<open>The leaves after the updates.\<close>

definition leaf_option :: "ext \<Rightarrow> string \<Rightarrow> account \<Rightarrow> bytes option" where
  "leaf_option X addr a = (if acc_is_empty a then None else Some (account_leaf_hash X (account_key_hash X addr) a))"

definition updated :: "ext \<Rightarrow> (bool list \<Rightarrow> bytes option) \<Rightarrow> leaf_update list \<Rightarrow> bool list \<Rightarrow> bytes option" where
  "updated X m us = foldl (\<lambda>m u. m(key_bits (account_key_hash X (lu_address u)) := leaf_option X (lu_address u) (lu_post u))) m us"

lemma updated_simps [simp]:
  "updated X m [] = m"
  "updated X m (u # us) = updated X (m(key_bits (account_key_hash X (lu_address u)) := leaf_option X (lu_address u) (lu_post u))) us"
  by (simp_all add: updated_def)

lemma node_hash_off_path:
  assumes "take (fst n) p \<noteq> node_path n" and "fst n \<le> 256"
  shows "node_hash X (m(p := v)) n = node_hash X m n"
proof -
  have "node_path n @ q \<noteq> p" for q
  proof
    assume "node_path n @ q = p"
    then have "take (fst n) p = node_path n" using assms(2) by auto
    with assms(1) show False by simp
  qed
  then show ?thesis by (simp add: node_hash_def)
qed

lemma raised_post:
  assumes R: "raised X m K {} nodes" and "account_key_hash X (lu_address u) \<in> K" and "hash32 X"
  shows "raised X (m(key_bits (account_key_hash X (lu_address u)) := leaf_option X (lu_address u) (lu_post u))) K {} (post_update X nodes u)"
    (is "raised _ ?m _ _ _")
proof -
  let ?k = "account_key_hash X (lu_address u)"
  have k: "length ?k = 32" using assms(3) by simp
  have leaf: "leaf_hash_for X ?k (lu_post u) = node_hash X ?m (256, ?k)"
    by (simp add: node_hash_leaf [OF k] leaf_at_def leaf_option_def leaf_hash_for_def)
  have same: "node_hash X ?m n = node_hash X m n"
    if n: "position_ok n" "n \<noteq> (256, ?k)" "fst n = 256 \<or> touching K n \<subseteq> {}" for n
  proof (rule node_hash_off_path)
    show "fst n \<le> 256" using n(1) by (simp add: position_ok_def)
    show "take (fst n) (key_bits ?k) \<noteq> node_path n"
    proof
      assume "take (fst n) (key_bits ?k) = node_path n"
      then have "?k \<in> touching K n" using assms(2) by (simp add: touching_def)
      with n(3) touching_on_path [OF n(1) this k] have "n = (256, ?k)"
        by (metis empty_iff path_prefix_full [OF k] subset_empty)
      with n(2) show False by simp
    qed
  qed
  show ?thesis
    unfolding raised_def
  proof (intro conjI allI impI ballI)
    fix n v
    assume n: "fmlookup (post_update X nodes u) n = Some v" "position_ok n" "fst n = 256 \<or> touching K n \<subseteq> {}"
    show "v = node_hash X ?m n"
    proof (cases "n = (256, ?k)")
      case True
      then show ?thesis using n(1) leaf by (simp add: post_update_def DEPTH_def Let_def)
    next
      case False
      then have "fmlookup nodes n = Some v" using n(1) by (simp add: post_update_def DEPTH_def Let_def)
      then show ?thesis using raisedD [OF R _ n(2,3)] same [OF n(2) False n(3)] by simp
    qed
  qed (use raised_frontier [OF R] in \<open>auto simp: post_update_def Let_def\<close>)
qed

subsection \<open>The new root\<close>

abbreviation update_key :: "ext \<Rightarrow> leaf_update \<Rightarrow> bytes" where
  "update_key X u \<equiv> account_key_hash X (lu_address u)"

abbreviation update_verified :: "ext \<Rightarrow> bytes \<Rightarrow> leaf_update \<Rightarrow> bool" where
  "update_verified X root u \<equiv> verify_proof X root (lu_address u) (lu_pre u) (lu_proof u)"

text \<open>The byte strings hashed when the proof of an update is compared with the tree.\<close>

definition update_inputs :: "ext \<Rightarrow> (bool list \<Rightarrow> bytes option) \<Rightarrow> leaf_update \<Rightarrow> bytes list" where
  "update_inputs X m u =
     (let p = key_bits (update_key X u)
      in climb_inputs X p (lu_proof u) (leaf_hash_for X (update_key X u) (lu_pre u))
         @ climb_inputs X p (siblings X p m) (leaf_at m p))"

lemma seed_update_eq:
  "seed_update X root nodes u = (if update_verified X root u
     then Inr (seed_frontier (update_key X u) (lu_proof u)
       (fmupd (256, update_key X u) (leaf_hash_for X (update_key X u) (lu_pre u)) nodes) 256)
     else Inl WitnessVerificationFailed)"
  by (simp add: seed_update_def seed_frontier_def DEPTH_def Let_def)

text \<open>An update whose proof is the path of the tree.\<close>

definition exact_update :: "ext \<Rightarrow> (bool list \<Rightarrow> bytes option) \<Rightarrow> leaf_update \<Rightarrow> bool" where
  "exact_update X m u \<longleftrightarrow>
     leaf_hash_for X (update_key X u) (lu_pre u) = leaf_at m (key_bits (update_key X u))
     \<and> lu_proof u = siblings X (key_bits (update_key X u)) m"

lemma exact_verified: "exact_update X m u \<Longrightarrow> update_verified X (smt X 256 m) u"
  using climb_siblings [of X "key_bits (update_key X u)" m] by (simp add: exact_update_def verify_proof_climb)

lemma verified_exact:
  assumes "hash32 X" and m32: "\<And>p v. m p = Some v \<Longrightarrow> length v = 32" and "all32 (lu_proof u)"
    and "collision_free X (update_inputs X m u)" and "update_verified X (smt X 256 m) u"
  shows "exact_update X m u"
  using verify_sound_path [OF assms(1) m32 assms(3,5)] assms(4) by (simp add: exact_update_def update_inputs_def Let_def)

lemma seed_updates:
  assumes "hash32 X" and "raised X m K K nodes" and "list_all (exact_update X m) us"
  shows "\<exists>nodes'. foldM (seed_update X (smt X 256 m)) nodes us = Inr nodes'
    \<and> raised X m (K \<union> update_key X ` set us) (K \<union> update_key X ` set us) nodes'"
  using assms(2,3)
proof (induction us arbitrary: K nodes)
  case (Cons u us)
  have e: "exact_update X m u" using Cons.prems(2) by simp
  have k: "length (update_key X u) = 32" using assms(1) by simp
  from Cons.IH [OF raised_seed [OF Cons.prems(1) k]] Cons.prems(2) e exact_verified [OF e]
  show ?case by (simp add: seed_update_eq exact_update_def)
qed simp

lemma post_updates:
  assumes "hash32 X" and "raised X m K {} nodes" and "update_key X ` set us \<subseteq> K"
  shows "raised X (updated X m us) K {} (foldl (post_update X) nodes us)"
  using assms(2,3)
proof (induction us arbitrary: m nodes)
  case (Cons u us)
  then show ?case using raised_post [OF Cons.prems(1) _ assms(1), of u] by simp
qed simp

lemma raised_fmempty: "raised X m {} {} fmempty"
  by (simp add: raised_def)

lemma raised_mono: "raised X m K D nodes \<Longrightarrow> D' \<subseteq> D \<Longrightarrow> raised X m K D' nodes"
  unfolding raised_def by blast

lemma root_after_updates_smt:
  assumes "hash32 X" and "list_all (exact_update X m) us"
  shows "root_after_updates X (smt X 256 m) us = Inr (smt X 256 (updated X m us))"
proof (cases "us = []")
  case False
  let ?K = "update_key X ` set us" and ?z = "(0, zero32) :: nat \<times> bytes"
  obtain nodes where s: "foldM (seed_update X (smt X 256 m)) fmempty us = Inr nodes" "raised X m ?K ?K nodes"
    using seed_updates [OF assms(1) raised_fmempty assms(2)] by auto
  have p: "raised X (updated X m us) ?K {} (foldl (post_update X) nodes us)"
    using post_updates [OF assms(1) raised_mono [OF s(2)]] by blast
  obtain nodes' where r: "foldM (raise_update X) (foldl (post_update X) nodes us) us = Inr nodes'"
    "raised X (updated X m us) ?K ?K nodes'" "fmlookup nodes' ?z \<noteq> None"
    using raise_updates [OF p, of us] assms(1) False by auto
  then obtain v where v: "fmlookup nodes' ?z = Some v" by blast
  have z: "key_bits zero32 = replicate 256 False"
    by (rule nth_equalityI) (simp_all add: key_bits_nth bit_at_def zero32_def less_mult_imp_div_less)
  have "v = node_hash X (updated X m us) ?z"
    by (rule raisedD [OF r(2) v]) (auto simp: position_ok_def touching_def z)
  then show ?thesis using False s(1) r(1) v by (simp add: root_after_updates_def node_hash_def)
qed (simp add: root_after_updates_def)

lemma root_after_updates_rejects:
  assumes "\<not> list_all (update_verified X root) us"
  shows "root_after_updates X root us = Inl WitnessVerificationFailed"
proof -
  have "foldM (seed_update X root) nodes us = Inl WitnessVerificationFailed" for nodes
    using assms by (induction us arbitrary: nodes) (auto simp: seed_update_eq)
  moreover have "us \<noteq> []" using assms by auto
  ultimately show ?thesis by (simp add: root_after_updates_def)
qed

section \<open>Updating the root of a state\<close>

abbreviation write_posts :: "(string, account) fmap \<Rightarrow> leaf_update list \<Rightarrow> (string, account) fmap" where
  "write_posts accounts us \<equiv> foldl (\<lambda>accounts u. fmupd (lu_address u) (lu_post u) accounts) accounts us"

lemma leaf_map_off:
  assumes "p \<notin> (\<lambda>a. key_bits (account_key_hash X a)) ` set (addresses accounts)"
  shows "leaf_map 0 (state_leaves X accounts) p = None"
  using assms by (force simp: leaf_map_def state_leaves_def map_of_eq_None_iff addresses_def)

lemma set_addresses_fmupd: "set (addresses (fmupd addr a accounts)) = insert addr (set (addresses accounts))"
  by (simp add: set_addresses)

lemma state_leaves_fmupd:
  assumes "hash32 X" and cf: "collision_free X (map as_bytes (addr # addresses accounts))"
  shows "leaf_map 0 (state_leaves X (fmupd addr a accounts))
    = (leaf_map 0 (state_leaves X accounts))(key_bits (account_key_hash X addr) := leaf_option X addr a)"
proof
  fix p
  let ?k = "\<lambda>a. key_bits (account_key_hash X a)"
  have look: "leaf_map 0 (state_leaves X accounts) (?k x) = account_path X accounts x"
    "leaf_map 0 (state_leaves X (fmupd addr a accounts)) (?k x) = account_path X (fmupd addr a accounts) x"
    if "x = addr \<or> x \<in> set (addresses accounts)" for x
    by (rule state_leaves_lookup [OF assms(1) collision_free_subset [OF cf]], use that in \<open>auto simp: set_addresses_fmupd\<close>)+
  have inj: "x = addr" if "x \<in> set (addresses accounts)" "?k x = ?k addr" for x
    using key_hash_inj [OF cf, of x addr] key_bits_inj that assms(1) by simp
  consider "p = ?k addr" | x where "p \<noteq> ?k addr" "p = ?k x" "x \<in> set (addresses accounts)"
    | "p \<notin> ?k ` set (addresses (fmupd addr a accounts))" by (auto simp: set_addresses_fmupd)
  then show "leaf_map 0 (state_leaves X (fmupd addr a accounts)) p
    = ((leaf_map 0 (state_leaves X accounts))(?k addr := leaf_option X addr a)) p"
  proof cases
    case 1
    then show ?thesis using look(2) [of addr] by (simp add: account_path_def leaf_option_def)
  next
    case (2 x)
    then have "x \<noteq> addr" by auto
    then show ?thesis using look [of x] 2 by (simp add: account_path_def)
  next
    case 3
    then show ?thesis by (simp add: leaf_map_off set_addresses_fmupd)
  qed
qed

lemma state_leaves_write_posts:
  assumes "hash32 X" and "collision_free X (map as_bytes (map lu_address us @ addresses accounts))"
  shows "leaf_map 0 (state_leaves X (write_posts accounts us)) = updated X (leaf_map 0 (state_leaves X accounts)) us"
  using assms(2)
proof (induction us arbitrary: accounts)
  case (Cons u us)
  have "collision_free X (map as_bytes (lu_address u # addresses accounts))"
    "collision_free X (map as_bytes (map lu_address us @ addresses (fmupd (lu_address u) (lu_post u) accounts)))"
    using Cons.prems by (rule collision_free_subset, auto simp: set_addresses_fmupd)+
  with Cons.IH show ?case by (simp add: state_leaves_fmupd [OF assms(1)] fun_upd_def)
qed simp

lemma set_addresses_write_posts:
  "set (addresses (write_posts accounts us)) = lu_address ` set us \<union> set (addresses accounts)"
  by (induction us arbitrary: accounts) (auto simp: set_addresses_fmupd)

lemma root_after_exact_updates:
  assumes "hash32 X" and cf: "collision_free X (map as_bytes (map lu_address us @ addresses accounts))"
    and "list_all (exact_update X (leaf_map 0 (state_leaves X accounts))) us"
  shows "root_after_updates X (compute_root X accounts) us = Inr (compute_root X (write_posts accounts us))"
proof -
  have cf2: "collision_free X (map as_bytes (addresses accounts))"
    and cf3: "collision_free X (map as_bytes (addresses (write_posts accounts us)))"
    using cf by (rule collision_free_subset, auto simp: set_addresses_write_posts)+
  show ?thesis
    using root_after_updates_smt [OF assms(1,3)]
    by (simp add: compute_root_smt [OF assms(1) cf2] compute_root_smt [OF assms(1) cf3]
        state_leaves_write_posts [OF assms(1) cf])
qed

definition update_state_inputs :: "ext \<Rightarrow> (string, account) fmap \<Rightarrow> leaf_update list \<Rightarrow> bytes list" where
  "update_state_inputs X accounts us =
     map as_bytes (map lu_address us @ addresses accounts)
     @ concat (map (update_inputs X (leaf_map 0 (state_leaves X accounts))) us)"

lemma verified_exact_state:
  assumes "hash32 X" and "list_all (\<lambda>u. all32 (lu_proof u)) us"
    and "list_all (update_verified X (compute_root X accounts)) us"
    and cf: "collision_free X (update_state_inputs X accounts us)"
  shows "list_all (exact_update X (leaf_map 0 (state_leaves X accounts))) us"
  unfolding list_all_iff
proof
  fix u assume u: "u \<in> set us"
  let ?m = "leaf_map 0 (state_leaves X accounts)"
  have m32: "length v = 32" if "?m p = Some v" for p v
    using leaf_map_range [OF that] state_leaves_32 [OF assms(1)] by auto
  have "collision_free X (map as_bytes (addresses accounts))" and cfu: "collision_free X (update_inputs X ?m u)"
    using cf by (rule collision_free_subset, use u in \<open>auto simp: update_state_inputs_def\<close>)+
  then have "update_verified X (smt X 256 ?m) u" using assms(3) u by (simp add: list_all_iff compute_root_smt [OF assms(1)])
  then show "exact_update X ?m u"
    using assms(2) u by (intro verified_exact [OF assms(1) m32 _ cfu]) (simp_all add: list_all_iff)
qed

lemma root_after_updates_state:
  assumes "hash32 X" and "list_all (\<lambda>u. all32 (lu_proof u)) us"
    and "list_all (update_verified X (compute_root X accounts)) us"
    and cf: "collision_free X (update_state_inputs X accounts us)"
  shows "root_after_updates X (compute_root X accounts) us = Inr (compute_root X (write_posts accounts us))"
proof (rule root_after_exact_updates [OF assms(1) _ verified_exact_state [OF assms]])
  show "collision_free X (map as_bytes (map lu_address us @ addresses accounts))"
    using cf by (rule collision_free_subset) (auto simp: update_state_inputs_def)
qed

end
