(* ===== verification/Sc_Stateless.thy ===== *)
theory Sc_Stateless
  imports Sc_Witness Sc_Ledger
begin

text \<open>
  Stateless verification agrees with full verification: a block is executed on the accounts a witness
  proves the way it is executed on the whole state, and the root recomputed from the witness is the
  root of the state a full node reaches.
\<close>

section \<open>Accounts as a total function\<close>

definition normal :: "account \<Rightarrow> account" where
  "normal a = (if acc_is_empty a then account_default else a)"

lemma account_or_default_eq: "account_or_default = entry_or_default"
  by (simp add: fun_eq_iff account_or_default_def entry_or_default_def)

lemma entry_set:
  "entry_or_default (set_balance addr b s) = (entry_or_default s)(addr := normal (acc_set_balance b (entry_or_default s addr)))"
  "entry_or_default (set_nonce addr n s) = (entry_or_default s)(addr := normal (acc_set_nonce n (entry_or_default s addr)))"
  by (auto simp: fun_eq_iff entry_or_default_def set_balance_def set_nonce_def prune_lookup normal_def)

lemma entry_receipts [simp]: "entry_or_default (s\<lparr>st_receipts := rs\<rparr>) = entry_or_default s"
  by (simp add: fun_eq_iff entry_or_default_def)

lemma get_entry:
  "get_balance s addr = acc_balance (entry_or_default s addr)"
  "get_nonce s addr = acc_nonce (entry_or_default s addr)"
  by (simp_all add: get_balance_def get_nonce_def entry_or_default_def account_default_def split: option.split)

text \<open>Two states that agree on a set of addresses.\<close>

definition agree :: "string set \<Rightarrow> state \<Rightarrow> state \<Rightarrow> bool" where
  "agree A s t \<longleftrightarrow> (\<forall>a\<in>A. entry_or_default s a = entry_or_default t a)"

lemma agree_get:
  "agree A s t \<Longrightarrow> a \<in> A \<Longrightarrow> get_balance s a = get_balance t a"
  "agree A s t \<Longrightarrow> a \<in> A \<Longrightarrow> get_nonce s a = get_nonce t a"
  by (simp_all add: get_entry agree_def)

lemma agree_set:
  "agree A s t \<Longrightarrow> a \<in> A \<Longrightarrow> agree A (set_balance a b s) (set_balance a b t)"
  "agree A s t \<Longrightarrow> a \<in> A \<Longrightarrow> agree A (set_nonce a n s) (set_nonce a n t)"
  by (simp_all add: agree_def entry_set)

lemma agree_receipts [simp]: "agree A (s\<lparr>st_receipts := rs\<rparr>) (t\<lparr>st_receipts := rs'\<rparr>) = agree A s t"
  by (simp add: agree_def)

lemma agree_sym: "agree A s t \<Longrightarrow> agree A t s"
  by (simp add: agree_def)

section \<open>Transfers\<close>

lemma debit_agree:
  assumes "agree A s t" and "a \<in> A" and "debit a v s = Inr s'"
  shows "\<exists>t'. debit a v t = Inr t' \<and> agree A s' t'"
  using assms agree_set(1) [OF assms(1,2)] by (auto simp: debit_Inr agree_get)

lemma credit_agree:
  assumes "agree A s t" and "a \<in> A" and "credit a v s = Inr s'"
  shows "\<exists>t'. credit a v t = Inr t' \<and> agree A s' t'"
  using assms agree_set(1) [OF assms(1,2)] by (auto simp: credit_Inr agree_get)

lemma transfer_agree:
  assumes "agree A s t" and "t_from x \<in> A" and "t_to x \<in> A"
    and "deduct_sender s x = Inr s1" and "credit_receiver s1 x = Inr s2" and "increment_nonce s2 x = Inr s3"
  shows "\<exists>t1 t2 t3. deduct_sender t x = Inr t1 \<and> credit_receiver t1 x = Inr t2 \<and> increment_nonce t2 x = Inr t3 \<and> agree A s3 t3"
proof -
  obtain t1 where t1: "deduct_sender t x = Inr t1" "agree A s1 t1"
    using assms(4) debit_agree [OF assms(1,2)] agree_get(1) [OF assms(1,2)]
    by (auto simp: deduct_sender_def split: if_splits)
  obtain t2 where t2: "credit_receiver t1 x = Inr t2" "agree A s2 t2"
    using assms(5) credit_agree [OF t1(2) assms(3)] by (auto simp: credit_receiver_def)
  show ?thesis
    using assms(6) t1(1) t2(1) agree_get(2) [OF t2(2) assms(2)] agree_set(2) [OF t2(2) assms(2)]
    by (auto simp: increment_nonce_def)
qed

definition touches :: "transaction \<Rightarrow> string set" where
  "touches tx = (if tx_is_coinbase tx then {} else {tx_sender tx}) \<union> set_option (tx_receiver tx)"

lemma touched_by_set: "set (touched_by addrs tx) = set addrs \<union> touches tx"
  by (auto simp: touches_def touched_by_def push_new_def Let_def split: option.splits)

lemma collect_touched_set:
  "set (collect_touched_addresses b)
   = (\<Union>tx\<in>set (blk_transactions b). touches tx)"
proof -
  have "set (foldl touched_by addrs txs)
      = set addrs \<union> (\<Union>tx\<in>set txs. touches tx)"
    for addrs txs by (induction txs arbitrary: addrs) (auto simp: touched_by_set)
  then show ?thesis by (simp add: collect_touched_addresses_def)
qed

section \<open>Blocks\<close>

lemma apply_tx_coinbase: "tx_is_coinbase tx \<Longrightarrow> apply_tx X V b chain_id (s, vm, rs) (i, tx) = Inr (s, vm, rs)"
  by (simp add: apply_tx_def)

text \<open>Without an executor only transfers are accepted.\<close>

lemma apply_tx_transfer:
  "\<not> tx_is_coinbase tx \<Longrightarrow> apply_tx X V b chain_id (s, None, rs) (i, tx) = Inr acc \<longleftrightarrow>
   (\<exists>x s1 s2 s3. tx = Transfer x \<and> deduct_sender s x = Inr s1 \<and> credit_receiver s1 x = Inr s2 \<and> increment_nonce s2 x = Inr s3
      \<and> acc = (s3, None, rs @ [transfer_receipt X tx b (of_nat i) [\<lparr> vt_from = t_from x, vt_to = t_to x, vt_amount = t_amount x \<rparr>]]))"
  by (cases tx) (auto simp: apply_tx_def)

lemma apply_txs_agree:
  assumes "agree A s t" and "\<And>i tx. (i, tx) \<in> set itxs \<Longrightarrow> touches tx \<subseteq> A"
    and "foldM (apply_tx X V b chain_id) (s, None, rs) itxs = Inr (s', vm', rs')"
  shows "\<exists>t'. foldM (apply_tx X V b chain_id) (t, None, rs) itxs = Inr (t', vm', rs') \<and> agree A s' t'"
  using assms
proof (induction itxs arbitrary: s t rs)
  case (Cons itx itxs)
  obtain i tx where itx: "itx = (i, tx)" by (cases itx)
  have sub: "touches tx \<subseteq> A" if "(i, tx) \<in> set itxs" for i tx using Cons.prems(2) [of i tx] that by simp
  show ?case
  proof (cases "tx_is_coinbase tx")
    case True
    have "foldM (apply_tx X V b chain_id) (s, None, rs) itxs = Inr (s', vm', rs')"
      using Cons.prems(3) True by (simp add: itx apply_tx_coinbase)
    from Cons.IH [OF Cons.prems(1) sub this] show ?thesis using True by (simp add: itx apply_tx_coinbase)
  next
    case False
    from Cons.prems(3) obtain acc where acc: "apply_tx X V b chain_id (s, None, rs) (i, tx) = Inr acc"
      and rest: "foldM (apply_tx X V b chain_id) acc itxs = Inr (s', vm', rs')" by (auto simp: itx)
    from acc [unfolded apply_tx_transfer [OF False]] obtain x s1 s2 s3 where x: "tx = Transfer x"
      and s: "deduct_sender s x = Inr s1" "credit_receiver s1 x = Inr s2" "increment_nonce s2 x = Inr s3"
      and acc': "acc = (s3, None, rs @ [transfer_receipt X tx b (of_nat i) [\<lparr> vt_from = t_from x, vt_to = t_to x, vt_amount = t_amount x \<rparr>]])"
      by blast
    have in_A: "t_from x \<in> A" "t_to x \<in> A" using Cons.prems(2) [of i tx] itx x False by (auto simp: touches_def)
    obtain t1 t2 t3 where t: "deduct_sender t x = Inr t1" "credit_receiver t1 x = Inr t2" "increment_nonce t2 x = Inr t3" "agree A s3 t3"
      using transfer_agree [OF Cons.prems(1) in_A s] by blast
    from Cons.IH [OF t(4) sub rest [unfolded acc']] t(1-3) show ?thesis
      using False by (simp add: itx apply_tx_def x)
  qed
qed simp

lemma apply_block_agree:
  assumes "agree A s t" and touched: "set (collect_touched_addresses b) \<subseteq> A" and "blk_index b \<noteq> 0"
    and "expected_reward s b chain_id \<le> expected_reward t b chain_id"
    and "apply_block X s b chain_id = Inr s'"
  shows "\<exists>t'. apply_block X t b chain_id = Inr t' \<and> agree A s' t'"
proof -
  let ?s = "s\<lparr>st_receipts := []\<rparr>" and ?t = "t\<lparr>st_receipts := []\<rparr>"
  obtain u vm rs where u: "apply_non_genesis X NoVm ?s b chain_id None = Inr (u, vm, rs)" "s' = u\<lparr>st_receipts := rs\<rparr>"
    using assms(3,5) by (auto simp: apply_block_def apply_block_inner_def Let_def)
  obtain ci cb s1 where p: "position tx_is_coinbase (blk_transactions b) = Some ci" "blk_transactions b ! ci = Transfer cb"
    and cb: "t_amount cb \<le> expected_reward ?s b chain_id"
    and ids: "\<forall>tx\<in>set (blk_transactions b). tx_chain_id tx = chain_id"
    and s1: "credit_receiver ?s cb = Inr s1"
    and run: "foldM (apply_tx X NoVm b chain_id) (s1, None, [transfer_receipt X (Transfer cb) b (of_nat ci) []])
           (enumerate 0 (blk_transactions b)) = Inr (u, vm, rs)"
    using u(1) by (rule apply_non_genesisE)
  have ag: "agree A ?s ?t" using assms(1) by simp
  have in_A: "touches tx \<subseteq> A"
    if "tx \<in> set (blk_transactions b)" for tx using touched that unfolding collect_touched_set by blast
  have "Transfer cb \<in> set (blk_transactions b)" using position_SomeD [OF p(1)] p(2) by (metis nth_mem)
  then have "t_to cb \<in> A" using in_A [of "Transfer cb"] by (simp add: touches_def)
  then obtain t1 where t1: "credit_receiver ?t cb = Inr t1" "agree A s1 t1"
    using credit_agree [OF ag, of "t_to cb" "t_amount cb" s1] s1 by (auto simp: credit_receiver_def)
  obtain t' where t': "foldM (apply_tx X NoVm b chain_id) (t1, None, [transfer_receipt X (Transfer cb) b (of_nat ci) []])
           (enumerate 0 (blk_transactions b)) = Inr (t', vm, rs)" "agree A u t'"
    using apply_txs_agree [OF t1(2) _ run] in_A by (auto simp: in_set_enumerate_eq)
  have "foldM (\<lambda>_ tx. validate_tx_chain_id tx chain_id) () txs = Inr ()"
    if "\<forall>tx\<in>set txs. tx_chain_id tx = chain_id" for txs
    using that by (induction txs) (auto simp: validate_tx_chain_id_def)
  note ids' = this [OF ids]
  have cb': "\<not> expected_reward ?t b chain_id < t_amount cb" 
    using cb assms(4) by (simp add: total_supply_coins)
  have "apply_non_genesis X NoVm ?t b chain_id None = Inr (t', vm, rs)"
    using p ids' cb' t1(1) t'(1) by (simp add: apply_non_genesis_def Let_def)
  then show ?thesis using assms(3) t'(2) u(2) by (auto simp: apply_block_def apply_block_inner_def Let_def)
qed

text \<open>A block changes no account it does not touch.\<close>

lemma lookup_set:
  "x \<noteq> a \<Longrightarrow> fmlookup (balances (set_balance x v s)) a = fmlookup (balances s) a"
  "x \<noteq> a \<Longrightarrow> fmlookup (balances (set_nonce x v s)) a = fmlookup (balances s) a"
  by (simp_all add: set_balance_def set_nonce_def prune_lookup)

lemma apply_txs_frame:
  assumes "foldM (apply_tx X V b chain_id) (s, None, rs) itxs = Inr (s', vm', rs')"
    and "\<And>x. x \<in> set itxs \<Longrightarrow> a \<notin> touches (snd x)"
  shows "fmlookup (balances s') a = fmlookup (balances s) a"
  using assms
proof (induction itxs arbitrary: s rs)
  case (Cons itx itxs)
  obtain i tx where itx: "itx = (i, tx)" by (cases itx)
  have sub: "a \<notin> touches (snd x)" if "x \<in> set itxs" for x using Cons.prems(2) [of x] that by simp
  from Cons.prems(1) obtain acc where acc: "apply_tx X V b chain_id (s, None, rs) (i, tx) = Inr acc"
    and rest: "foldM (apply_tx X V b chain_id) acc itxs = Inr (s', vm', rs')" by (auto simp: itx)
  show ?case
  proof (cases "tx_is_coinbase tx")
    case True
    with acc have "acc = (s, None, rs)" by (simp add: apply_tx_coinbase)
    with rest Cons.IH [OF _ sub] show ?thesis by blast
  next
    case False
    from acc [unfolded apply_tx_transfer [OF False]] obtain x s1 s2 s3 rs1 where x: "tx = Transfer x"
      and s: "deduct_sender s x = Inr s1" "credit_receiver s1 x = Inr s2" "increment_nonce s2 x = Inr s3"
      and acc': "acc = (s3, None, rs1)" by blast
    have a: "t_from x \<noteq> a" "t_to x \<noteq> a" using Cons.prems(2) [of itx] itx x False by (auto simp: touches_def)
    have "fmlookup (balances s3) a = fmlookup (balances s) a"
      using s a by (auto simp: deduct_sender_def credit_receiver_def increment_nonce_def debit_Inr credit_Inr lookup_set split: if_splits)
    with Cons.IH [OF rest [unfolded acc'] sub] show ?thesis by simp
  qed
qed simp

lemma apply_block_frame:
  assumes "blk_index b \<noteq> 0" and "apply_block X s b chain_id = Inr s'" and "a \<notin> set (collect_touched_addresses b)"
  shows "fmlookup (balances s') a = fmlookup (balances s) a"
proof -
  let ?s = "s\<lparr>st_receipts := []\<rparr>"
  obtain u vm rs where u: "apply_non_genesis X NoVm ?s b chain_id None = Inr (u, vm, rs)" "s' = u\<lparr>st_receipts := rs\<rparr>"
    using assms(1,2) by (auto simp: apply_block_def apply_block_inner_def Let_def)
  obtain ci cb s1 where p: "position tx_is_coinbase (blk_transactions b) = Some ci" "blk_transactions b ! ci = Transfer cb"
    and s1: "credit_receiver ?s cb = Inr s1"
    and run: "foldM (apply_tx X NoVm b chain_id) (s1, None, [transfer_receipt X (Transfer cb) b (of_nat ci) []])
           (enumerate 0 (blk_transactions b)) = Inr (u, vm, rs)"
    using u(1) by (rule apply_non_genesisE)
  have out: "a \<notin> touches tx"
    if "tx \<in> set (blk_transactions b)" for tx using assms(3) that unfolding collect_touched_set by blast
  have "Transfer cb \<in> set (blk_transactions b)" using position_SomeD [OF p(1)] p(2) by (metis nth_mem)
  then have "t_to cb \<noteq> a" using out [of "Transfer cb"] by (auto simp: touches_def)
  then have "fmlookup (balances s1) a = fmlookup (balances s) a" using s1 by (auto simp: credit_receiver_def credit_Inr lookup_set)
  moreover have "fmlookup (balances u) a = fmlookup (balances s1) a"
    by (rule apply_txs_frame [OF run]) (use out in \<open>auto simp: in_set_enumerate_eq\<close>)
  ultimately show ?thesis using u(2) by simp
qed

section \<open>Roots and accounts\<close>

lemma account_path_entry: "account_path X (balances s) addr = leaf_option X addr (entry_or_default s addr)"
  by (simp add: account_path_def leaf_option_def entry_or_default_def account_default_def split: option.split)

lemma compute_root_cong:
  assumes "hash32 X" and cf: "collision_free X (map as_bytes (addresses m @ addresses n))"
    and same: "\<And>addr. account_path X m addr = account_path X n addr"
  shows "compute_root X m = compute_root X n"
proof -
  let ?k = "\<lambda>a. key_bits (account_key_hash X a)"
  have cfs: "collision_free X (map as_bytes (addresses m))" "collision_free X (map as_bytes (addresses n))"
    using cf by (rule collision_free_subset, auto)+
  have look: "leaf_map 0 (state_leaves X m) (?k a) = account_path X m a"
    "leaf_map 0 (state_leaves X n) (?k a) = account_path X n a"
    if "a \<in> set (addresses m) \<union> set (addresses n)" for a
    by (rule state_leaves_lookup [OF assms(1) collision_free_subset [OF cf]], use that in auto)+
  have "leaf_map 0 (state_leaves X m) p = leaf_map 0 (state_leaves X n) p" for p
  proof (cases "p \<in> ?k ` (set (addresses m) \<union> set (addresses n))")
    case True
    then show ?thesis using look same by auto
  next
    case False
    then show ?thesis by (simp add: leaf_map_off image_Un)
  qed
  then have "leaf_map 0 (state_leaves X m) = leaf_map 0 (state_leaves X n)" by (rule ext)
  then show ?thesis by (simp add: compute_root_smt [OF assms(1) cfs(1)] compute_root_smt [OF assms(1) cfs(2)])
qed

lemma lookup_write_posts:
  "fmlookup (write_posts m us) a = (case find (\<lambda>u. lu_address u = a) (rev us) of Some u \<Rightarrow> Some (lu_post u) | None \<Rightarrow> fmlookup m a)"
  by (induction us rule: rev_induct) (simp_all split: option.split)

lemma in_sorted_list: "(a, x) \<in> set (sorted_list_of_fmap m) \<longleftrightarrow> fmlookup m a = Some x"
  by (auto simp: sorted_list_of_fmap_def fmlookup_dom_iff image_iff)

lemma ball_sorted_list: "(\<forall>x\<in>set (sorted_list_of_fmap m). P x) \<longleftrightarrow> (\<forall>a v. fmlookup m a = Some v \<longrightarrow> P (a, v))"
  by (metis in_sorted_list prod.collapse)

lemma fst_sorted_list: "fst ` set (sorted_list_of_fmap m) = fmdom' m"
  by (simp add: sorted_list_of_fmap_def image_image fmdom'_alt_def)

lemma find_SomeD: "find P xs = Some x \<Longrightarrow> x \<in> set xs \<and> P x"
  by (auto simp: find_Some_iff)

lemma witness_updates_address: "set (map lu_address (witness_updates w s)) = fmdom' (sw_proofs w)"
  by (simp add: witness_updates_def comp_def case_prod_beta fst_sorted_list [symmetric] image_image)

lemma witness_updates_post: "u \<in> set (witness_updates w s) \<Longrightarrow> lu_post u = entry_or_default s (lu_address u)"
  by (auto simp: witness_updates_def account_or_default_eq)

lemma witness_updates_all:
  "list_all P (witness_updates w s) \<longleftrightarrow> (\<forall>addr p. fmlookup (sw_proofs w) addr = Some p \<longrightarrow>
     P \<lparr> lu_address = addr, lu_pre = proof_account p, lu_proof = ap_proof p, lu_post = entry_or_default s addr \<rparr>)"
  by (simp add: witness_updates_def account_or_default_eq list_all_iff ball_sorted_list)

lemma write_witness_posts:
  "fmlookup (write_posts m (witness_updates w s)) a
   = (if a \<in> fmdom' (sw_proofs w) then Some (entry_or_default s a) else fmlookup m a)"
proof (cases "find (\<lambda>u. lu_address u = a) (rev (witness_updates w s))")
  case None
  then have "a \<notin> set (map lu_address (witness_updates w s))" by (auto simp: find_None_iff)
  then show ?thesis using None by (simp add: lookup_write_posts witness_updates_address del: set_map)
next
  case (Some u)
  then have u: "u \<in> set (witness_updates w s)" "lu_address u = a" by (auto dest: find_SomeD)
  then have "a \<in> set (map lu_address (witness_updates w s))" by auto
  then show ?thesis
    using Some witness_updates_post [OF u(1)] u(2) by (simp add: lookup_write_posts witness_updates_address del: set_map)
qed

section \<open>Soundness\<close>

text \<open>A witness in canonical form: hashes of 32 bytes, and an absent account is not presented as a
  contract with zero commitments.\<close>

definition canonical_witness :: "state_witness \<Rightarrow> bool" where
  "canonical_witness w \<longleftrightarrow> fmpred (\<lambda>_ p. all32 (ap_proof p) \<and> acc_ok (proof_account p)
     \<and> (acc_is_empty (proof_account p) \<longrightarrow> ap_code_hash p = None \<or> ap_storage_root p = None)) (sw_proofs w)"

definition stateless_inputs :: "ext \<Rightarrow> state \<Rightarrow> state_witness \<Rightarrow> bytes list" where
  "stateless_inputs X s w =
     concat (map (\<lambda>(addr, p). state_proof_inputs X (balances s) addr (proof_account p) (ap_proof p))
       (sorted_list_of_fmap (sw_proofs w)))
     @ update_state_inputs X (balances s) (witness_updates w s)"

lemma update_state_inputs_witness:
  "update_state_inputs X m (witness_updates w s) = update_state_inputs X m (witness_updates w t)"
  by (simp add: update_state_inputs_def witness_updates_def update_inputs_def comp_def case_prod_beta)

lemma entry_reconstruct:
  "entry_or_default (reconstruct w) a = (case fmlookup (sw_proofs w) a of Some p \<Rightarrow> proof_account p | None \<Rightarrow> account_default)"
  by (simp add: reconstruct_def entry_or_default_def split: option.split)

lemma empty_eoa: "acc_is_empty (account_eoa b n) \<Longrightarrow> account_eoa b n = account_default"
  by (simp add: account_eoa_def account_default_def)

lemma witness_agree:
  assumes "hash32 X" and "blake3 X [] = EMPTY_HASH" and "clean s" and "fmpred (\<lambda>_. acc_ok) (balances s)"
    and "canonical_witness w" and cf: "collision_free X (stateless_inputs X s w)"
    and v: "\<And>addr p. fmlookup (sw_proofs w) addr = Some p \<Longrightarrow>
      verify_proof X (compute_root X (balances s)) addr (proof_account p) (ap_proof p)"
  shows "agree (fmdom' (sw_proofs w)) (reconstruct w) s"
  unfolding agree_def
proof
  fix addr assume "addr \<in> fmdom' (sw_proofs w)"
  then obtain p where p: "fmlookup (sw_proofs w) addr = Some p" by (auto simp: fmlookup_dom'_iff)
  have c: "all32 (ap_proof p)" "acc_ok (proof_account p)"
    "acc_is_empty (proof_account p) \<longrightarrow> ap_code_hash p = None \<or> ap_storage_root p = None"
    using assms(5) p by (auto simp: canonical_witness_def fmpred_iff)
  have cf': "collision_free X (state_proof_inputs X (balances s) addr (proof_account p) (ap_proof p))"
    using cf by (rule collision_free_subset) (use p in \<open>force simp: stateless_inputs_def in_sorted_list\<close>)
  have ok: "acc_ok b" if "fmlookup (balances s) addr = Some b" for b using assms(4) that by (simp add: fmpred_iff)
  have r: "case fmlookup (balances s) addr of Some b \<Rightarrow> proof_account p = b \<or> acc_is_empty (proof_account p) \<and> acc_is_empty b
      | None \<Rightarrow> acc_is_empty (proof_account p)"
    by (rule verify_proof_state_sound [OF assms(1,2) c(1,2) ok cf' v [OF p]])
  have "proof_account p = account_default" if "acc_is_empty (proof_account p)"
    using c(3) that empty_eoa by (auto simp: proof_account_def split: option.splits)
  then have "proof_account p = entry_or_default s addr"
    using r cleanD [OF assms(3), of addr] by (auto simp: entry_or_default_def pinned_def split: option.splits)
  then show "entry_or_default (reconstruct w) addr = entry_or_default s addr" by (simp add: entry_reconstruct p)
qed

lemma total_of_mono:
  assumes "finite {k. g k \<noteq> 0}" and "\<And>k. f k = 0 \<or> f k = g k"
  shows "total_of f \<le> total_of g"
proof -
  have "{k. f k \<noteq> 0} \<subseteq> {k. g k \<noteq> 0}" using assms(2) by (metis (mono_tags, lifting) Collect_mono)
  then have "total_of f = (\<Sum>k\<in>{k. g k \<noteq> 0}. unat (f k))" using assms(1) by (intro total_of_over)
  also have "\<dots> \<le> total_of g"
    unfolding total_of_def using assms(2) by (intro sum_mono) (metis le0 order_refl unat_0)
  finally show ?thesis .
qed

lemma coins_reconstruct:
  assumes "agree (fmdom' (sw_proofs w)) (reconstruct w) s"
  shows "coins (reconstruct w) \<le> coins s"
  unfolding coins_total
proof (rule total_of_mono)
  fix k
  show "get_balance (reconstruct w) k = 0 \<or> get_balance (reconstruct w) k = get_balance s k"
    using assms by (cases "k \<in> fmdom' (sw_proofs w)")
      (auto simp: agree_def get_entry entry_reconstruct fmdom'_notD account_default_def)
qed (rule bal.finite_support)

lemma reward_mono:
  assumes "a \<le> b" and "b * 6 < 2 ^ 64"
  shows "block_reward_at_height_for_chain h (of_nat a) c \<le> block_reward_at_height_for_chain h (of_nat b) c"
proof -
  have u: "unat (of_nat a :: u64) = a" "unat (of_nat b :: u64) = b" using assms by (simp_all add: unat_of_nat)
  have "calculate_tail_reward (of_nat a) \<le> calculate_tail_reward (of_nat b)"
    using unat_tail_reward [of "of_nat a"] unat_tail_reward [of "of_nat b"] assms u
    by (simp add: word_le_nat_alt div_le_mono)
  then have "max (halving_schedule h) (calculate_tail_reward (of_nat a)) \<le> max (halving_schedule h) (calculate_tail_reward (of_nat b))"
    by (rule max.mono [OF order_refl])
  then show ?thesis by (cases "c = CHAIN_ID_REGTEST") (simp_all only: block_reward_at_height_for_chain_def if_True if_False order_refl refl)
qed

lemma verify_block_stateless_Inr:
  "verify_block_stateless X root b chain_id w = Inr () \<longleftrightarrow>
   sw_pre_state_root w = root
   \<and> (\<forall>addr p. fmlookup (sw_proofs w) addr = Some p \<longrightarrow> verify_proof X root addr (proof_account p) (ap_proof p))
   \<and> set (collect_touched_addresses b) \<subseteq> fmdom' (sw_proofs w)
   \<and> (\<exists>post computed. apply_block X (reconstruct w) b chain_id = Inr post
        \<and> root_after_updates X root (witness_updates w post) = Inr computed
        \<and> (blk_index b = 0 \<and> blk_state_root b = zero32 \<or> blk_state_root b = computed))"
proof -
  have *: "list_all (\<lambda>addr. fmlookup (sw_proofs w) addr \<noteq> None) xs \<longleftrightarrow> set xs \<subseteq> fmdom' (sw_proofs w)" for xs
    by (auto simp: list_all_iff fmlookup_dom'_iff)
  show ?thesis
    unfolding verify_block_stateless_def *
    by (auto simp: list_all_iff ball_sorted_list bind_res_Inr_iff split: if_splits)
qed

text \<open>The root recomputed from the witness is the root of any state that agrees with the executed
  witness on its accounts and with the old state elsewhere.\<close>

lemma witness_root:
  assumes "hash32 X" and cf: "collision_free X (map as_bytes (map lu_address (witness_updates w s) @ addresses (balances s)))"
    and ex: "list_all (exact_update X (leaf_map 0 (state_leaves X (balances s)))) (witness_updates w s)"
    and ag: "agree (fmdom' (sw_proofs w)) post t"
    and frame: "\<And>a. a \<notin> fmdom' (sw_proofs w) \<Longrightarrow> fmlookup (balances t) a = fmlookup (balances s) a"
  shows "root_after_updates X (compute_root X (balances s)) (witness_updates w post) = Inr (compute_root X (balances t))"
proof -
  let ?us = "witness_updates w post" and ?m = "write_posts (balances s) (witness_updates w post)"
  have addr: "map lu_address ?us = map lu_address (witness_updates w s)"
    and "list_all (exact_update X (leaf_map 0 (state_leaves X (balances s)))) ?us"
    using ex by (simp_all add: witness_updates_all exact_update_def)
      (simp add: witness_updates_def comp_def case_prod_beta)
  with cf have cfu: "collision_free X (map as_bytes (map lu_address ?us @ addresses (balances s)))"
    and "root_after_updates X (compute_root X (balances s)) ?us = Inr (compute_root X ?m)"
    using root_after_exact_updates [OF assms(1), of ?us "balances s"] by simp_all
  moreover have "compute_root X ?m = compute_root X (balances t)"
  proof (rule compute_root_cong [OF assms(1)])
    have dom: "set (map lu_address ?us) = fmdom' (sw_proofs w)" by (rule witness_updates_address)
    have "set (addresses (balances t)) \<subseteq> fmdom' (sw_proofs w) \<union> set (addresses (balances s))"
    proof
      fix x assume "x \<in> set (addresses (balances t))"
      then show "x \<in> fmdom' (sw_proofs w) \<union> set (addresses (balances s))"
        using frame [of x] by (cases "x \<in> fmdom' (sw_proofs w)") (simp_all add: set_addresses fmlookup_dom'_iff)
    qed
    then show "collision_free X (map as_bytes (addresses ?m @ addresses (balances t)))"
    proof (intro collision_free_subset [OF cfu])
      assume "set (addresses (balances t)) \<subseteq> fmdom' (sw_proofs w) \<union> set (addresses (balances s))"
      then have "set (addresses ?m @ addresses (balances t)) \<subseteq> set (map lu_address ?us @ addresses (balances s))"
        unfolding set_append dom set_addresses_write_posts using dom by auto
      from image_mono [OF this, of as_bytes]
      show "set (map as_bytes (addresses ?m @ addresses (balances t))) \<subseteq> set (map as_bytes (map lu_address ?us @ addresses (balances s)))"
        by (simp only: set_map)
    qed
    fix a
    show "account_path X ?m a = account_path X (balances t) a"
    proof (cases "a \<in> fmdom' (sw_proofs w)")
      case True
      then have "entry_or_default post a = entry_or_default t a" using ag by (simp add: agree_def)
      with True show ?thesis
        unfolding account_path_entry [of X t] by (simp add: account_path_def write_witness_posts leaf_option_def)
    next
      case False
      then show ?thesis using frame by (simp add: account_path_def write_witness_posts)
    qed
  qed
  ultimately show ?thesis by simp
qed

lemma verify_block_stateless_sound:
  assumes "hash32 X" and "blake3 X [] = EMPTY_HASH" and "clean s" and "fmpred (\<lambda>_. acc_ok) (balances s)"
    and "coins s * 6 < 2 ^ 64" and "canonical_witness w" and "collision_free X (stateless_inputs X s w)"
    and "blk_index b \<noteq> 0" and accepted: "verify_block_stateless X (compute_root X (balances s)) b chain_id w = Inr ()"
  shows "\<exists>t. apply_block X s b chain_id = Inr t \<and> blk_state_root b = compute_root X (balances t)"
proof -
  let ?A = "fmdom' (sw_proofs w)"
  from accepted [unfolded verify_block_stateless_Inr] obtain post computed where
    v: "\<And>addr p. fmlookup (sw_proofs w) addr = Some p \<Longrightarrow>
      verify_proof X (compute_root X (balances s)) addr (proof_account p) (ap_proof p)"
    and cov: "set (collect_touched_addresses b) \<subseteq> ?A"
    and post: "apply_block X (reconstruct w) b chain_id = Inr post"
    and root: "root_after_updates X (compute_root X (balances s)) (witness_updates w post) = Inr computed"
      "blk_state_root b = computed" using assms(8) by blast
  note ag = witness_agree [OF assms(1-4,6,7) v]
  have "expected_reward (reconstruct w) b chain_id \<le> expected_reward s b chain_id"
    using reward_mono [OF coins_reconstruct [OF ag] assms(5)] by (simp add: total_supply_coins)
  then obtain t where t: "apply_block X s b chain_id = Inr t" "agree ?A post t"
    using apply_block_agree [OF ag cov assms(8) _ post] by blast
  have "root_after_updates X (compute_root X (balances s)) (witness_updates w post) = Inr (compute_root X (balances t))"
  proof (rule witness_root [OF assms(1) _ _ t(2)])
    have cf: "collision_free X (update_state_inputs X (balances s) (witness_updates w s))"
      using assms(7) by (rule collision_free_subset) (auto simp: stateless_inputs_def)
    then show "collision_free X (map as_bytes (map lu_address (witness_updates w s) @ addresses (balances s)))"
      by (rule collision_free_subset) (auto simp: update_state_inputs_def)
    show "list_all (exact_update X (leaf_map 0 (state_leaves X (balances s)))) (witness_updates w s)"
      by (rule verified_exact_state [OF assms(1) _ _ cf])
        (use assms(6) v in \<open>auto simp: witness_updates_all canonical_witness_def fmpred_iff\<close>)
  qed (use apply_block_frame [OF assms(8) t(1)] cov in blast)
  with root t(1) show ?thesis by auto
qed

section \<open>Completeness\<close>

lemma trie_path_Some:
  assumes "leaves_ok leaves"
  shows "trie_path leaves p = Some v \<longleftrightarrow> (\<exists>k. length k = 32 \<and> p = key_bits k \<and> fmlookup leaves k = Some v)"
proof
  assume v: "trie_path leaves p = Some v"
  then obtain k where k: "(k, v) \<in> set (sorted_list_of_fmap leaves)" "p = key_bits k"
    by (auto simp: trie_path_def leaf_map_def dest!: map_of_SomeD)
  then show "\<exists>k. length k = 32 \<and> p = key_bits k \<and> fmlookup leaves k = Some v"
    using assms by (auto simp: in_sorted_list leaves_ok_def)
qed (use trie_path_key [OF assms] in auto)

lemma trie_path_insert:
  assumes "hash32 X" and "leaves_ok leaves"
  shows "trie_path (trie_insert X addr a leaves) = (trie_path leaves)(key_bits (account_key_hash X addr) := leaf_option X addr a)"
proof
  fix p
  let ?k = "account_key_hash X addr"
  have ok: "leaves_ok (trie_insert X addr a leaves)" by (rule leaves_ok_insert [OF assms])
  show "trie_path (trie_insert X addr a leaves) p = ((trie_path leaves)(key_bits ?k := leaf_option X addr a)) p"
  proof (cases "p = key_bits ?k")
    case True
    then show ?thesis using assms(1) trie_path_key [OF ok, of ?k] by (simp add: trie_insert_def leaf_option_def Let_def)
  next
    case False
    have "trie_path (trie_insert X addr a leaves) p = Some v \<longleftrightarrow> trie_path leaves p = Some v" for v
      using False unfolding trie_path_Some [OF ok] trie_path_Some [OF assms(2)] by (auto simp: trie_insert_def Let_def)
    then show ?thesis using False by (metis fun_upd_other not_Some_eq)
  qed
qed

definition as_update :: "string \<times> account \<Rightarrow> leaf_update" where
  "as_update x = \<lparr> lu_address = fst x, lu_pre = account_default, lu_proof = [], lu_post = snd x \<rparr>"

lemma trie_path_inserts:
  assumes "hash32 X" and "leaves_ok leaves"
  shows "leaves_ok (foldl (\<lambda>trie (addr, a). trie_insert X addr a trie) leaves xs)"
    and "trie_path (foldl (\<lambda>trie (addr, a). trie_insert X addr a trie) leaves xs) = updated X (trie_path leaves) (map as_update xs)"
proof -
  let ?f = "foldl (\<lambda>trie (addr, a). trie_insert X addr a trie)"
  have "leaves_ok (?f leaves xs) \<and> trie_path (?f leaves xs) = updated X (trie_path leaves) (map as_update xs)"
    using assms(2)
  proof (induction xs arbitrary: leaves)
    case (Cons x xs)
    obtain addr a where x: "x = (addr, a)" by (cases x)
    from Cons.IH [OF leaves_ok_insert [OF assms(1) Cons.prems, of addr a]] show ?case
      by (simp add: x as_update_def trie_path_insert [OF assms(1) Cons.prems] fun_upd_def)
  qed simp
  then show "leaves_ok (?f leaves xs)" "trie_path (?f leaves xs) = updated X (trie_path leaves) (map as_update xs)"
    by simp_all
qed

lemma write_posts_entries:
  assumes "distinct (map fst xs)"
  shows "fmlookup (write_posts fmempty (map as_update xs)) a = map_of xs a"
  using assms
proof (induction xs rule: rev_induct)
  case (snoc x xs)
  then have "fst x \<notin> fst ` set xs" "distinct (map fst xs)" by auto
  with snoc.IH show ?case
    by (cases x) (force simp: as_update_def map_of_eq_None_iff map_add_def split: option.split dest: map_of_SomeD)
qed simp

lemma build_trie_path:
  assumes "hash32 X" and "collision_free X (map as_bytes (addresses (balances s)))"
  shows "leaves_ok (build_trie X s)" and "trie_path (build_trie X s) = leaf_map 0 (state_leaves X (balances s))"
proof -
  let ?xs = "sort_key (\<lambda>(addr, _). blake3 X (as_bytes addr)) (sorted_list_of_fmap (balances s))"
  have d: "distinct (map fst ?xs)"
    using distinct_addresses [of "balances s"] by (simp add: addresses_def distinct_map)
  have "write_posts fmempty (map as_update ?xs) = balances s"
  proof (rule fmap_ext)
    fix a
    have "map_of ?xs = map_of (sorted_list_of_fmap (balances s))"
      using d distinct_addresses [of "balances s"] by (intro map_of_inject_set [THEN iffD2]) (simp_all add: addresses_def)
    then show "fmlookup (write_posts fmempty (map as_update ?xs)) a = fmlookup (balances s) a"
      by (simp add: write_posts_entries [OF d])
  qed
  moreover have "set (map lu_address (map as_update ?xs)) = set (addresses (balances s))"
    by (simp add: as_update_def addresses_def image_image)
  moreover from this have "collision_free X (map as_bytes (map lu_address (map as_update ?xs) @ addresses fmempty))"
    by (intro collision_free_subset [OF assms(2)]) (simp only: set_map set_append image_Un, simp add: set_addresses)
  ultimately have "leaf_map 0 (state_leaves X (balances s)) = updated X (leaf_map 0 (state_leaves X fmempty)) (map as_update ?xs)"
    using state_leaves_write_posts [OF assms(1), of "map as_update ?xs" fmempty] by simp
  moreover have "leaf_map 0 (state_leaves X fmempty) = (\<lambda>_. None)" "trie_path fmempty = (\<lambda>_. None)"
    by (simp_all add: state_leaves_def trie_path_def sorted_list_of_fmap_def sorted_list_of_fset.rep_eq)
  ultimately show "leaves_ok (build_trie X s)" "trie_path (build_trie X s) = leaf_map 0 (state_leaves X (balances s))"
    using trie_path_inserts [OF assms(1) leaves_ok_empty, of ?xs] by (simp_all add: build_trie_def)
qed

lemma build_trie_root:
  assumes "hash32 X" and "collision_free X (map as_bytes (addresses (balances s)))"
  shows "trie_root X (build_trie X s) = compute_root X (balances s)"
  by (simp add: trie_root_smt [OF build_trie_path(1) [OF assms]] build_trie_path(2) [OF assms] compute_root_smt [OF assms])

lemma build_trie_prove:
  assumes "hash32 X" and cf: "collision_free X (map as_bytes (addr # addresses (balances s)))"
  shows "\<exists>pf. prove X (build_trie X s) addr (account_or_default s addr) = Inr pf \<and> all32 pf
    \<and> pf = siblings X (key_bits (account_key_hash X addr)) (leaf_map 0 (state_leaves X (balances s)))
    \<and> verify_proof X (compute_root X (balances s)) addr (account_or_default s addr) pf"
proof -
  have cf': "collision_free X (map as_bytes (addresses (balances s)))" using cf by (rule collision_free_subset) auto
  note trie = build_trie_path [OF assms(1) cf']
  have "fmlookup (build_trie X s) (account_key_hash X addr) = account_path X (balances s) addr"
    using trie_path_key [OF trie(1), of "account_key_hash X addr"] assms(1) state_leaves_lookup [OF assms(1) cf] by (simp add: trie(2))
  then obtain pf where pf: "prove X (build_trie X s) addr (account_or_default s addr) = Inr pf"
    by (auto simp: prove_def Let_def account_path_entry account_or_default_eq leaf_option_def split: option.splits if_splits)
  have sib: "pf = siblings X (key_bits (account_key_hash X addr)) (trie_path (build_trie X s))"
    using pf collect_siblings_root [OF leaves_ok_keys [OF trie(1)], of X]
    by (auto simp: prove_def Let_def trie_path_def split: if_splits)
  then have "all32 pf" using all32_siblings [OF assms(1)] trie_path_32 [OF trie(1)] by blast
  with pf prove_complete [OF assms(1) trie(1) pf] show ?thesis
    using sib by (simp add: build_trie_root [OF assms(1) cf'] trie(2))
qed

text \<open>The entries of an honest witness.\<close>

definition honest :: "ext \<Rightarrow> state \<Rightarrow> string \<Rightarrow> account_proof \<Rightarrow> bool" where
  "honest X s addr p \<longleftrightarrow> proof_account p = entry_or_default s addr \<and> all32 (ap_proof p)
     \<and> ap_proof p = siblings X (key_bits (account_key_hash X addr)) (leaf_map 0 (state_leaves X (balances s)))
     \<and> verify_proof X (compute_root X (balances s)) addr (proof_account p) (ap_proof p)
     \<and> (ap_code_hash p \<noteq> None \<longrightarrow> is_contract (proof_account p))"

lemma account_eta:
  "\<lparr> eoa_balance = eoa_balance a, eoa_nonce = eoa_nonce a \<rparr> = a"
  "\<lparr> code_hash = code_hash c, storage_root = storage_root c, con_nonce = con_nonce c, con_balance = con_balance c \<rparr> = c"
  by simp_all

lemma build_proof_honest:
  assumes "hash32 X" and cf: "collision_free X (map as_bytes (addr # addresses (balances s)))"
    and "fmpred (honest X s) proofs"
  shows "\<exists>proofs'. build_proof X s (build_trie X s) proofs addr = Inr proofs' \<and> fmpred (honest X s) proofs'
    \<and> fmdom' proofs' = insert addr (fmdom' proofs)"
proof -
  obtain pf where "prove X (build_trie X s) addr (account_or_default s addr) = Inr pf" "all32 pf"
    "pf = siblings X (key_bits (account_key_hash X addr)) (leaf_map 0 (state_leaves X (balances s)))"
    "verify_proof X (compute_root X (balances s)) addr (account_or_default s addr) pf"
    using build_trie_prove [OF assms(1,2)] by blast
  then show ?thesis
    using assms(3) by (cases "account_or_default s addr")
      (auto simp: build_proof_def Let_def honest_def proof_account_def account_or_default_eq account_eoa_def account_eta intro!: fmpred_upd)
qed

lemma build_proofs_honest:
  assumes "hash32 X" and "collision_free X (map as_bytes (addrs @ addresses (balances s)))" and "fmpred (honest X s) proofs"
  shows "\<exists>proofs'. foldM (build_proof X s (build_trie X s)) proofs addrs = Inr proofs' \<and> fmpred (honest X s) proofs'
    \<and> fmdom' proofs' = set addrs \<union> fmdom' proofs"
  using assms(2,3)
proof (induction addrs arbitrary: proofs)
  case (Cons addr addrs)
  have cf: "collision_free X (map as_bytes (addr # addresses (balances s)))"
    "collision_free X (map as_bytes (addrs @ addresses (balances s)))"
    using Cons.prems(1) by (rule collision_free_subset, auto)+
  obtain proofs' where p: "build_proof X s (build_trie X s) proofs addr = Inr proofs'" "fmpred (honest X s) proofs'"
    "fmdom' proofs' = insert addr (fmdom' proofs)" using build_proof_honest [OF assms(1) cf(1) Cons.prems(2)] by blast
  from Cons.IH [OF cf(2) p(2)] p(1,3) show ?case by auto
qed simp

lemma build_witness_honest:
  assumes "hash32 X" and "clean s" and "fmpred (\<lambda>_. acc_ok) (balances s)"
    and "collision_free X (map as_bytes (collect_touched_addresses b @ addresses (balances s)))"
  obtains w where "build_witness X s b = Inr w" and "sw_pre_state_root w = compute_root X (balances s)"
    and "fmpred (honest X s) (sw_proofs w)" and "fmdom' (sw_proofs w) = set (collect_touched_addresses b)"
    and "canonical_witness w"
proof -
  obtain proofs where p: "foldM (build_proof X s (build_trie X s)) fmempty (collect_touched_addresses b) = Inr proofs"
    "fmpred (honest X s) proofs" "fmdom' proofs = set (collect_touched_addresses b)"
    using build_proofs_honest [OF assms(1,4), of fmempty] by auto
  have "canonical_witness \<lparr> sw_pre_state_root = compute_root X (balances s), sw_proofs = proofs \<rparr>"
    unfolding canonical_witness_def
  proof (rule fmpredI)
    fix addr p
    assume "fmlookup (sw_proofs \<lparr> sw_pre_state_root = compute_root X (balances s), sw_proofs = proofs \<rparr>) addr = Some p"
    then have h: "honest X s addr p" using p(2) by (simp add: fmpred_iff)
    then have "acc_ok (proof_account p)"
      using assms(3) by (auto simp: honest_def entry_or_default_def fmpred_iff account_default_def split: option.splits)
    moreover have "\<not> is_contract (proof_account p)" if "acc_is_empty (proof_account p)"
      using h that cleanD [OF assms(2), of addr]
      by (auto simp: honest_def entry_or_default_def pinned_def account_default_def split: option.splits)
    ultimately show "all32 (ap_proof p) \<and> acc_ok (proof_account p)
      \<and> (acc_is_empty (proof_account p) \<longrightarrow> ap_code_hash p = None \<or> ap_storage_root p = None)"
      using h by (auto simp: honest_def)
  qed
  with p that show thesis by (auto simp: build_witness_def)
qed

lemma build_witness_complete:
  assumes "hash32 X" and "clean s" and "fmpred (\<lambda>_. acc_ok) (balances s)" and "coins s * 6 < 2 ^ 64"
    and "calculate_tail_reward (total_supply s) \<le> halving_schedule (blk_index b)" and "blk_index b \<noteq> 0"
    and "apply_block X s b chain_id = Inr t" and "blk_state_root b = compute_root X (balances t)"
    and cf: "collision_free X (map as_bytes (collect_touched_addresses b @ addresses (balances s)))"
  shows "\<exists>w. build_witness X s b = Inr w \<and> verify_block_stateless X (compute_root X (balances s)) b chain_id w = Inr ()"
proof -
  obtain w where w: "build_witness X s b = Inr w" "sw_pre_state_root w = compute_root X (balances s)"
    "fmpred (honest X s) (sw_proofs w)" "fmdom' (sw_proofs w) = set (collect_touched_addresses b)" "canonical_witness w"
    by (rule build_witness_honest [OF assms(1-3) cf])
  have v: "verify_proof X (compute_root X (balances s)) addr (proof_account p) (ap_proof p)"
    and pre: "proof_account p = entry_or_default s addr" if "fmlookup (sw_proofs w) addr = Some p" for addr p
    using fmpredD [OF w(3) that] unfolding honest_def by blast+
  have ag: "agree (fmdom' (sw_proofs w)) (reconstruct w) s"
    using pre by (auto simp: agree_def entry_reconstruct fmlookup_dom'_iff)
  have "unat (calculate_tail_reward (of_nat (coins (reconstruct w)))) \<le> unat (calculate_tail_reward (of_nat (coins s)))"
    using coins_reconstruct [OF ag] assms(4) unat_tail_reward [of "of_nat (coins s)"] unat_tail_reward [of "of_nat (coins (reconstruct w))"]
    by (simp add: unat_of_nat div_le_mono)
  then have "expected_reward s b chain_id \<le> expected_reward (reconstruct w) b chain_id"
    using assms(5) by (auto simp: total_supply_coins block_reward_at_height_for_chain_def word_le_nat_alt max_def)
  then obtain post where post: "apply_block X (reconstruct w) b chain_id = Inr post" "agree (fmdom' (sw_proofs w)) t post"
    using apply_block_agree [OF agree_sym [OF ag] _ assms(6) _ assms(7)] w(4) by auto
  have "root_after_updates X (compute_root X (balances s)) (witness_updates w post) = Inr (compute_root X (balances t))"
  proof (rule witness_root [OF assms(1) _ _ agree_sym [OF post(2)]])
    show "collision_free X (map as_bytes (map lu_address (witness_updates w s) @ addresses (balances s)))"
      by (rule collision_free_subset [OF cf])
        (simp only: set_map [of as_bytes] set_append witness_updates_address w(4) order_refl)
    have "exact_update X (leaf_map 0 (state_leaves X (balances s)))
        \<lparr> lu_address = addr, lu_pre = proof_account p, lu_proof = ap_proof p, lu_post = entry_or_default s addr \<rparr>"
      if p: "fmlookup (sw_proofs w) addr = Some p" for addr p
    proof -
      have "addr \<in> set (collect_touched_addresses b)" using p w(4) by (metis fmdom'I)
      then have "collision_free X (map as_bytes (addr # addresses (balances s)))"
        by (intro collision_free_subset [OF cf]) auto
      from state_leaves_lookup [OF assms(1) this] show ?thesis
        using fmpredD [OF w(3) p]
        by (simp add: exact_update_def honest_def account_path_entry leaf_at_def leaf_option_def leaf_hash_for_def)
    qed
    then show "list_all (exact_update X (leaf_map 0 (state_leaves X (balances s)))) (witness_updates w s)"
      by (simp add: witness_updates_all)
  qed (use apply_block_frame [OF assms(6,7)] w(4) in auto)
  then show ?thesis using w v post(1) assms(8) by (auto simp: verify_block_stateless_Inr)
qed

section \<open>The commitment and the execution\<close>

text \<open>The state root a header commits to has no influence on the execution of its block.\<close>

lemma apply_txs_commitment:
  "foldM (apply_tx X V (b\<lparr>blk_state_root := r\<rparr>) chain_id) (s, None, rs) itxs
   = foldM (apply_tx X V b chain_id) (s, None, rs) itxs"
proof (induction itxs arbitrary: s rs)
  case (Cons itx itxs)
  obtain i tx where itx: "itx = (i, tx)" by (cases itx)
  have step: "apply_tx X V (b\<lparr>blk_state_root := r\<rparr>) chain_id (s, None, rs) itx = apply_tx X V b chain_id (s, None, rs) itx"
    by (cases tx) (simp_all add: itx apply_tx_def transfer_receipt_def)
  show ?case
  proof (cases "apply_tx X V b chain_id (s, None, rs) itx")
    case (Inr acc)
    then have "\<exists>s' rs'. acc = (s', None, rs')"
      unfolding itx by (cases "tx_is_coinbase tx") (auto simp: apply_tx_coinbase apply_tx_transfer)
    then show ?thesis using Cons.IH Inr step by auto
  qed (simp add: step)
qed simp

lemma apply_block_commitment: "apply_block X s (b\<lparr>blk_state_root := r\<rparr>) chain_id = apply_block X s b chain_id"
proof -
  have "apply_genesis_tx X (b\<lparr>blk_state_root := r\<rparr>) = apply_genesis_tx X b"
    by (simp add: fun_eq_iff apply_genesis_tx_def transfer_receipt_def split: transaction.split)
  then show ?thesis
    by (simp add: apply_block_def apply_block_inner_def apply_genesis_def apply_non_genesis_def apply_txs_commitment
        transfer_receipt_def Let_def cong: option.case_cong transaction.case_cong if_cong)
qed

end
