(* ===== verification/Sc_Consensus.thy ===== *)
theory Sc_Consensus
  imports Sc_U256 Sc_Address
begin

text \<open>
  The consensus rules of \<open>crates/strangecoin-core/src/consensus.rs\<close> (time, difficulty, proof of work,
  signatures, work) and the fork choice of \<open>chain_selector.rs\<close>. A Rust panic is the error \<open>Panic\<close>.
\<close>

section \<open>Constants\<close>

definition CURRENT_CONSENSUS_VERSION :: u32 where "CURRENT_CONSENSUS_VERSION = 1"
definition MEDIAN_TIME_WINDOW :: nat where "MEDIAN_TIME_WINDOW = 11"
definition MAX_FUTURE_TIME :: u64 where "MAX_FUTURE_TIME = 2 * 60 * 60"
definition RETARGET_INTERVAL :: u64 where "RETARGET_INTERVAL = 2016"
definition TARGET_BLOCK_TIME :: u64 where "TARGET_BLOCK_TIME = 600"
definition MAX_TARGET_CHANGE_FACTOR :: u64 where "MAX_TARGET_CHANGE_FACTOR = 4"
definition RBF_MIN_DELTA_BPS :: u64 where "RBF_MIN_DELTA_BPS = 3000"
definition RBF_BPS_DENOMINATOR :: u64 where "RBF_BPS_DENOMINATOR = 10000"
definition MAX_RBF_REPLACEMENTS :: u32 where "MAX_RBF_REPLACEMENTS = 10"

lemmas consensus_consts = MEDIAN_TIME_WINDOW_def MAX_FUTURE_TIME_def RETARGET_INTERVAL_def TARGET_BLOCK_TIME_def
  MAX_TARGET_CHANGE_FACTOR_def

section \<open>Time\<close>

definition median_time_past :: "block list \<Rightarrow> u64 \<Rightarrow> core_error + u64" where
  "median_time_past blocks current_height =
     (if current_height = 0 then Inr 0
      else
        let start = unat (saturating_sub current_height (of_nat MEDIAN_TIME_WINDOW)) in
        if start > length blocks then Inl (Panic ''slice'')
        else
          let times = sort (map blk_timestamp (drop start blocks)) in
          if times = [] then Inl (Panic ''index'') else Inr (times ! (length times div 2)))"

definition validate_timestamp :: "block \<Rightarrow> block list \<Rightarrow> u64 \<Rightarrow> core_error + unit" where
  "validate_timestamp b prev_blocks now =
     (if blk_index b = 0 then Inr ()
      else bind_res (median_time_past prev_blocks (blk_index b)) (\<lambda>mtp.
        if blk_timestamp b \<le> mtp then Inl TimestampTooOld
        else if blk_timestamp b > now + MAX_FUTURE_TIME then Inl TimestampInFuture
        else Inr ()))"

section \<open>Difficulty\<close>

text \<open>\<open>hex::decode(..).expect(..)\<close> followed by \<open>copy_from_slice\<close> into an array of 32 bytes.\<close>

definition target_array :: "ext \<Rightarrow> string \<Rightarrow> core_error + bytes" where
  "target_array X target =
     bind_res (ok_or (hex_decode X target) (Panic ''valid target hex'')) (\<lambda>bs.
       if length bs = 32 then Inr bs else Inl (Panic ''copy_from_slice''))"

definition compute_target :: "ext \<Rightarrow> block list \<Rightarrow> core_error + bytes" where
  "compute_target X prev_blocks =
     (if length prev_blocks < unat RETARGET_INTERVAL then
        if prev_blocks = [] then Inl (Panic ''at least one block'')
        else target_array X (blk_target (last prev_blocks))
      else
        let window = drop (length prev_blocks - unat RETARGET_INTERVAL) prev_blocks;
            fst_blk = window ! 0;
            lst_blk = window ! (length window - 1);
            actual_time = saturating_sub (blk_timestamp lst_blk) (blk_timestamp fst_blk);
            expected_time = TARGET_BLOCK_TIME * (RETARGET_INTERVAL - 1)
        in bind_res (target_array X (blk_target lst_blk)) (\<lambda>prev_target_arr.
             let prev_u256 = u256_from_bytes prev_target_arr;
                 min_target = u256_div prev_u256 (u256_from_u64 MAX_TARGET_CHANGE_FACTOR);
                 max_target = u256_mul_sat prev_u256 (u256_from_u64 MAX_TARGET_CHANGE_FACTOR)
             in if actual_time \<ge> saturating_mul expected_time MAX_TARGET_CHANGE_FACTOR
                then Inr (u256_to_bytes max_target)
                else if saturating_mul actual_time MAX_TARGET_CHANGE_FACTOR \<le> expected_time
                then Inr (u256_to_bytes min_target)
                else
                  let numerator = u256_mul prev_u256 (u256_from_u64 actual_time);
                      new_target = u256_div numerator (u256_from_u64 expected_time);
                      clamped = u256_min (u256_max new_target min_target) max_target
                  in Inr (u256_to_bytes clamped)))"

definition validate_difficulty :: "ext \<Rightarrow> block \<Rightarrow> core_error + unit" where
  "validate_difficulty X b =
     bind_res (block_hash X b) (\<lambda>hs.
     bind_res (ok_or (hex_decode X (blk_target b)) InvalidDifficulty) (\<lambda>target_bytes.
       if length target_bytes \<noteq> 32 then Inl (Panic ''copy_from_slice'')
       else if u256_gt (u256_from_bytes hs) (u256_from_bytes target_bytes) then Inl InvalidDifficulty
       else Inr ()))"

definition validate_header_pow :: "ext \<Rightarrow> block_header \<Rightarrow> core_error + unit" where
  "validate_header_pow X h =
     bind_res (header_hash X h) (\<lambda>computed.
       if hdr_hash h \<noteq> [] \<and> hdr_hash h \<noteq> hex_encode X computed
       then Inl (HeaderHashMismatch (hex_encode X computed) (hdr_hash h))
       else
         bind_res (ok_or (hex_decode X (hdr_target h)) InvalidDifficulty) (\<lambda>target_bytes.
           if length target_bytes \<noteq> 32 then Inl InvalidDifficulty
           else if u256_gt (u256_from_bytes computed) (u256_from_bytes target_bytes) then Inl InvalidDifficulty
           else Inr ()))"

section \<open>Transactions\<close>

definition recover_pubkey_from_sig :: "ext \<Rightarrow> bytes \<Rightarrow> bytes \<Rightarrow> core_error + pubkey" where
  "recover_pubkey_from_sig X signature message =
     (if length signature \<noteq> 65 then Inl InvalidSignature
      else ok_or (recover_ecdsa X (blake3 X message) (take 64 signature) (signature ! 64)) InvalidSignature)"

definition validate_nonce :: "u64 \<Rightarrow> u64 \<Rightarrow> core_error + unit" where
  "validate_nonce got account_nonce =
     bind_res (ok_or (checked_add account_nonce 1) StateOverflow) (\<lambda>expected.
       if got \<noteq> expected then Inl (InvalidNonce expected got) else Inr ())"

definition verify_limits :: "transaction \<Rightarrow> core_error + unit" where
  "verify_limits tx =
     (case tx of
        Create c \<Rightarrow>
          if c_init_code c = [] then Inl (InvalidContractDeploy ''init_code is empty'')
          else if length (c_init_code c) > MAX_CODE_SIZE
          then Inl (InvalidContractDeploy (''init_code exceeds max code size of '' @ show_nat MAX_CODE_SIZE @ '' bytes''))
          else if c_gas_limit c > BLOCK_GAS_LIMIT
          then Inl (InvalidGasLimit (''create gas_limit '' @ show_nat (unat (c_gas_limit c))
                 @ '' exceeds block gas limit '' @ show_nat (unat BLOCK_GAS_LIMIT)))
          else Inr ()
      | Call k \<Rightarrow> if k_gas_limit k = 0 then Inl (InvalidGasLimit ''gas_limit must be > 0'') else Inr ()
      | Transfer _ \<Rightarrow> Inr ())"

definition verify_transaction :: "ext \<Rightarrow> transaction \<Rightarrow> core_error + unit" where
  "verify_transaction X tx =
     (if tx_is_coinbase tx then Inr ()
      else
        bind_res (verify_limits tx) (\<lambda>_.
        bind_res (recover_pubkey_from_sig X (tx_signature tx) (serialize_transaction tx)) (\<lambda>pk.
        bind_res (decode_address X (tx_sender tx)) (\<lambda>(sender_pk, _).
          if sender_pk \<noteq> pk then Inl InvalidSignature else Inr ()))))"

definition validate_tx_root :: "ext \<Rightarrow> block \<Rightarrow> core_error + unit" where
  "validate_tx_root X b =
     (let computed = compute_tx_root X (blk_transactions b)
      in if computed \<noteq> blk_tx_root b then Inl (TxRootMismatch computed (blk_tx_root b)) else Inr ())"

definition is_regtest :: "u32 \<Rightarrow> bool" where
  "is_regtest network_id \<longleftrightarrow> network_id = CHAIN_ID_REGTEST"

section \<open>Work\<close>

definition work_from_target :: "bytes \<Rightarrow> u256" where
  "work_from_target target =
     (let target_u256 = u256_from_bytes target
      in if target_u256 = u256_zero then u256_zero else u256_div (replicate 4 (- 1)) target_u256)"

definition add_work :: "ext \<Rightarrow> u256 \<Rightarrow> string \<Rightarrow> core_error + u256" where
  "add_work X acc target = bind_res (target_array X target) (\<lambda>arr. Inr (u256_add acc (work_from_target arr)))"

definition cumulative_work :: "ext \<Rightarrow> block list \<Rightarrow> core_error + u256" where
  "cumulative_work X chain = foldM (\<lambda>total b. add_work X total (blk_target b)) u256_zero chain"

definition cumulative_work_headers :: "ext \<Rightarrow> block_header list \<Rightarrow> core_error + u256" where
  "cumulative_work_headers X headers = foldM (\<lambda>total h. add_work X total (hdr_target h)) u256_zero headers"

section \<open>Fork choice\<close>

record chain_info =
  tip_height :: u64
  tip_hash :: string
  total_work :: u256
  tip_timestamp :: u64

definition is_better :: "chain_info \<Rightarrow> chain_info \<Rightarrow> bool" where
  "is_better a b \<longleftrightarrow>
     (if u256_gt (total_work a) (total_work b) then True
      else if u256_gt (total_work b) (total_work a) then False
      else if tip_timestamp a < tip_timestamp b then True
      else if tip_timestamp b < tip_timestamp a then False
      else tip_hash a < tip_hash b)"

definition select_best :: "chain_info list \<Rightarrow> chain_info option" where
  "select_best infos =
     (case infos of
        [] \<Rightarrow> None
      | c # cs \<Rightarrow> Some (foldl (\<lambda>best candidate. if is_better candidate best then candidate else best) c cs))"

text \<open>\<open>ChainSelector::chain_info\<close>; the option is the early return on an empty chain.\<close>

definition chain_info_of :: "ext \<Rightarrow> block list \<Rightarrow> core_error + chain_info option" where
  "chain_info_of X chain =
     (if chain = [] then Inr None
      else bind_res (cumulative_work X chain) (\<lambda>w.
        let tip = last chain
        in Inr (Some \<lparr> tip_height = blk_index tip, tip_hash = blk_hash tip, total_work = w,
             tip_timestamp = blk_timestamp tip \<rparr>)))"

section \<open>The retarget rule\<close>

lemma target_array_length: "target_array X s = Inr bs \<Longrightarrow> length bs = 32"
  by (auto simp: target_array_def split: if_splits)

text \<open>The value a retarget computes from the previous target and the time the window took. The
  product is reduced modulo \<open>2 ^ 256\<close>, as \<open>u256_mul\<close> does.\<close>

definition retarget_value :: "nat \<Rightarrow> nat \<Rightarrow> nat" where
  "retarget_value p a =
     (let hi = min (p * 4) (2 ^ 256 - 1)
      in if 4836000 \<le> a then hi
         else if a * 4 \<le> 1209000 then p div 4
         else min (max (p * a mod 2 ^ 256 div 1209000) (p div 4)) hi)"

lemma retarget_branches:
  "saturating_mul 1209000 MAX_TARGET_CHANGE_FACTOR \<le> a \<longleftrightarrow> 4836000 \<le> unat a"
  "saturating_mul a MAX_TARGET_CHANGE_FACTOR \<le> 1209000 \<longleftrightarrow> unat a * 4 \<le> 1209000" for a :: u64
  by (simp_all add: word_le_nat_alt unat_saturating_mul MAX_TARGET_CHANGE_FACTOR_def min_def)

definition retarget_time :: "block list \<Rightarrow> nat" where
  "retarget_time prev_blocks =
     unat (blk_timestamp (last prev_blocks)) - unat (blk_timestamp (prev_blocks ! (length prev_blocks - 2016)))"

lemma compute_target_value:
  assumes "2016 \<le> length prev_blocks" and "target_array X (blk_target (last prev_blocks)) = Inr p"
  obtains t where "compute_target X prev_blocks = Inr t" and "length t = 32"
    and "be_val t = retarget_value (be_val p) (retarget_time prev_blocks)"
proof -
  have ne: "prev_blocks \<noteq> []" using assms(1) by auto
  let ?w = "drop (length prev_blocks - 2016) prev_blocks"
  have w: "length ?w = 2016" "?w ! 0 = prev_blocks ! (length prev_blocks - 2016)" "?w ! 2015 = last prev_blocks"
    using assms(1) ne by (simp_all add: last_conv_nth)
  have p: "length p = 32" "length (u256_from_bytes p) = 4" using target_array_length [OF assms(2)] by simp_all
  define a where "a = saturating_sub (blk_timestamp (last prev_blocks)) (blk_timestamp (prev_blocks ! (length prev_blocks - 2016)))"
  have a: "unat a = retarget_time prev_blocks" by (simp add: a_def unat_saturating_sub retarget_time_def)
  let ?P = "u256_from_bytes p" and ?F = "u256_from_u64 MAX_TARGET_CHANGE_FACTOR"
  define t where "t = (if 4836000 \<le> unat a then u256_mul_sat ?P ?F
      else if unat a * 4 \<le> 1209000 then u256_div ?P ?F
      else u256_min (u256_max (u256_div (u256_mul ?P (u256_from_u64 a)) (u256_from_u64 1209000)) (u256_div ?P ?F)) (u256_mul_sat ?P ?F))"
  have t: "compute_target X prev_blocks = Inr (u256_to_bytes t)"
    using assms(1) w assms(2)
    by (auto simp: compute_target_def Let_def RETARGET_INTERVAL_def TARGET_BLOCK_TIME_def
        retarget_branches t_def a_def [symmetric])
  have len: "length t = 4" using p by (simp add: t_def)
  have "limbs_val t = retarget_value (be_val p) (unat a)"
    unfolding t_def retarget_value_def Let_def using p
    by (simp add: u256_simps MAX_TARGET_CHANGE_FACTOR_def)
  then show thesis using that [OF t] len by (simp add: a be_val_to_bytes)
qed

lemma retarget_clamp:
  "p < 2 ^ 256 \<Longrightarrow> p div 4 \<le> retarget_value p a \<and> retarget_value p a \<le> p * 4 \<and> retarget_value p a < 2 ^ 256"
  by (auto simp: retarget_value_def Let_def min_def max_def)

text \<open>The product wraps for targets near the maximum: an on-schedule period divides the target by four.\<close>

lemma retarget_wrap: "retarget_value (2 ^ 256 - 1) 1209000 = (2 ^ 256 - 1) div 4"
  by (simp add: retarget_value_def)

lemma retarget_exact:
  assumes "p * max 302250 (min a 4836000) < 2 ^ 256"
  shows "retarget_value p a = p * max 302250 (min a 4836000) div 1209000"
proof -
  have quarter: "p div 4 = p * 302250 div 1209000" using div_mult_mult1 [of 302250 p 4] by (simp add: mult.commute)
  consider (hi) "4836000 \<le> a" | (lo) "a * 4 \<le> 1209000" | (mid) "302250 < a" "a < 4836000" by linarith
  then show ?thesis
  proof cases
    case hi
    then have "max 302250 (min a 4836000) = 4836000" by simp
    then have "p * 4836000 < 2 ^ 256" using assms by (simp only:)
    then have "p * 4 \<le> 2 ^ 256 - 1" by linarith
    then show ?thesis using hi by (simp add: retarget_value_def Let_def min_def)
  next
    case lo
    then show ?thesis using quarter by (simp add: retarget_value_def Let_def max_def)
  next
    case mid
    then have "p * a mod 2 ^ 256 = p * a" using assms by (intro mod_less) simp
    moreover have "p div 4 \<le> p * a div 1209000" unfolding quarter using mid by (intro div_le_mono mult_le_mono) simp_all
    moreover have "p * a div 1209000 \<le> p * 4"
    proof -
      have "p * a div 1209000 \<le> p * 4836000 div 1209000" using mid by (intro div_le_mono mult_le_mono) simp_all
      also have "\<dots> = p * 4" using div_mult_mult1 [of 1209000 "p * 4" 1] by (simp add: mult.commute)
      finally show ?thesis .
    qed
    moreover have "p * a div 1209000 < 2 ^ 256" using assms mid by (intro le_less_trans [OF div_le_dividend]) simp
    ultimately show ?thesis using mid by (simp add: retarget_value_def Let_def max_def min_def)
  qed
qed

section \<open>The median time\<close>

lemma sorted_nth_ge_iff:
  fixes m :: "'a::linorder"
  assumes "sorted ys" and "k < length ys"
  shows "m \<le> ys ! k \<longleftrightarrow> length ys - k \<le> length (filter (\<lambda>x. m \<le> x) ys)"
proof
  assume m: "m \<le> ys ! k"
  have "m \<le> x" if "x \<in> set (drop k ys)" for x
  proof -
    from that obtain j where j: "j < length ys - k" "x = ys ! (k + j)" by (auto simp: in_set_conv_nth)
    then have "ys ! k \<le> x" using assms by (simp add: sorted_nth_mono)
    then show ?thesis using m by (rule order.trans [rotated])
  qed
  then have "length (filter (\<lambda>x. m \<le> x) (drop k ys)) = length ys - k" by simp
  moreover have "length (filter (\<lambda>x. m \<le> x) (drop k ys)) \<le> length (filter (\<lambda>x. m \<le> x) ys)"
    by (metis append_take_drop_id filter_append le_add2 length_append)
  ultimately show "length ys - k \<le> length (filter (\<lambda>x. m \<le> x) ys)" by simp
next
  assume len: "length ys - k \<le> length (filter (\<lambda>x. m \<le> x) ys)"
  show "m \<le> ys ! k"
  proof (rule ccontr)
    assume "\<not> m \<le> ys ! k"
    have "\<not> m \<le> x" if x: "x \<in> set (take (Suc k) ys)" for x
    proof -
      from x obtain j where "j < Suc k" "j < length ys" "x = ys ! j" by (auto simp: in_set_conv_nth)
      then have "x \<le> ys ! k" using assms by (simp add: sorted_nth_mono)
      then show ?thesis using \<open>\<not> m \<le> ys ! k\<close> by auto
    qed
    then have "filter (\<lambda>x. m \<le> x) (take (Suc k) ys) = []" by (simp add: filter_empty_conv)
    then have "filter (\<lambda>x. m \<le> x) ys = filter (\<lambda>x. m \<le> x) (drop (Suc k) ys)"
      by (metis append_Nil append_take_drop_id filter_append)
    then have "length (filter (\<lambda>x. m \<le> x) ys) \<le> length ys - Suc k"
      using length_filter_le [of _ "drop (Suc k) ys"] by simp
    with len assms(2) show False by linarith
  qed
qed

text \<open>The blocks whose timestamps enter the median.\<close>

definition mtp_window :: "block list \<Rightarrow> block list" where
  "mtp_window blocks = drop (length blocks - 11) blocks"

lemma median_time_past_ge_iff:
  assumes "unat h = length blocks" and "blocks \<noteq> []"
  obtains t where "median_time_past blocks h = Inr t"
    and "\<And>m. m \<le> t \<longleftrightarrow>
      length (mtp_window blocks) - length (mtp_window blocks) div 2
        \<le> length (filter (\<lambda>b. m \<le> blk_timestamp b) (mtp_window blocks))"
proof -
  let ?w = "map blk_timestamp (mtp_window blocks)"
  have h: "h \<noteq> 0" using assms by auto
  have start: "unat (saturating_sub h (of_nat MEDIAN_TIME_WINDOW)) = length blocks - 11"
    by (simp add: unat_saturating_sub MEDIAN_TIME_WINDOW_def assms(1))
  have "length blocks - 11 < length blocks" using assms(2) by (simp add: diff_less)
  then have ne: "mtp_window blocks \<noteq> []" by (simp add: mtp_window_def)
  let ?t = "sort ?w ! (length ?w div 2)"
  have "sort ?w \<noteq> []" using ne by (metis length_0_conv length_sort map_is_Nil_conv)
  then have "median_time_past blocks h = Inr ?t"
    using h by (simp add: median_time_past_def start Let_def mtp_window_def drop_map)
  moreover have "m \<le> ?t \<longleftrightarrow> length (mtp_window blocks) - length (mtp_window blocks) div 2
      \<le> length (filter (\<lambda>b. m \<le> blk_timestamp b) (mtp_window blocks))" for m
  proof -
    have "length ?w div 2 < length (sort ?w)" using ne by (simp add: div_less_dividend)
    from sorted_nth_ge_iff [OF sorted_sort this, of m] show ?thesis
      by (simp add: filter_sort filter_map comp_def)
  qed
  ultimately show thesis by (rule that)
qed

text \<open>The window after one more block.\<close>

lemma mtp_window_snoc:
  "\<exists>dropped. mtp_window blocks = dropped @ drop (length dropped) (mtp_window blocks)
     \<and> mtp_window (blocks @ [b]) = drop (length dropped) (mtp_window blocks) @ [b]
     \<and> (length dropped = 0 \<and> length blocks < 11 \<or> length dropped = 1 \<and> 11 \<le> length blocks)"
proof (cases "length blocks < 11")
  case True
  then show ?thesis by (intro exI [of _ "[]"]) (simp add: mtp_window_def)
next
  case False
  let ?n = "length blocks - 11"
  have "?n < length blocks" using False by simp
  then obtain x where w: "mtp_window blocks = x # drop (Suc ?n) blocks"
    unfolding mtp_window_def using Cons_nth_drop_Suc by metis
  have "length (blocks @ [b]) - 11 = Suc ?n" using False by simp
  then have "mtp_window (blocks @ [b]) = drop (Suc ?n) blocks @ [b]" using False by (simp add: mtp_window_def)
  then show ?thesis using False by (intro exI [of _ "[x]"]) (simp add: w)
qed

lemma median_count:
  fixes d f g n :: nat
  assumes "d + n - (d + n) div 2 \<le> g + f" and "g \<le> d" and "d = 0 \<or> d = 1"
  shows "Suc n - Suc n div 2 \<le> Suc f"
  using assms by (elim disjE) simp_all

theorem median_time_past_mono:
  assumes len: "unat (blk_index b) = length blocks" "blocks \<noteq> []" "Suc (length blocks) < 2 ^ 64"
    and ok: "validate_timestamp b blocks now = Inr ()"
  obtains t t' where "median_time_past blocks (blk_index b) = Inr t"
    and "median_time_past (blocks @ [b]) (blk_index b + 1) = Inr t'" and "t < blk_timestamp b" and "t \<le> t'"
proof -
  obtain t where t: "median_time_past blocks (blk_index b) = Inr t"
    and t_iff: "\<And>m. m \<le> t \<longleftrightarrow> length (mtp_window blocks) - length (mtp_window blocks) div 2
        \<le> length (filter (\<lambda>b. m \<le> blk_timestamp b) (mtp_window blocks))"
    using median_time_past_ge_iff [OF len(1,2)] by blast
  have "unat (blk_index b + 1) = length (blocks @ [b])"
    using len unat_add_lem [of "blk_index b" 1] by simp
  then obtain t' where t': "median_time_past (blocks @ [b]) (blk_index b + 1) = Inr t'"
    and t'_iff: "\<And>m. m \<le> t' \<longleftrightarrow> length (mtp_window (blocks @ [b])) - length (mtp_window (blocks @ [b])) div 2
        \<le> length (filter (\<lambda>b. m \<le> blk_timestamp b) (mtp_window (blocks @ [b])))"
    using median_time_past_ge_iff [of "blk_index b + 1" "blocks @ [b]"] by blast
  have "blk_index b \<noteq> 0" using len(1,2) by auto
  then have new: "t < blk_timestamp b"
    using ok t by (auto simp: validate_timestamp_def split: if_splits)
  obtain d where d: "mtp_window blocks = d @ drop (length d) (mtp_window blocks)"
      "mtp_window (blocks @ [b]) = drop (length d) (mtp_window blocks) @ [b]"
      "length d = 0 \<and> length blocks < 11 \<or> length d = 1 \<and> 11 \<le> length blocks"
    using mtp_window_snoc by blast
  define r where "r = drop (length d) (mtp_window blocks)"
  let ?P = "\<lambda>b. t \<le> blk_timestamp b"
  have w: "mtp_window blocks = d @ r" and w': "mtp_window (blocks @ [b]) = r @ [b]" using d(1,2) by (simp_all add: r_def)
  have "length d + length r - (length d + length r) div 2 \<le> length (filter ?P d) + length (filter ?P r)"
    using t_iff [of t] by (simp add: w)
  then have "Suc (length r) - Suc (length r) div 2 \<le> Suc (length (filter ?P r))"
    by (rule median_count) (use d(3) in auto)
  then have "length (r @ [b]) - length (r @ [b]) div 2 \<le> length (filter ?P (r @ [b]))" using new by simp
  then have "t \<le> t'" unfolding t'_iff w' .
  with t t' new show thesis by (rule that)
qed

section \<open>Proof of work and signatures\<close>

lemma validate_header_pow_iff:
  assumes "hash32 X" and "header_hash X h = Inr hs"
  shows "validate_header_pow X h = Inr () \<longleftrightarrow>
    (hdr_hash h = [] \<or> hdr_hash h = hex_encode X hs)
    \<and> (\<exists>t. hex_decode X (hdr_target h) = Some t \<and> length t = 32 \<and> be_val hs \<le> be_val t)"
proof -
  have "length hs = 32" using assms by (auto simp: header_hash_def hash32_def)
  then show ?thesis
    by (cases "hex_decode X (hdr_target h)")
      (auto simp: validate_header_pow_def assms(2) u256_gt_val be_val_from_bytes split: if_splits)
qed

lemma validate_difficulty_iff:
  assumes "hash32 X" and "block_hash X b = Inr hs"
  shows "validate_difficulty X b = Inr () \<longleftrightarrow>
    (\<exists>t. hex_decode X (blk_target b) = Some t \<and> length t = 32 \<and> be_val hs \<le> be_val t)"
proof -
  have "length hs = 32" using assms by (auto simp: block_hash_def hash32_def)
  then show ?thesis
    by (cases "hex_decode X (blk_target b)")
      (auto simp: validate_difficulty_def assms(2) u256_gt_val be_val_from_bytes split: if_splits)
qed

lemma validate_nonce_iff: "validate_nonce n a = Inr () \<longleftrightarrow> unat n = unat a + 1"
proof -
  have "unat (a + 1) = unat a + 1" if "unat n = unat a + 1"
    using that unat_bound [of n] unat_add_lem [of a 1] by simp
  then have "unat n = unat a + 1 \<longleftrightarrow> n = a + 1 \<and> unat (a + 1) = unat a + 1"
    by (metis unsigned_word_eqI)
  then show ?thesis by (auto simp: validate_nonce_def bind_res_Inr_iff checked_add_Some_iff)
qed

lemma verify_transaction_iff:
  assumes "\<not> tx_is_coinbase tx"
  shows "verify_transaction X tx = Inr () \<longleftrightarrow>
    verify_limits tx = Inr () \<and> length (tx_signature tx) = 65
    \<and> (\<exists>pk net. decode_address X (tx_sender tx) = Inr (pk, net)
         \<and> recover_ecdsa X (blake3 X (serialize_transaction tx)) (take 64 (tx_signature tx)) (tx_signature tx ! 64) = Some pk)"
  using assms
  by (auto simp: verify_transaction_def recover_pubkey_from_sig_def bind_res_Inr_iff split: if_splits)

section \<open>Work and fork choice\<close>

lemma length_work [simp]: "length bs = 32 \<Longrightarrow> length (work_from_target bs) = 4"
  by (simp add: work_from_target_def Let_def)

lemma work_from_target_val:
  assumes "length bs = 32"
  shows "limbs_val (work_from_target bs) = (2 ^ 256 - 1) div be_val bs"
proof (cases "u256_from_bytes bs = u256_zero")
  case True
  then have "be_val bs = 0" using be_val_from_bytes [OF assms] by simp
  then show ?thesis using True by (simp add: work_from_target_def Let_def)
next
  case False
  then show ?thesis
    using limbs_val_max [of 4] by (simp add: work_from_target_def Let_def u256_div_val be_val_from_bytes assms wB_power)
qed

lemma work_pos: "length bs = 32 \<Longrightarrow> be_val bs \<noteq> 0 \<Longrightarrow> 0 < limbs_val (work_from_target bs)"
  using be_val_bound [of bs] by (simp add: work_from_target_val div_greater_zero_iff)

text \<open>The work of a chain as a number.\<close>

definition target_work :: "ext \<Rightarrow> string \<Rightarrow> nat" where
  "target_work X target = (case target_array X target of Inr bs \<Rightarrow> (2 ^ 256 - 1) div be_val bs | Inl _ \<Rightarrow> 0)"

lemma add_work_val:
  assumes "length acc = 4" and "add_work X acc target = Inr w"
  shows "length w = 4" and "limbs_val w = (limbs_val acc + target_work X target) mod 2 ^ 256"
proof -
  from assms(2) obtain bs where bs: "target_array X target = Inr bs" and w: "w = u256_add acc (work_from_target bs)"
    by (auto simp: add_work_def)
  have len: "length (work_from_target bs) = 4" using target_array_length [OF bs] by simp
  show "length w = 4" using assms(1) len by (simp add: w)
  show "limbs_val w = (limbs_val acc + target_work X target) mod 2 ^ 256"
    unfolding w u256_add_val [OF assms(1) len] work_from_target_val [OF target_array_length [OF bs]]
    by (simp only: target_work_def bs sum.case)
qed

lemma add_works_val:
  assumes "foldM (\<lambda>acc b. add_work X acc (f b)) a xs = Inr w" and "length a = 4"
  shows "length w = 4 \<and> limbs_val w = (limbs_val a + (\<Sum>b\<leftarrow>xs. target_work X (f b))) mod 2 ^ 256"
  using assms
proof (induction xs arbitrary: a)
  case Nil
  then show ?case using u256_bound [of w] by simp
next
  case (Cons b xs)
  from Cons.prems obtain a' where a': "add_work X a (f b) = Inr a'"
    and rest: "foldM (\<lambda>acc b. add_work X acc (f b)) a' xs = Inr w" by auto
  from add_work_val [OF Cons.prems(2) a'] Cons.IH [OF rest] show ?case
    by (simp add: mod_add_left_eq add.assoc)
qed

lemma cumulative_work_val:
  assumes "cumulative_work X chain = Inr w"
  shows "length w = 4" and "limbs_val w = (\<Sum>b\<leftarrow>chain. target_work X (blk_target b)) mod 2 ^ 256"
  using add_works_val [OF assms [unfolded cumulative_work_def]] by simp_all

lemma cumulative_work_headers_eq:
  "cumulative_work_headers X (map header chain) = cumulative_work X chain"
proof -
  have "foldM (\<lambda>acc h. add_work X acc (hdr_target h)) a (map header chain) =
      foldM (\<lambda>acc b. add_work X acc (blk_target b)) a chain" for a
    by (induction chain arbitrary: a) (simp_all add: header_def)
  then show ?thesis by (simp add: cumulative_work_headers_def cumulative_work_def)
qed

text \<open>What a preference needs so that a single pass finds a candidate no other one beats: it is a
  strict weak order on the candidates.\<close>

locale preference =
  fixes better :: "'a \<Rightarrow> 'a \<Rightarrow> bool" and valid :: "'a \<Rightarrow> bool"
  assumes irrefl: "valid a \<Longrightarrow> \<not> better a a"
    and neg_trans: "valid a \<Longrightarrow> valid b \<Longrightarrow> valid c \<Longrightarrow> better a c \<Longrightarrow> better a b \<or> better b c"
    and asym: "valid a \<Longrightarrow> valid b \<Longrightarrow> better a b \<Longrightarrow> \<not> better b a"
begin

lemma pass_best:
  assumes "list_all valid (c # cs)"
  defines "r \<equiv> foldl (\<lambda>best x. if better x best then x else best) c cs"
  shows "r \<in> set (c # cs)" and "\<forall>x\<in>set (c # cs). \<not> better x r"
proof -
  have "r \<in> set (c # cs) \<and> (\<forall>x\<in>set (c # cs). \<not> better x r)"
    using assms(1) unfolding r_def
  proof (induction cs rule: rev_induct)
    case Nil
    then show ?case using irrefl by simp
  next
    case (snoc x cs)
    let ?r = "foldl (\<lambda>best x. if better x best then x else best) c cs"
    have v: "valid x" "list_all valid (c # cs)" using snoc.prems by simp_all
    note IH = snoc.IH [OF v(2)]
    have vr: "valid ?r" using IH v(2) by (auto simp: list_all_iff)
    show ?case
    proof (cases "better x ?r")
      case True
      have "\<not> better y x" if "y \<in> set (c # cs)" for y
      proof
        assume "better y x"
        moreover have "valid y" using that v(2) by (auto simp: list_all_iff)
        ultimately have "better y ?r \<or> better ?r x" using neg_trans [of y ?r x] vr v(1) by blast
        then show False using IH that asym [OF v(1) vr True] by blast
      qed
      then show ?thesis using True irrefl [OF v(1)] by auto
    qed (use IH in auto)
  qed
  then show "r \<in> set (c # cs)" and "\<forall>x\<in>set (c # cs). \<not> better x r" by blast+
qed

end

definition info_ok :: "chain_info \<Rightarrow> bool" where
  "info_ok i \<longleftrightarrow> length (total_work i) = 4"

lemma is_better_key:
  assumes "info_ok a" and "info_ok b"
  shows "is_better a b \<longleftrightarrow> limbs_val (total_work b) < limbs_val (total_work a)
    \<or> limbs_val (total_work a) = limbs_val (total_work b) \<and> (tip_timestamp a < tip_timestamp b
        \<or> tip_timestamp a = tip_timestamp b \<and> tip_hash a < tip_hash b)"
  using assms by (auto simp: is_better_def info_ok_def u256_gt_val)

interpretation fork_choice: preference is_better info_ok
proof unfold_locales
  fix a b c assume ok: "info_ok a" "info_ok b" "info_ok c" and "is_better a c"
  then show "is_better a b \<or> is_better b c"
    unfolding is_better_key [OF ok(1,3)] is_better_key [OF ok(1,2)] is_better_key [OF ok(2,3)] by auto
qed (auto simp: is_better_key)

lemma select_best_correct:
  assumes "list_all info_ok infos" and "select_best infos = Some r"
  shows "r \<in> set infos" and "\<forall>x\<in>set infos. \<not> is_better x r"
proof -
  from assms(2) obtain c cs where infos: "infos = c # cs"
    and r: "r = foldl (\<lambda>best x. if is_better x best then x else best) c cs"
    by (auto simp: select_best_def split: list.splits)
  note best = fork_choice.pass_best [OF assms(1) [unfolded infos]]
  show "r \<in> set infos" and "\<forall>x\<in>set infos. \<not> is_better x r" unfolding r infos by (rule best)+
qed

lemma chain_info_extend:
  assumes "chain \<noteq> []" and a: "chain_info_of X chain = Inr (Some i)" and b: "chain_info_of X (chain @ ext) = Inr (Some j)"
    and "ext \<noteq> []" and pos: "\<forall>b\<in>set ext. 0 < target_work X (blk_target b)"
    and fit: "(\<Sum>b\<leftarrow>chain @ ext. target_work X (blk_target b)) < 2 ^ 256"
  shows "is_better j i"
proof -
  from a assms(1) obtain w where w: "cumulative_work X chain = Inr w" "total_work i = w"
    by (auto simp: chain_info_of_def Let_def)
  from b assms(1) obtain w' where w': "cumulative_work X (chain @ ext) = Inr w'" "total_work j = w'"
    by (auto simp: chain_info_of_def Let_def)
  have "0 < (\<Sum>b\<leftarrow>ext. target_work X (blk_target b))" using assms(4) pos by (cases ext) auto
  then have "limbs_val w < limbs_val w'"
    using fit unfolding cumulative_work_val(2) [OF w(1)] cumulative_work_val(2) [OF w'(1)] by simp
  then show ?thesis
    using cumulative_work_val(1) [OF w(1)] cumulative_work_val(1) [OF w'(1)] w(2) w'(2)
    by (simp add: is_better_key info_ok_def)
qed

end
