(* ===== verification/Sc_Instance.thy ===== *)
theory Sc_Instance
  imports Sc_Undo Sc_Stateless Sc_Consensus "HOL-Library.Code_Target_Nat"
begin

text \<open>
  A concrete instance of the third-party functions and of the executor, for which every law the
  development relies on holds. It shows that the hypotheses of the properties can be met, and it is
  what their examples evaluate.
\<close>

section \<open>Third-party functions\<close>

definition demo_hash :: "bytes \<Rightarrow> bytes" where
  "demo_hash b = (if b = [] then EMPTY_HASH else take 32 (rev b @ replicate 32 1))"

definition hex_digit :: "nat \<Rightarrow> char" where
  "hex_digit n = (if n < 10 then char_of (48 + n) else char_of (87 + n))"

definition hex_value :: "char \<Rightarrow> nat option" where
  "hex_value c =
     (let n = of_char c
      in if 48 \<le> n \<and> n < 58 then Some (n - 48) else if 97 \<le> n \<and> n < 103 then Some (n - 87) else None)"

fun demo_hex_encode :: "bytes \<Rightarrow> string" where
  "demo_hex_encode [] = []"
| "demo_hex_encode (b # bs) = hex_digit (unat b div 16) # hex_digit (unat b mod 16) # demo_hex_encode bs"

fun demo_hex_decode :: "string \<Rightarrow> bytes option" where
  "demo_hex_decode [] = Some []"
| "demo_hex_decode [_] = None"
| "demo_hex_decode (c # d # s) =
     (case (hex_value c, hex_value d, demo_hex_decode s) of
        (Some x, Some y, Some bs) \<Rightarrow> Some (of_nat (16 * x + y) # bs)
      | _ \<Rightarrow> None)"

definition demo_ext :: ext where
  "demo_ext = \<lparr>
     blake3 = demo_hash,
     hex_encode = demo_hex_encode,
     hex_decode = demo_hex_decode,
     hrp_parse = (\<lambda>hrp. hrp \<noteq> []),
     bech32m_encode = (\<lambda>hrp data. if CHR ''1'' \<in> set hrp then None else Some (hrp @ ''1'' @ demo_hex_encode data)),
     bech32_decode = (\<lambda>s. map_option (Pair (takeWhile (\<lambda>c. c \<noteq> CHR ''1'') s))
       (demo_hex_decode (drop 1 (dropWhile (\<lambda>c. c \<noteq> CHR ''1'') s)))),
     pk_from_slice = (\<lambda>b. if length b = 33 then Inr b else Inl ''malformed public key''),
     recover_ecdsa = (\<lambda>d sig r. if r < 4 then Some (take 33 sig) else None) \<rparr>"

lemma demo_ext_simps [simp]:
  "blake3 demo_ext = demo_hash" "hex_encode demo_ext = demo_hex_encode" "hex_decode demo_ext = demo_hex_decode"
  by (simp_all add: demo_ext_def)

lemma demo_hash32: "hash32 demo_ext"
  by (auto simp: hash32_def demo_hash_def EMPTY_HASH_def)

lemma hex_value_digit: "n < 16 \<Longrightarrow> hex_value (hex_digit n) = Some n"
  by (auto simp: hex_value_def hex_digit_def Let_def)

lemma demo_hex_ok: "hex_ok demo_ext"
proof -
  have "demo_hex_decode (demo_hex_encode bs) = Some bs" for bs
  proof (induction bs)
    case (Cons b bs)
    have "unat b div 16 < 16" using unat_bound [of b] by simp
    with Cons show ?case by (simp add: hex_value_digit)
  qed simp
  then show ?thesis by (simp add: hex_ok_def)
qed

lemma demo_bech32_ok: "bech32_ok demo_ext"
  using demo_hex_ok
  by (auto simp: bech32_ok_def demo_ext_def hex_ok_def takeWhile_append dropWhile_append split: if_splits)

lemma demo_pk_slice_len: "pk_slice_len demo_ext"
  by (simp add: pk_slice_len_def demo_ext_def)

lemma demo_empty_hash: "blake3 demo_ext [] = EMPTY_HASH"
  by (simp add: demo_hash_def)

section \<open>An executor\<close>

text \<open>Every call succeeds, moves the value it carries and emits no writes; a constructor succeeds.\<close>

definition demo_result :: "value_transfer list \<Rightarrow> execution_result" where
  "demo_result ts = \<lparr> res_gas_used = 21, res_logs = [], res_status = TxSuccess, res_return_data = [],
     res_storage_overlay = [], res_value_transfers = ts \<rparr>"

definition demo_vm :: "unit vm_executor" where
  "demo_vm = \<lparr>
     vm_execute = (\<lambda>_ ctx. Inr (demo_result
       (if ctx_value ctx > 0
        then [\<lparr> vt_from = ctx_caller ctx, vt_to = ctx_callee ctx, vt_amount = ctx_value ctx \<rparr>] else []))),
     vm_execute_constructor = (\<lambda>_ _. Inr (demo_result [])),
     vm_register_code = (\<lambda>v _ _. Inr v) \<rparr>"

lemma demo_vm_ok: "vm_ok demo_vm"
  by (simp add: vm_ok_def demo_vm_def demo_result_def result_ok_def)

section \<open>A state and a block\<close>

definition alice :: string where "alice = ''rsc1aa''"
definition bob :: string where "bob = ''rsc1bb''"
definition vault :: string where "vault = ''rsc1cc''"

definition demo_state :: state where
  "demo_state = state_new\<lparr>balances := fmap_of_list
     [(alice, account_eoa 200 0), (bob, account_eoa 5 7),
      (vault, Contract \<lparr> code_hash = replicate 32 9, storage_root = zero32, con_nonce = 1, con_balance = 0 \<rparr>)]\<rparr>"

text \<open>A coinbase, a transfer, a deployment with an endowment, a call with value to a contract and one
  to an account without code.\<close>

definition demo_txs :: "transaction list" where
  "demo_txs =
     [tx_coinbase alice bob 0 CHAIN_ID_REGTEST,
      tx_transfer alice bob 50 1 CHAIN_ID_REGTEST,
      tx_create alice [1, 2, 3] [] 10 2 CHAIN_ID_REGTEST,
      tx_call alice vault [] 7 30 3 CHAIN_ID_REGTEST,
      tx_call alice bob [] 8 30 4 CHAIN_ID_REGTEST]"

definition demo_block :: block where
  "demo_block = \<lparr> blk_index = 1, blk_timestamp = 60, blk_transactions = demo_txs, blk_previous_hash = [],
     blk_hash = [], blk_nonce = 0, blk_target = [], blk_consensus_version = 1, blk_state_root = zero32,
     blk_tx_root = zero32, blk_receipts_root = zero32 \<rparr>"

lemma demo_state_wf: "wf_state X demo_state"
proof -
  have lk: "fmlookup (balances demo_state) a =
      (if a = alice then Some (account_eoa 200 0) else if a = bob then Some (account_eoa 5 7)
       else if a = vault then Some (Contract \<lparr> code_hash = replicate 32 9, storage_root = zero32, con_nonce = 1, con_balance = 0 \<rparr>)
       else None)" for a
    by (simp add: demo_state_def fmlookup_of_list)
  have "st_storage demo_state = fmempty" by (simp add: demo_state_def state_new_def)
  then show ?thesis
    by (auto simp: wf_state_def wf_storage_def clean_def fmpred_iff pinned_def contract_view_def stored_root_def lk
        account_eoa_def zero32_def split: if_splits)
qed

text \<open>The run of the block, evaluated once for the examples that use it.\<close>

lemma demo_reversible: "block_reversible demo_ext demo_vm demo_state demo_block CHAIN_ID_REGTEST (Some ())"
  by code_simp

lemma demo_apply_ok: "is_ok (apply_block_inner demo_ext demo_vm demo_state demo_block CHAIN_ID_REGTEST (Some ()))"
  by code_simp

lemma demo_code_hashes: "list_all (code_hashes_ok demo_ext) (blk_transactions demo_block)"
  by code_simp

lemma demo_height: "blk_index demo_block \<noteq> 0"
  by (simp add: demo_block_def)

section \<open>A block of transfers\<close>

definition demo_pays :: block where
  "demo_pays = demo_block\<lparr>blk_transactions :=
     [tx_coinbase alice bob 0 CHAIN_ID_REGTEST, tx_transfer alice bob 50 1 CHAIN_ID_REGTEST]\<rparr>"

definition demo_paid :: state where
  "demo_paid = (case apply_block demo_ext demo_state demo_pays CHAIN_ID_REGTEST of Inr t \<Rightarrow> t | Inl _ \<Rightarrow> state_new)"

text \<open>The same block with the root of the state it leads to.\<close>

definition demo_commit :: block where
  "demo_commit = demo_pays\<lparr>blk_state_root := compute_root demo_ext (balances demo_paid)\<rparr>"

lemma demo_pays_ok: "apply_block demo_ext demo_state demo_pays CHAIN_ID_REGTEST = Inr demo_paid"
proof -
  have "is_ok (apply_block demo_ext demo_state demo_pays CHAIN_ID_REGTEST)" by code_simp
  then show ?thesis by (auto simp: demo_paid_def is_ok_iff)
qed

lemma demo_commit_ok: "apply_block demo_ext demo_state demo_commit CHAIN_ID_REGTEST = Inr demo_paid"
  unfolding demo_commit_def apply_block_commitment by (rule demo_pays_ok)

lemma demo_commit_root: "blk_state_root demo_commit = compute_root demo_ext (balances demo_paid)"
  by (simp add: demo_commit_def)

lemma demo_commit_height: "blk_index demo_commit \<noteq> 0"
  by (simp add: demo_commit_def demo_pays_def demo_block_def)

lemma demo_commit_touched: "collect_touched_addresses demo_commit = collect_touched_addresses demo_pays"
  by (simp add: demo_commit_def collect_touched_addresses_def)

lemma demo_clean: "clean demo_state"
  using demo_state_wf [of demo_ext] by (simp add: wf_state_def)

lemma demo_accounts_ok: "fmpred (\<lambda>_. acc_ok) (balances demo_state)"
  by code_simp

lemma demo_coins: "coins demo_state * 6 < 2 ^ 64"
  by code_simp

lemma demo_addresses: "collision_free demo_ext (map as_bytes (collect_touched_addresses demo_pays @ addresses (balances demo_state)))"
  by code_simp

lemma demo_tail: "calculate_tail_reward (total_supply demo_state) \<le> halving_schedule (blk_index demo_commit)"
proof -
  have "calculate_tail_reward (total_supply demo_state) \<le> halving_schedule (blk_index demo_pays)" by code_simp
  then show ?thesis by (simp add: demo_commit_def)
qed

lemma demo_alice: "collision_free demo_ext (map as_bytes (alice # addresses (balances demo_state)))"
  by code_simp

lemma demo_witness:
  obtains w where "verify_block_stateless demo_ext (compute_root demo_ext (balances demo_state)) demo_commit CHAIN_ID_REGTEST w = Inr ()"
    and "canonical_witness w"
proof -
  have cf: "collision_free demo_ext (map as_bytes (collect_touched_addresses demo_commit @ addresses (balances demo_state)))"
    using demo_addresses by (simp only: demo_commit_touched)
  obtain w where w: "build_witness demo_ext demo_state demo_commit = Inr w" "canonical_witness w"
    by (rule build_witness_honest [OF demo_hash32 demo_clean demo_accounts_ok cf]) (rule that)
  moreover have "verify_block_stateless demo_ext (compute_root demo_ext (balances demo_state)) demo_commit CHAIN_ID_REGTEST w = Inr ()"
    using build_witness_complete [OF demo_hash32 demo_clean demo_accounts_ok demo_coins demo_tail demo_commit_height
        demo_commit_ok demo_commit_root cf] w(1) by simp
  ultimately show thesis using that by blast
qed

section \<open>A first block and a genesis block\<close>

definition demo_mined :: block where
  "demo_mined = demo_block\<lparr>blk_transactions := [tx_coinbase alice bob 5000000000 CHAIN_ID_MAINNET]\<rparr>"

lemma demo_mined_ok: "is_ok (apply_blocks demo_ext NoVm CHAIN_ID_MAINNET state_new [(demo_mined, None)])"
  by code_simp

lemma demo_mined_height: "blk_index demo_mined = 1"
  by (simp add: demo_mined_def demo_block_def)

definition demo_genesis :: block where
  "demo_genesis = demo_block\<lparr>blk_index := 0, blk_transactions := [tx_coinbase alice bob 100 CHAIN_ID_REGTEST]\<rparr>"

lemma demo_genesis_ok: "is_ok (apply_block_inner demo_ext NoVm demo_state demo_genesis CHAIN_ID_REGTEST None)"
  by code_simp

lemma demo_genesis_height: "blk_index demo_genesis = 0"
  by (simp add: demo_genesis_def)

section \<open>Values on the wire\<close>

lemma demo_wire_txs: "list_all wire_tx demo_txs"
  by code_simp

definition demo_base :: block_header where
  "demo_base = (header demo_block)\<lparr>hdr_previous_hash := demo_hex_encode (replicate 32 1),
     hdr_target := demo_hex_encode (replicate 32 1)\<rparr>"

definition demo_header :: block_header where
  "demo_header = demo_base\<lparr>hdr_hash := (case header_hash demo_ext demo_base of Inr hs \<Rightarrow> demo_hex_encode hs | Inl _ \<Rightarrow> [])\<rparr>"

definition demo_wire :: block where
  "demo_wire = from_header demo_header demo_txs"

lemma demo_header_hash:
  obtains hs where "header_hash demo_ext demo_header = Inr hs" and "hdr_hash demo_header = demo_hex_encode hs"
proof -
  have same: "header_hash X (h\<lparr>hdr_hash := x\<rparr>) = header_hash X h" for X h x
    by (simp add: header_hash_def serialize_header_def cong: option.case_cong if_cong)
  have "is_ok (header_hash demo_ext demo_base)" by code_simp
  then obtain hs where "header_hash demo_ext demo_base = Inr hs" by (auto simp: is_ok_iff)
  then show thesis using that by (simp add: demo_header_def same)
qed

lemma demo_header_wire: "wire_header demo_ext demo_header"
proof -
  have c: "hex_canonical32 demo_ext (demo_hex_encode (replicate 32 1))" by code_simp
  obtain hs where "header_hash demo_ext demo_header = Inr hs" "hdr_hash demo_header = demo_hex_encode hs"
    by (rule demo_header_hash)
  then show ?thesis
    using c by (simp add: wire_header_def) (simp add: demo_header_def demo_base_def header_def demo_block_def)
qed

lemma demo_header_bytes: "\<exists>bs. serialize_header demo_ext demo_header = Inr bs"
proof -
  obtain hs where "header_hash demo_ext demo_header = Inr hs" by (rule demo_header_hash)
  then show ?thesis unfolding header_hash_def by (auto simp: bind_res_Inr_iff)
qed

lemma demo_wire_ok: "wire_block demo_ext demo_wire" "is_ok (serialize_block demo_ext demo_wire)"
proof -
  have "list_all (\<lambda>tx. wire_tx tx \<and> length (serialize_transaction_signed tx) < 2 ^ 32) demo_txs" by code_simp
  moreover have "length demo_txs < 2 ^ 32" by (simp add: demo_txs_def)
  moreover have "header demo_wire = demo_header" "blk_transactions demo_wire = demo_txs"
    by (simp_all add: demo_wire_def) (simp add: from_header_def)
  ultimately show "wire_block demo_ext demo_wire" using demo_header_wire by (simp add: wire_block_def)
  show "is_ok (serialize_block demo_ext demo_wire)"
    using demo_header_bytes
    by (auto simp: is_ok_iff serialize_block_def serialize_block_header_def demo_wire_def bind_res_Inr_iff)
qed

definition demo_signed :: transaction where
  "demo_signed = Transfer \<lparr> t_from = alice, t_to = bob, t_amount = 1, t_fee = 0, t_nonce = 1, t_chain_id = CHAIN_ID_REGTEST,
     t_signature = replicate 65 2, t_is_coinbase = False \<rparr>"

section \<open>Chains\<close>

definition demo_work :: block where
  "demo_work = demo_block\<lparr>blk_target := demo_hex_encode (replicate 4 0 @ replicate 28 1)\<rparr>"

lemma demo_work_target: "target_array demo_ext (blk_target demo_work) = Inr (replicate 4 0 @ replicate 28 1)"
  by code_simp

text \<open>A full period at the maximal target that took exactly the expected time.\<close>

definition demo_max :: block where
  "demo_max = demo_block\<lparr>blk_target := demo_hex_encode (replicate 32 255)\<rparr>"

definition demo_slow :: "block list" where
  "demo_slow = demo_max\<lparr>blk_timestamp := 0\<rparr> # replicate 2014 demo_max @ [demo_max\<lparr>blk_timestamp := 1209000\<rparr>]"

lemma demo_slow_target: "target_array demo_ext (blk_target (last demo_slow)) = Inr (replicate 32 255)"
proof -
  have "target_array demo_ext (blk_target demo_max) = Inr (replicate 32 255)" by code_simp
  then show ?thesis by (simp add: demo_slow_def)
qed

lemma demo_slow_time: "retarget_time demo_slow = 1209000"
  by (simp add: retarget_time_def demo_slow_def)

definition demo_late :: block where
  "demo_late = demo_block\<lparr>blk_timestamp := 90\<rparr>"

definition demo_infos :: "chain_info list" where
  "demo_infos =
     [\<lparr> tip_height = 5, tip_hash = ''aa'', total_work = [5, 0, 0, 0], tip_timestamp = 9 \<rparr>,
      \<lparr> tip_height = 4, tip_hash = ''cc'', total_work = [7, 0, 0, 0], tip_timestamp = 8 \<rparr>,
      \<lparr> tip_height = 4, tip_hash = ''bb'', total_work = [7, 0, 0, 0], tip_timestamp = 8 \<rparr>]"

end
