(* ===== verification/Sc_AbiCodec.thy ===== *)
theory Sc_AbiCodec
  imports Sc_Types Sc_U256
begin

unbundle bit_operations_syntax

text \<open>
  The argument codec of \<open>crates/strangecoin-core/src/abi/\<close> (\<open>encode.rs\<close>, \<open>decode.rs\<close>,
  \<open>selector.rs\<close>): values, the head and tail encoding, its decoder and the method selectors, with the
  proof that the two are inverse to each other. Byte counts are natural numbers where the code adds
  lengths of vectors, and are reduced modulo the word size where it adds sizes of types.
\<close>

section \<open>Values\<close>

datatype abi_value =
    VUint bytes
  | VInt bytes
  | VBool bool
  | VAddress bytes
  | VBytes bytes
  | VString string
  | VArray "abi_value list"
  | VFixedArray "abi_value list"
  | VTuple "abi_value list"

definition uint_u64 :: "u64 \<Rightarrow> abi_value" where
  "uint_u64 v = VUint (copy_from_slice 24 (to_be_bytes64 v) zero32)"

definition int_i64 :: "u64 \<Rightarrow> abi_value" where
  "int_i64 v = VInt (copy_from_slice 24 (to_be_bytes64 v) (if sint v < 0 then replicate 32 0xff else zero32))"

fun value_kind :: "abi_value \<Rightarrow> string" where
  "value_kind (VUint _) = ''uint''"
| "value_kind (VInt _) = ''int''"
| "value_kind (VBool _) = ''bool''"
| "value_kind (VAddress _) = ''address''"
| "value_kind (VBytes _) = ''bytes''"
| "value_kind (VString _) = ''string''"
| "value_kind (VArray _) = ''array''"
| "value_kind (VFixedArray _) = ''fixed_array''"
| "value_kind (VTuple _) = ''tuple''"

section \<open>Encoding\<close>

text \<open>The length of the head of a tuple, a \<open>usize\<close>.\<close>

definition head_part :: "abi_type \<Rightarrow> nat" where
  "head_part t = (if is_dynamic t then 4 else case static_size t of Some n \<Rightarrow> n | None \<Rightarrow> 0)"

definition head_length :: "abi_type list \<Rightarrow> nat" where
  "head_length ts = foldl (\<lambda>head_len t. (head_len + head_part t) mod 2 ^ 64) 0 ts"

definition check_uint_range :: "bytes \<Rightarrow> u16 \<Rightarrow> abi_error + unit" where
  "check_uint_range v bits =
     bind_res (validate_bits bits) (\<lambda>_.
       if list_ex (\<lambda>b. b \<noteq> 0) (take (32 - unat bits div 8) v)
       then Inl (InvalidValue (''uint'' @ show_nat (unat bits) @ '' value has non-zero high bytes''))
       else Inr ())"

definition check_int_range :: "bytes \<Rightarrow> u16 \<Rightarrow> abi_error + unit" where
  "check_int_range v bits =
     bind_res (validate_bits bits) (\<lambda>_.
       let keep = unat bits div 8;
           fill = (if v ! (32 - keep) AND 0x80 \<noteq> 0 then 0xff else 0)
       in if list_ex (\<lambda>b. b \<noteq> fill) (take (32 - keep) v)
          then Inl (InvalidValue (''int'' @ show_nat (unat bits) @ '' value is not sign-extended''))
          else Inr ())"

definition type_mismatch :: "abi_type \<Rightarrow> abi_value \<Rightarrow> abi_error" where
  "type_mismatch t v = TypeMismatch (canonical_name t) (value_kind v)"

definition array_length_error :: "nat \<Rightarrow> nat \<Rightarrow> abi_error" where
  "array_length_error len got = InvalidValue (''fixed array length '' @ show_nat len @ '', got '' @ show_nat got)"

text \<open>A length field: four bytes, or an error when the length does not fit.\<close>

definition length_field :: "nat \<Rightarrow> string \<Rightarrow> abi_error + bytes" where
  "length_field n reason = (if n < 2 ^ 32 then Inr (to_be_bytes32 (of_nat n)) else Inl (InvalidValue reason))"

function encode_tuple :: "abi_type list \<Rightarrow> abi_value list \<Rightarrow> abi_error + bytes"
  and encode_elems :: "nat \<Rightarrow> abi_type list \<Rightarrow> abi_value list \<Rightarrow> bytes \<Rightarrow> bytes \<Rightarrow> abi_error + (bytes \<times> bytes)"
  and encode_static :: "abi_type \<Rightarrow> abi_value \<Rightarrow> abi_error + bytes"
  and encode_dynamic_body :: "abi_type \<Rightarrow> abi_value \<Rightarrow> bytes \<Rightarrow> abi_error + bytes" where
  "encode_tuple ts vs =
     (if length ts \<noteq> length vs then Inl (ArityMismatch (length ts) (length vs))
      else bind_res (encode_elems (head_length ts) ts vs [] []) (\<lambda>(head, tail). Inr (head @ tail)))"
| "encode_elems head_len ts vs head tail =
     (case (ts, vs) of
        (t # ts, v # vs) \<Rightarrow>
          if is_dynamic t then
            if head_len + length tail < 2 ^ 32
            then bind_res (encode_dynamic_body t v tail) (\<lambda>tail'.
                   encode_elems head_len ts vs (head @ to_be_bytes32 (of_nat (head_len + length tail))) tail')
            else Inl (InvalidOffset (-1) (head_len + length tail))
          else bind_res (encode_static t v) (\<lambda>bs. encode_elems head_len ts vs (head @ bs) tail)
      | _ \<Rightarrow> Inr (head, tail))"
| "encode_static t v =
     (case (t, v) of
        (AUint bits, VUint w) \<Rightarrow> bind_res (check_uint_range w bits) (\<lambda>_. Inr w)
      | (AInt bits, VInt w) \<Rightarrow> bind_res (check_int_range w bits) (\<lambda>_. Inr w)
      | (ABool, VBool b) \<Rightarrow> Inr (if b then (replicate 32 0)[31 := 1] else replicate 32 0)
      | (AAddress, VAddress a) \<Rightarrow> Inr a
      | (AFixedArray elem len, VFixedArray vals) \<Rightarrow>
          if length vals \<noteq> len then Inl (array_length_error len (length vals))
          else encode_tuple (replicate len elem) vals
      | (ATuple elems, VTuple vals) \<Rightarrow> encode_tuple elems vals
      | _ \<Rightarrow> Inl (type_mismatch t v))"
| "encode_dynamic_body t v out =
     (case (t, v) of
        (ABytes, VBytes b) \<Rightarrow>
          bind_res (length_field (length b) ''bytes longer than u32::MAX'') (\<lambda>len. Inr (out @ len @ b))
      | (AString, VString s) \<Rightarrow>
          bind_res (length_field (length (as_bytes s)) ''string longer than u32::MAX'') (\<lambda>len.
            Inr (out @ len @ as_bytes s))
      | (AArray elem, VArray vals) \<Rightarrow>
          bind_res (length_field (length vals) ''array longer than u32::MAX elements'') (\<lambda>count.
          bind_res (encode_tuple (replicate (length vals) elem) vals) (\<lambda>body. Inr (out @ count @ body)))
      | (AFixedArray elem len, VFixedArray vals) \<Rightarrow>
          if length vals \<noteq> len then Inl (array_length_error len (length vals))
          else bind_res (encode_tuple (replicate len elem) vals) (\<lambda>body. Inr (out @ body))
      | (ATuple elems, VTuple vals) \<Rightarrow> bind_res (encode_tuple elems vals) (\<lambda>body. Inr (out @ body))
      | _ \<Rightarrow> Inl (type_mismatch t v))"
  by pat_completeness auto
termination
  by (relation "measure (\<lambda>x. case x of
        Inl (Inl (ts, vs)) \<Rightarrow> 2 * size_list size vs + 1
      | Inl (Inr (n, ts, vs, h, t)) \<Rightarrow> 2 * size_list size vs
      | Inr (Inl (t, v)) \<Rightarrow> 2 * size v
      | Inr (Inr (t, v, out)) \<Rightarrow> 2 * size v)") simp_all

definition encode_args :: "abi_param list \<Rightarrow> abi_value list \<Rightarrow> abi_error + bytes" where
  "encode_args params vs =
     (if length params \<noteq> length vs then Inl (ArityMismatch (length params) (length vs))
      else encode_tuple (map param_type params) vs)"

section \<open>Decoding\<close>

definition read_word :: "bytes \<Rightarrow> abi_error + bytes" where
  "read_word data = (if 32 \<le> length data then Inr (take 32 data) else Inl (UnexpectedEnd (length data)))"

definition read_u32 :: "bytes \<Rightarrow> nat \<Rightarrow> abi_error + u32" where
  "read_u32 data at =
     (if at + 4 \<le> length data then Inr (from_be_bytes32 (take 4 (drop at data)))
      else Inl (UnexpectedEnd (length data)))"

text \<open>A length-prefixed byte string; returns the content and the position after it.\<close>

definition read_prefixed :: "bytes \<Rightarrow> abi_error + (bytes \<times> nat)" where
  "read_prefixed data =
     bind_res (read_u32 data 0) (\<lambda>len.
       let fin = 4 + unat len
       in if fin > length data then Inl (UnexpectedEnd (length data))
          else Inr (take (unat len) (drop 4 data), fin))"

text \<open>The recursion goes down in the type, where an array repeats its element type.\<close>

fun height :: "abi_type \<Rightarrow> nat" where
  "height (AArray elem) = Suc (height elem)"
| "height (AFixedArray elem _) = Suc (height elem)"
| "height (ATuple elems) = Suc (foldr max (map height elems) 0)"
| "height _ = 0"

abbreviation heights :: "abi_type list \<Rightarrow> nat" where
  "heights ts \<equiv> foldr max (map height ts) 0"

lemma heights_replicate: "heights (replicate n t) \<le> height t"
  by (induction n) simp_all

function (sequential) decode_tuple :: "abi_type list \<Rightarrow> bytes \<Rightarrow> abi_error + (abi_value list \<times> nat)"
  and decode_elems :: "abi_type list \<Rightarrow> bytes \<Rightarrow> nat \<Rightarrow> nat \<Rightarrow> abi_error + (abi_value list \<times> nat)"
  and decode_static :: "abi_type \<Rightarrow> bytes \<Rightarrow> abi_error + (abi_value \<times> nat)"
  and decode_dynamic_body :: "abi_type \<Rightarrow> bytes \<Rightarrow> abi_error + (abi_value \<times> nat)" where
  "decode_tuple ts data =
     (if length data < head_length ts then Inl (UnexpectedEnd (length data))
      else decode_elems ts data 0 (head_length ts))"
| "decode_elems [] data head_pos tail_pos = Inr ([], tail_pos)"
| "decode_elems (t # ts) data head_pos tail_pos =
     (if is_dynamic t then
        bind_res (read_u32 data head_pos) (\<lambda>offset.
          if unat offset \<noteq> tail_pos then Inl (NonCanonicalOffset (of_nat tail_pos) offset)
          else if tail_pos > length data then Inl (AbiPanic ''slice'')
          else bind_res (decode_dynamic_body t (drop tail_pos data)) (\<lambda>(v, consumed).
               bind_res (decode_elems ts data (head_pos + 4) (tail_pos + consumed)) (\<lambda>(vs, fin). Inr (v # vs, fin))))
      else
        let size = (case static_size t of Some n \<Rightarrow> n | None \<Rightarrow> 0)
        in if head_pos + size > length data then Inl (AbiPanic ''slice'')
           else bind_res (decode_static t (take size (drop head_pos data))) (\<lambda>(v, _).
                bind_res (decode_elems ts data (head_pos + size) tail_pos) (\<lambda>(vs, fin). Inr (v # vs, fin))))"
| "decode_static (AUint bits) data =
     bind_res (read_word data) (\<lambda>raw. bind_res (check_uint_range raw bits) (\<lambda>_. Inr (VUint raw, 32)))"
| "decode_static (AInt bits) data =
     bind_res (read_word data) (\<lambda>raw. bind_res (check_int_range raw bits) (\<lambda>_.
       let keep = unat bits div 8;
           fill = (if raw ! (32 - keep) AND 0x80 \<noteq> 0 then 0xff else 0);
           raw = (if keep < 32 then copy_from_slice 0 (replicate (32 - keep) fill) raw else raw)
       in Inr (VInt raw, 32)))"
| "decode_static ABool data =
     bind_res (read_word data) (\<lambda>w.
       if list_ex (\<lambda>b. b \<noteq> 0) (take 31 w) \<or> w ! 31 > 1 then Inl (InvalidValue ''bool word is not 0 or 1'')
       else Inr (VBool (w ! 31 = 1), 32))"
| "decode_static AAddress data = bind_res (read_word data) (\<lambda>w. Inr (VAddress w, 32))"
| "decode_static (AFixedArray elem len) data =
     bind_res (decode_tuple (replicate len elem) data) (\<lambda>(vs, consumed). Inr (VFixedArray vs, consumed))"
| "decode_static (ATuple elems) data =
     bind_res (decode_tuple elems data) (\<lambda>(vs, consumed). Inr (VTuple vs, consumed))"
| "decode_static t data = Inl (TypeMismatch (canonical_name t) ''static'')"
| "decode_dynamic_body ABytes data = bind_res (read_prefixed data) (\<lambda>(b, fin). Inr (VBytes b, fin))"
| "decode_dynamic_body AString data =
     bind_res (read_prefixed data) (\<lambda>(b, fin). bind_res (ok_or (from_utf8 b) InvalidUtf8) (\<lambda>s. Inr (VString s, fin)))"
| "decode_dynamic_body (AArray elem) data =
     bind_res (read_u32 data 0) (\<lambda>count.
       if unat count > length data then Inl (UnexpectedEnd (length data))
       else bind_res (decode_tuple (replicate (unat count) elem) (drop 4 data)) (\<lambda>(vs, consumed).
            Inr (VArray vs, 4 + consumed)))"
| "decode_dynamic_body (AFixedArray elem len) data =
     bind_res (decode_tuple (replicate len elem) data) (\<lambda>(vs, consumed). Inr (VFixedArray vs, consumed))"
| "decode_dynamic_body (ATuple elems) data =
     bind_res (decode_tuple elems data) (\<lambda>(vs, consumed). Inr (VTuple vs, consumed))"
| "decode_dynamic_body t data = Inl (TypeMismatch (canonical_name t) ''dynamic'')"
  by pat_completeness auto
termination
proof (relation "measures [
      \<lambda>x. case x of
        Inl (Inl (ts, _)) \<Rightarrow> 2 * heights ts + 1
      | Inl (Inr (ts, _, _, _)) \<Rightarrow> 2 * heights ts + 1
      | Inr (Inl (t, _)) \<Rightarrow> 2 * height t
      | Inr (Inr (t, _)) \<Rightarrow> 2 * height t,
      \<lambda>x. case x of
        Inl (Inl (ts, _)) \<Rightarrow> Suc (length ts)
      | Inl (Inr (ts, _, _, _)) \<Rightarrow> length ts
      | _ \<Rightarrow> 0]", goal_cases)
  case 1
  show ?case by simp
qed (use heights_replicate in \<open>auto simp: max_def less_Suc_eq_le\<close>)

definition decode_args :: "abi_param list \<Rightarrow> bytes \<Rightarrow> abi_error + abi_value list" where
  "decode_args params data =
     bind_res (decode_tuple (map param_type params) data) (\<lambda>(vs, consumed).
       if consumed \<noteq> length data then Inl (TrailingData consumed (length data - consumed)) else Inr vs)"

section \<open>Selectors\<close>

definition method_signature :: "string \<Rightarrow> abi_param list \<Rightarrow> string" where
  "method_signature name params = name @ ''('' @ join '','' (map (\<lambda>p. canonical_name (param_type p)) params) @ '')''"

definition method_selector :: "ext \<Rightarrow> string \<Rightarrow> abi_param list \<Rightarrow> bytes" where
  "method_selector X name params = take 4 (blake3 X (as_bytes (method_signature name params)))"

definition types_selector :: "ext \<Rightarrow> abi_type list \<Rightarrow> bytes" where
  "types_selector X ts = take 4 (blake3 X (as_bytes (join '','' (map canonical_name ts))))"

section \<open>Documents\<close>

definition ABI_FORMAT_VERSION :: string where
  "ABI_FORMAT_VERSION = ''json-v1''"

definition ABI_FORMAT_VERSION_WIT_V2 :: string where
  "ABI_FORMAT_VERSION_WIT_V2 = ''wit-v2''"

record abi_entry =
  entry_name :: string
  entry_selector :: bytes
  non_reentrant :: bool

definition selector_from_name :: "ext \<Rightarrow> string \<Rightarrow> bytes" where
  "selector_from_name X name = method_selector X name []"

record contract_abi =
  abi_format_version :: string
  entries :: "abi_entry list"

definition contract_abi_new :: "abi_entry list \<Rightarrow> contract_abi" where
  "contract_abi_new es = \<lparr>abi_format_version = ABI_FORMAT_VERSION, entries = es\<rparr>"

definition entry_by_selector :: "contract_abi \<Rightarrow> bytes \<Rightarrow> abi_entry option" where
  "entry_by_selector abi sel = find (\<lambda>e. entry_selector e = sel) (entries abi)"

record abi_event_param =
  event_param_name :: string
  event_param_type :: abi_type
  indexed :: bool

datatype state_mutability = Pure | View | Nonpayable | Payable

record abi_function =
  fn_name :: string
  fn_inputs :: "abi_param list"
  fn_outputs :: "abi_param list"
  fn_mutability :: state_mutability

definition abi_function_selector :: "ext \<Rightarrow> abi_function \<Rightarrow> bytes" where
  "abi_function_selector X f = method_selector X (fn_name f) (fn_inputs f)"

record abi_event =
  event_name :: string
  event_inputs :: "abi_event_param list"

record abi_error_decl =
  error_name :: string
  error_inputs :: "abi_param list"

record abi_document =
  format_version :: string
  doc_name :: string
  doc_functions :: "abi_function list"
  doc_events :: "abi_event list"
  doc_errors :: "abi_error_decl list"

definition abi_document_new :: "string \<Rightarrow> abi_function list \<Rightarrow> abi_document" where
  "abi_document_new name fs =
     \<lparr>format_version = ABI_FORMAT_VERSION, doc_name = name, doc_functions = fs, doc_events = [], doc_errors = []\<rparr>"

definition check_format_version :: "abi_document \<Rightarrow> abi_error + unit" where
  "check_format_version doc =
     (if format_version doc = ABI_FORMAT_VERSION then Inr ()
      else if format_version doc = ABI_FORMAT_VERSION_WIT_V2 then Inl (NotImplementedVersion (format_version doc))
      else Inl (UnknownFormatVersion (format_version doc)))"

definition function_by_name :: "abi_document \<Rightarrow> string \<Rightarrow> abi_function option" where
  "function_by_name doc name = find (\<lambda>f. fn_name f = name) (doc_functions doc)"

definition function_by_selector :: "ext \<Rightarrow> abi_document \<Rightarrow> bytes \<Rightarrow> abi_function option" where
  "function_by_selector X doc sel = find (\<lambda>f. abi_function_selector X f = sel) (doc_functions doc)"

text \<open>A signature is the name before the first parenthesis and the canonical name of a tuple.\<close>

abbreviation input_types :: "abi_function \<Rightarrow> abi_type list" where
  "input_types f \<equiv> map param_type (fn_inputs f)"

definition plain_name :: "string \<Rightarrow> bool" where
  "plain_name s \<longleftrightarrow> CHR ''('' \<notin> set s"

lemma method_signature_tuple: "method_signature name params = name @ canonical_name (ATuple (map param_type params))"
  by (simp add: method_signature_def comp_def)

lemma canonical_name_inject: "wf_abi t \<Longrightarrow> wf_abi u \<Longrightarrow> canonical_name t = canonical_name u \<Longrightarrow> t = u"
  using abi_parse_canonical_name by (metis Inr_inject)

lemma append_paren_inject:
  assumes "c \<notin> set xs" and "c \<notin> set ys" and "xs @ c # as = ys @ c # bs"
  shows "xs = ys \<and> as = bs"
  using assms
proof (induction xs arbitrary: ys)
  case Nil
  then show ?case by (cases ys) auto
next
  case (Cons x xs)
  then show ?case by (cases ys) auto
qed

lemma method_signature_inject:
  assumes "plain_name n" and "plain_name m" and "list_all (\<lambda>p. wf_abi (param_type p)) ps" and "list_all (\<lambda>p. wf_abi (param_type p)) qs"
    and "method_signature n ps = method_signature m qs"
  shows "n = m \<and> map param_type ps = map param_type qs"
proof -
  have paren: "\<exists>r. canonical_name (ATuple ts) = CHR ''('' # r" for ts by simp
  from paren [of "map param_type ps"] paren [of "map param_type qs"] obtain a b
    where ab: "canonical_name (ATuple (map param_type ps)) = CHR ''('' # a" "canonical_name (ATuple (map param_type qs)) = CHR ''('' # b"
    by blast
  then have "n = m \<and> a = b"
    using append_paren_inject [of "CHR ''(''" n m a b] assms(1,2,5) by (simp add: method_signature_tuple plain_name_def)
  moreover have "wf_abi (ATuple (map param_type ps))" "wf_abi (ATuple (map param_type qs))"
    using assms(3,4) by (simp_all add: list_all_iff)
  ultimately show ?thesis using ab canonical_name_inject by (metis abi_type.inject(5))
qed

text \<open>Two functions with one selector: the first four bytes of two different preimages agree.\<close>

definition selectors_clash :: "ext \<Rightarrow> string \<Rightarrow> string \<Rightarrow> bool" where
  "selectors_clash X s t \<longleftrightarrow> s \<noteq> t \<and> take 4 (blake3 X (as_bytes s)) = take 4 (blake3 X (as_bytes t))"

lemma find_unique:
  assumes "x \<in> set xs" and "\<And>y. y \<in> set xs \<Longrightarrow> P y \<longleftrightarrow> y = x"
  shows "find P xs = Some x"
  using assms by (induction xs) auto

lemma dispatch:
  assumes "f \<in> set (doc_functions doc)" and "\<And>g. g \<in> set (doc_functions doc) \<Longrightarrow> plain_name (fn_name g) \<and> list_all wf_abi (input_types g)"
    and "\<And>g. g \<in> set (doc_functions doc) \<Longrightarrow> fn_name g = fn_name f \<Longrightarrow> input_types g = input_types f \<Longrightarrow> g = f"
  shows "function_by_selector X doc (abi_function_selector X f) = Some f
    \<or> (\<exists>g \<in> set (doc_functions doc). selectors_clash X (method_signature (fn_name g) (fn_inputs g)) (method_signature (fn_name f) (fn_inputs f)))"
proof (rule disjCI)
  assume nc: "\<not> (\<exists>g \<in> set (doc_functions doc). selectors_clash X (method_signature (fn_name g) (fn_inputs g)) (method_signature (fn_name f) (fn_inputs f)))"
  have "abi_function_selector X g = abi_function_selector X f \<longleftrightarrow> g = f" if g: "g \<in> set (doc_functions doc)" for g
  proof
    assume "abi_function_selector X g = abi_function_selector X f"
    with nc g have "method_signature (fn_name g) (fn_inputs g) = method_signature (fn_name f) (fn_inputs f)"
      by (auto simp: selectors_clash_def abi_function_selector_def method_selector_def)
    with assms(2) [OF g] assms(2) [OF assms(1)] have "fn_name g = fn_name f \<and> input_types g = input_types f"
      by (intro method_signature_inject) (auto simp: list_all_iff)
    with assms(3) [OF g] show "g = f" by blast
  qed simp
  then show "function_by_selector X doc (abi_function_selector X f) = Some f"
    unfolding function_by_selector_def by (rule find_unique [OF assms(1)])
qed

declare encode_tuple.simps [simp del] encode_elems.simps [simp del] encode_static.simps [simp del]
  encode_dynamic_body.simps [simp del] decode_tuple.simps [simp del]

section \<open>Sizes\<close>

fun exact_size :: "abi_type \<Rightarrow> nat" where
  "exact_size (AUint _) = 32"
| "exact_size (AInt _) = 32"
| "exact_size ABool = 32"
| "exact_size AAddress = 32"
| "exact_size (AFixedArray elem len) = exact_size elem * len"
| "exact_size (ATuple elems) = sum_list (map exact_size elems)"
| "exact_size _ = 0"

definition head_size :: "abi_type \<Rightarrow> nat" where
  "head_size t = (if is_dynamic t then 4 else exact_size t)"

abbreviation head_sizes :: "abi_type list \<Rightarrow> nat" where
  "head_sizes ts \<equiv> sum_list (map head_size ts)"

lemma static_size_fold:
  assumes "\<And>t. t \<in> set ts \<Longrightarrow> static_size t = Some (exact_size t mod 2 ^ 64)"
  shows "foldl (\<lambda>acc s. Option.bind acc (\<lambda>total. map_option (\<lambda>n. (total + n) mod 2 ^ 64) s)) (Some (k mod 2 ^ 64)) (map static_size ts)
    = Some ((k + sum_list (map exact_size ts)) mod 2 ^ 64)"
  using assms
proof (induction ts arbitrary: k)
  case (Cons t ts)
  have "(k mod 2 ^ 64 + exact_size t mod 2 ^ 64) mod 2 ^ 64 = (k + exact_size t) mod 2 ^ 64" by (simp only: mod_add_eq)
  with Cons.IH [of "k + exact_size t"] Cons.prems show ?case by (simp add: add.assoc)
qed simp

lemma static_size_exact: "\<not> is_dynamic t \<Longrightarrow> static_size t = Some (exact_size t mod 2 ^ 64)"
proof (induction t)
  case (ATuple ts)
  then have "static_size t = Some (exact_size t mod 2 ^ 64)" if "t \<in> set ts" for t using that by (simp add: list_ex_iff)
  from static_size_fold [of ts 0, OF this] show ?case by simp
next
  case (AFixedArray t n)
  then show ?case by (simp add: mod_mult_left_eq)
qed simp_all

lemma head_part_exact: "head_part t = head_size t mod 2 ^ 64"
  by (simp add: head_part_def head_size_def static_size_exact)

lemma head_length_sum: "head_length ts = head_sizes ts mod 2 ^ 64"
proof -
  have "foldl (\<lambda>n t. (n + head_part t) mod 2 ^ 64) (k mod 2 ^ 64) ts = (k + head_sizes ts) mod 2 ^ 64" for k
  proof (induction ts arbitrary: k)
    case (Cons t ts)
    have "(k mod 2 ^ 64 + head_part t) mod 2 ^ 64 = (k + head_size t) mod 2 ^ 64"
      unfolding head_part_exact by (simp only: mod_add_eq)
    with Cons.IH [of "k + head_size t"] show ?case by (simp add: add.assoc)
  qed simp
  from this [of 0] show ?thesis by (simp add: head_length_def)
qed

text \<open>A tuple of static types has no tail, and its size is the size of its head.\<close>

lemma head_sizes_static: "\<not> list_ex is_dynamic ts \<Longrightarrow> head_sizes ts = sum_list (map exact_size ts)"
  by (induction ts) (simp_all add: head_size_def)

lemma head_sizes_replicate: "head_sizes (replicate n t) = head_size t * n"
  by (simp add: sum_list_replicate mult.commute)

section \<open>What is encoded\<close>

fun value_ok :: "abi_value \<Rightarrow> bool" where
  "value_ok (VUint w) \<longleftrightarrow> length w = 32"
| "value_ok (VInt w) \<longleftrightarrow> length w = 32"
| "value_ok (VAddress w) \<longleftrightarrow> length w = 32"
| "value_ok (VString s) \<longleftrightarrow> valid_utf8 (as_bytes s)"
| "value_ok (VArray vs) \<longleftrightarrow> list_all value_ok vs"
| "value_ok (VFixedArray vs) \<longleftrightarrow> list_all value_ok vs"
| "value_ok (VTuple vs) \<longleftrightarrow> list_all value_ok vs"
| "value_ok _ \<longleftrightarrow> True"

text \<open>The elements of an array take space.\<close>

fun solid :: "abi_type \<Rightarrow> bool" where
  "solid (AArray elem) \<longleftrightarrow> 0 < head_size elem \<and> solid elem"
| "solid (AFixedArray elem _) \<longleftrightarrow> solid elem"
| "solid (ATuple elems) \<longleftrightarrow> list_all solid elems"
| "solid _ \<longleftrightarrow> True"

lemma length_field_Inr: "length_field n reason = Inr bs \<longleftrightarrow> n < 2 ^ 32 \<and> bs = to_be_bytes32 (of_nat n)"
  by (auto simp: length_field_def)

lemma unat_of_nat32: "n < 2 ^ 32 \<Longrightarrow> unat (of_nat n :: u32) = n"
  by (simp add: unat_of_nat)

lemma read_u32_at: "read_u32 (xs @ to_be_bytes32 w @ ys) (length xs) = Inr w"
  by (simp add: read_u32_def)

lemma read_u32_0: "read_u32 (to_be_bytes32 w @ ys) 0 = Inr w"
  using read_u32_at [of "[]"] by simp

lemma validate_bits_Inr: "validate_bits bits = Inr u \<longleftrightarrow> 8 \<le> unat bits \<and> unat bits \<le> 256 \<and> unat bits mod 8 = 0"
proof -
  have "bits mod 8 = 0 \<longleftrightarrow> unat bits mod 8 = 0" by (simp add: unat_mod unat_eq_0 [symmetric] del: unat_eq_0)
  then show ?thesis by (auto simp: validate_bits_def word_le_nat_alt)
qed

text \<open>A word in range is not changed by the sign extension.\<close>

lemma sign_extension:
  assumes "length w = 32" and "check_int_range w bits = Inr u" and "keep = unat bits div 8"
  shows "copy_from_slice 0 (replicate (32 - keep) (if w ! (32 - keep) AND 0x80 \<noteq> 0 then 0xff else 0)) w = w"
proof -
  let ?fill = "if w ! (32 - keep) AND 0x80 \<noteq> 0 then 0xff else (0 :: u8)"
  have "list_all (\<lambda>b. b = ?fill) (take (32 - keep) w)"
    using assms(2,3) by (auto simp: check_int_range_def Let_def list_ex_iff list_all_iff split: if_splits)
  then have "take (32 - keep) w = replicate (32 - keep) ?fill"
    by (intro replicate_eqI) (use assms(1) in \<open>auto simp: list_all_iff\<close>)
  then show ?thesis by (metis append_take_drop_id copy_from_slice_def add.left_neutral append_Nil length_replicate take0)
qed

section \<open>Decoding what was encoded\<close>

definition static_trip :: "abi_value \<Rightarrow> abi_type \<Rightarrow> bool" where
  "static_trip v t \<longleftrightarrow> (\<forall>bs. encode_static t v = Inr bs \<longrightarrow> length bs = exact_size t
     \<and> (length bs < 2 ^ 64 \<longrightarrow> decode_static t bs = Inr (v, length bs)))"

definition dynamic_trip :: "abi_value \<Rightarrow> abi_type \<Rightarrow> bool" where
  "dynamic_trip v t \<longleftrightarrow> (\<forall>out out'. encode_dynamic_body t v out = Inr out' \<longrightarrow> (\<exists>body. out' = out @ body
     \<and> (\<forall>rest. length (body @ rest) < 2 ^ 64 \<longrightarrow> decode_dynamic_body t (body @ rest) = Inr (v, length body))))"

definition trips :: "abi_value \<Rightarrow> bool" where
  "trips v \<longleftrightarrow> (\<forall>t. solid t \<longrightarrow> (if is_dynamic t then dynamic_trip v t else static_trip v t))"

lemma tripsD:
  "trips v \<Longrightarrow> solid t \<Longrightarrow> is_dynamic t \<Longrightarrow> dynamic_trip v t"
  "trips v \<Longrightarrow> solid t \<Longrightarrow> \<not> is_dynamic t \<Longrightarrow> static_trip v t"
  unfolding trips_def by presburger+

lemma dynamic_tripD:
  "dynamic_trip v t \<Longrightarrow> encode_dynamic_body t v out = Inr out' \<Longrightarrow> \<exists>body. out' = out @ body
     \<and> (\<forall>rest. length (body @ rest) < 2 ^ 64 \<longrightarrow> decode_dynamic_body t (body @ rest) = Inr (v, length body))"
  unfolding dynamic_trip_def by blast

lemma static_tripD:
  "static_trip v t \<Longrightarrow> encode_static t v = Inr bs \<Longrightarrow> length bs = exact_size t
     \<and> (length bs < 2 ^ 64 \<longrightarrow> decode_static t bs = Inr (v, length bs))"
  unfolding static_trip_def by blast

text \<open>The elements of a tuple, from any point of its head and tail; \<open>rest\<close> is whatever follows.\<close>

lemma elems_trip:
  assumes "length ts = length vs" and "list_all solid ts" and "list_all trips vs"
    and "encode_elems hl ts vs h tb = Inr (h', tb')"
  shows "\<exists>x y. h' = h @ x \<and> tb' = tb @ y \<and> length x = head_sizes ts \<and> (\<not> list_ex is_dynamic ts \<longrightarrow> y = [])
    \<and> (\<forall>rest. hl = length h' \<longrightarrow> length (h' @ tb' @ rest) < 2 ^ 64 \<longrightarrow>
         decode_elems ts (h' @ tb' @ rest) (length h) (hl + length tb) = Inr (vs, hl + length tb'))"
  using assms
proof (induction ts vs arbitrary: h tb rule: list_induct2)
  case Nil
  then show ?case by (simp add: encode_elems.simps)
next
  case (Cons t ts v vs)
  have rest: "list_all solid ts" "list_all trips vs" using Cons.prems(1,2) by simp_all
  show ?case
  proof (cases "is_dynamic t")
    case True
    let ?off = "to_be_bytes32 (of_nat (hl + length tb))"
    from Cons.prems(3) True obtain tb1 where fits: "hl + length tb < 2 ^ 32" and e: "encode_dynamic_body t v tb = Inr tb1"
      and r: "encode_elems hl ts vs (h @ ?off) tb1 = Inr (h', tb')"
      by (auto simp: encode_elems.simps [of hl "t # ts"] split: if_splits)
    obtain body where body: "tb1 = tb @ body"
      "\<And>rest. length (body @ rest) < 2 ^ 64 \<Longrightarrow> decode_dynamic_body t (body @ rest) = Inr (v, length body)"
      using dynamic_tripD [OF _ e] tripsD(1) [of v t] Cons.prems(1,2) True by auto
    obtain x y where xy: "h' = (h @ ?off) @ x" "tb' = tb1 @ y" "length x = head_sizes ts"
      "\<And>rest. hl = length h' \<Longrightarrow> length (h' @ tb' @ rest) < 2 ^ 64 \<Longrightarrow>
         decode_elems ts (h' @ tb' @ rest) (length (h @ ?off)) (hl + length tb1) = Inr (vs, hl + length tb')"
      using Cons.IH [OF rest r] by blast
    have "decode_elems (t # ts) (h' @ tb' @ rest) (length h) (hl + length tb) = Inr (v # vs, hl + length tb')"
      if hl: "hl = length h'" and len: "length (h' @ tb' @ rest) < 2 ^ 64" for rest
    proof -
      have off: "read_u32 (h' @ tb' @ rest) (length h) = Inr (of_nat (hl + length tb))"
        using read_u32_at [of h "of_nat (hl + length tb)" "x @ tb' @ rest"] by (simp add: xy(1))
      have "drop (hl + length tb) (h' @ tb' @ rest) = body @ y @ rest"
        by (simp add: hl xy(2) body(1))
      moreover have "length (body @ y @ rest) < 2 ^ 64" using len by (simp add: xy(2) body(1))
      ultimately have "decode_dynamic_body t (drop (hl + length tb) (h' @ tb' @ rest)) = Inr (v, length body)"
        using body(2) by simp
      then show ?thesis
        using True off unat_of_nat32 [OF fits] xy(4) [OF hl len] hl by (simp add: body(1) xy(2) add.assoc)
    qed
    moreover have "h' = h @ ?off @ x \<and> tb' = tb @ body @ y \<and> length (?off @ x) = head_sizes (t # ts) \<and> list_ex is_dynamic (t # ts)"
      using xy(1-3) body(1) True by (simp add: head_size_def)
    ultimately show ?thesis by blast
  next
    case False
    from Cons.prems(3) False obtain bs where e: "encode_static t v = Inr bs"
      and r: "encode_elems hl ts vs (h @ bs) tb = Inr (h', tb')"
      by (auto simp: encode_elems.simps [of hl "t # ts"])
    have bs: "length bs = exact_size t" "length bs < 2 ^ 64 \<Longrightarrow> decode_static t bs = Inr (v, length bs)"
      using static_tripD [OF _ e] tripsD(2) [of v t] Cons.prems(1,2) False by auto
    obtain x y where xy: "h' = (h @ bs) @ x" "tb' = tb @ y" "length x = head_sizes ts" "\<not> list_ex is_dynamic ts \<longrightarrow> y = []"
      "\<And>rest. hl = length h' \<Longrightarrow> length (h' @ tb' @ rest) < 2 ^ 64 \<Longrightarrow>
         decode_elems ts (h' @ tb' @ rest) (length (h @ bs)) (hl + length tb) = Inr (vs, hl + length tb')"
      using Cons.IH [OF rest r] by blast
    have "decode_elems (t # ts) (h' @ tb' @ rest) (length h) (hl + length tb) = Inr (v # vs, hl + length tb')"
      if hl: "hl = length h'" and len: "length (h' @ tb' @ rest) < 2 ^ 64" for rest
    proof -
      have small: "length bs < 2 ^ 64" using len by (simp add: xy(1))
      then have "static_size t = Some (length bs)" using static_size_exact [OF False] bs(1) by simp
      then show ?thesis
        using False bs(2) [OF small] xy(5) [OF hl len] len by (simp add: Let_def) (simp add: xy(1))
    qed
    moreover have "h' = h @ bs @ x \<and> length (bs @ x) = head_sizes (t # ts) \<and> (\<not> list_ex is_dynamic (t # ts) \<longrightarrow> y = [])"
      using xy(1,3,4) bs(1) False by (simp add: head_size_def)
    ultimately show ?thesis using xy(2) by blast
  qed
qed

lemma tuple_trip:
  assumes "list_all solid ts" and "list_all trips vs" and "encode_tuple ts vs = Inr bs"
  shows "head_sizes ts \<le> length bs" and "length ts = length vs"
    and "\<not> list_ex is_dynamic ts \<Longrightarrow> length bs = head_sizes ts"
    and "length (bs @ rest) < 2 ^ 64 \<Longrightarrow> decode_tuple ts (bs @ rest) = Inr (vs, length bs)"
proof -
  from assms(3) show len: "length ts = length vs" by (simp add: encode_tuple.simps split: if_splits)
  with assms(3) obtain h tb where e: "encode_elems (head_length ts) ts vs [] [] = Inr (h, tb)" "bs = h @ tb"
    by (auto simp: encode_tuple.simps)
  from elems_trip [OF len assms(1,2) e(1)] have h: "length h = head_sizes ts" "\<not> list_ex is_dynamic ts \<Longrightarrow> tb = []"
    and d: "\<And>rest. head_length ts = length h \<Longrightarrow> length (h @ tb @ rest) < 2 ^ 64 \<Longrightarrow>
      decode_elems ts (h @ tb @ rest) 0 (head_length ts) = Inr (vs, head_length ts + length tb)" by auto
  show "head_sizes ts \<le> length bs" "\<not> list_ex is_dynamic ts \<Longrightarrow> length bs = head_sizes ts" using h e(2) by auto
  assume small: "length (bs @ rest) < 2 ^ 64"
  then have "head_length ts = length h" using h(1) e(2) by (simp add: head_length_sum)
  with d [of rest] small show "decode_tuple ts (bs @ rest) = Inr (vs, length bs)"
    by (simp add: decode_tuple.simps e(2))
qed

lemma tuple_static_trip:
  assumes "list_all solid ts" and "list_all trips vs" and "encode_tuple ts vs = Inr bs" and "\<not> list_ex is_dynamic ts"
  shows "length bs = sum_list (map exact_size ts)" and "length bs < 2 ^ 64 \<Longrightarrow> decode_tuple ts bs = Inr (vs, length bs)"
  using tuple_trip(3) [OF assms(1-3)] tuple_trip(4) [OF assms(1-3), of "[]"] assms(4) by (simp_all add: head_sizes_static)

lemma scalar_trips:
  "length w = 32 \<Longrightarrow> trips (VUint w)"
  "length w = 32 \<Longrightarrow> trips (VInt w)"
  "length w = 32 \<Longrightarrow> trips (VAddress w)"
  "trips (VBool b)"
proof -
  have uint: "static_trip (VUint w) t" if "length w = 32" for w t
    using that by (cases t) (auto simp: static_trip_def encode_static.simps read_word_def)
  have int: "static_trip (VInt w) t" if w: "length w = 32" for w t
  proof (cases t)
    case (AInt bits)
    then show ?thesis
      using w sign_extension [OF w _ refl, of bits "()"]
      by (auto simp: static_trip_def encode_static.simps read_word_def Let_def split: if_splits)
  qed (auto simp: static_trip_def encode_static.simps)
  have addr: "static_trip (VAddress w) t" if "length w = 32" for w t
    using that by (cases t) (auto simp: static_trip_def encode_static.simps read_word_def)
  have bool: "static_trip (VBool b) t" for b t
    by (cases t) (auto simp: static_trip_def encode_static.simps read_word_def list_ex_iff)
  have dyn: "dynamic_trip (VUint w) t" "dynamic_trip (VInt w) t" "dynamic_trip (VAddress w) t" "dynamic_trip (VBool b) t" for t
    by (cases t; simp add: dynamic_trip_def encode_dynamic_body.simps)+
  show "trips (VUint w)" if "length w = 32" using uint [OF that] dyn by (simp add: trips_def)
  show "trips (VInt w)" if "length w = 32" using int [OF that] dyn by (simp add: trips_def)
  show "trips (VAddress w)" if "length w = 32" using addr [OF that] dyn by (simp add: trips_def)
  show "trips (VBool b)" using bool dyn by (simp add: trips_def)
qed

lemma read_prefixed_encoded:
  "length b < 2 ^ 32 \<Longrightarrow> read_prefixed (to_be_bytes32 (of_nat (length b)) @ b @ rest) = Inr (b, 4 + length b)"
  by (simp add: read_prefixed_def read_u32_0 unat_of_nat32 Let_def)

lemma blob_trips: "trips (VBytes b)" "valid_utf8 (as_bytes s) \<Longrightarrow> trips (VString s)"
proof -
  have "dynamic_trip (VBytes b) t" for t
    using read_prefixed_encoded [of b]
    by (cases t) (auto simp: dynamic_trip_def encode_dynamic_body.simps length_field_Inr)
  moreover have "static_trip (VBytes b) t" for t by (cases t) (auto simp: static_trip_def encode_static.simps)
  ultimately show "trips (VBytes b)" by (simp add: trips_def)
  assume utf8: "valid_utf8 (as_bytes s)"
  have "dynamic_trip (VString s) t" for t
    using read_prefixed_encoded [of "as_bytes s"] from_utf8_as_bytes [OF utf8]
    by (cases t) (auto simp: dynamic_trip_def encode_dynamic_body.simps length_field_Inr)
  moreover have "static_trip (VString s) t" for t by (cases t) (auto simp: static_trip_def encode_static.simps)
  ultimately show "trips (VString s)" by (simp add: trips_def)
qed

lemma array_trips:
  assumes vs: "list_all trips vs"
  shows "trips (VArray vs)"
proof -
  have "dynamic_trip (VArray vs) t" if "solid t" for t
  proof (cases t)
    case (AArray e)
    let ?ts = "replicate (length vs) e" and ?n = "to_be_bytes32 (of_nat (length vs) :: u32)"
    have solid: "list_all solid ?ts" and pos: "0 < head_size e" using that AArray by (simp_all add: list_all_iff)
    show ?thesis
      unfolding dynamic_trip_def
    proof (intro allI impI)
      fix out out' assume "encode_dynamic_body t (VArray vs) out = Inr out'"
      then obtain body where n: "length vs < 2 ^ 32" and b: "encode_tuple ?ts vs = Inr body" "out' = out @ ?n @ body"
        by (auto simp: AArray encode_dynamic_body.simps length_field_Inr)
      have "length vs \<le> length body"
      proof -
        have "length vs \<le> head_size e * length vs" using pos by simp
        also have "\<dots> \<le> length body" using tuple_trip(1) [OF solid vs b(1)] by (simp only: head_sizes_replicate)
        finally show ?thesis .
      qed
      then have "decode_dynamic_body t (?n @ body @ rest) = Inr (VArray vs, 4 + length body)"
        if "length (?n @ body @ rest) < 2 ^ 64" for rest
        using tuple_trip(4) [OF solid vs b(1), of rest] that
        by (simp add: AArray read_u32_0 unat_of_nat32 [OF n])
      then show "\<exists>body. out' = out @ body \<and> (\<forall>rest. length (body @ rest) < 2 ^ 64 \<longrightarrow>
          decode_dynamic_body t (body @ rest) = Inr (VArray vs, length body))"
        by (intro exI [of _ "?n @ body"]) (simp add: b(2))
    qed
  qed (auto simp: dynamic_trip_def encode_dynamic_body.simps)
  moreover have "static_trip (VArray vs) t" for t by (cases t) (auto simp: static_trip_def encode_static.simps)
  ultimately show ?thesis by (simp add: trips_def)
qed

lemma product_trip:
  assumes vs: "list_all trips vs" and ts: "list_all solid ts" and e: "encode_tuple ts vs = Inr body"
    and enc: "\<And>out out'. encode_dynamic_body t v out = Inr out' \<Longrightarrow> out' = out @ body"
    and dec: "\<And>data. decode_tuple ts data = Inr (vs, length body) \<Longrightarrow> decode_dynamic_body t data = Inr (v, length body)"
  shows "dynamic_trip v t"
  unfolding dynamic_trip_def
proof (intro allI impI)
  fix out out' assume "encode_dynamic_body t v out = Inr out'"
  then have "out' = out @ body" by (rule enc)
  then show "\<exists>body. out' = out @ body \<and> (\<forall>rest. length (body @ rest) < 2 ^ 64 \<longrightarrow>
      decode_dynamic_body t (body @ rest) = Inr (v, length body))"
    using tuple_trip(4) [OF ts vs e] dec by blast
qed

lemma fixed_array_trips:
  assumes vs: "list_all trips vs"
  shows "trips (VFixedArray vs)"
proof -
  have rep: "list_all solid (replicate n e)" if "solid e" for n e using that by (simp add: list_all_iff)
  have "dynamic_trip (VFixedArray vs) t" if "solid t" for t
  proof (cases t)
    case (AFixedArray e n)
    with that have e: "list_all solid (replicate n e)" by (simp add: rep)
    show ?thesis
    proof (cases "length vs = n \<and> is_ok (encode_tuple (replicate n e) vs)")
      case True
      then obtain body where b: "encode_tuple (replicate n e) vs = Inr body" by (auto simp: is_ok_iff)
      then show ?thesis
        by (rule product_trip [OF vs e]) (use AFixedArray b in \<open>auto simp: encode_dynamic_body.simps split: if_splits\<close>)
    next
      case False
      then show ?thesis using AFixedArray by (auto simp: dynamic_trip_def encode_dynamic_body.simps is_ok_iff)
    qed
  qed (auto simp: dynamic_trip_def encode_dynamic_body.simps)
  moreover have "static_trip (VFixedArray vs) t" if "solid t" "\<not> is_dynamic t" for t
  proof (cases t)
    case (AFixedArray e n)
    with that have e: "list_all solid (replicate n e)" "\<not> list_ex is_dynamic (replicate n e)"
      by (simp_all add: rep list_ex_iff)
    then show ?thesis
      using tuple_static_trip [OF e(1) vs _ e(2)] AFixedArray
      by (simp add: static_trip_def encode_static.simps sum_list_replicate mult.commute)
  qed (auto simp: static_trip_def encode_static.simps)
  ultimately show ?thesis by (simp add: trips_def)
qed

lemma tuple_trips:
  assumes vs: "list_all trips vs"
  shows "trips (VTuple vs)"
proof -
  have "dynamic_trip (VTuple vs) t" if "solid t" for t
  proof (cases t)
    case (ATuple ts)
    with that have ts: "list_all solid ts" by simp
    show ?thesis
    proof (cases "encode_tuple ts vs")
      case (Inr body)
      then show ?thesis
        by (rule product_trip [OF vs ts]) (use ATuple Inr in \<open>auto simp: encode_dynamic_body.simps\<close>)
    next
      case Inl
      then show ?thesis using ATuple by (auto simp: dynamic_trip_def encode_dynamic_body.simps)
    qed
  qed (auto simp: dynamic_trip_def encode_dynamic_body.simps)
  moreover have "static_trip (VTuple vs) t" if "solid t" "\<not> is_dynamic t" for t
  proof (cases t)
    case (ATuple ts)
    with that have ts: "list_all solid ts" "\<not> list_ex is_dynamic ts" by simp_all
    then show ?thesis
      using tuple_static_trip [OF ts(1) vs _ ts(2)] ATuple by (simp add: static_trip_def encode_static.simps)
  qed (auto simp: static_trip_def encode_static.simps)
  ultimately show ?thesis by (simp add: trips_def)
qed

lemma value_trips: "value_ok v \<Longrightarrow> trips v"
  by (induction v) (auto simp: list_all_iff intro: scalar_trips blob_trips array_trips fixed_array_trips tuple_trips)

lemma decode_encode_args:
  assumes "list_all value_ok vs" and "list_all (\<lambda>p. solid (param_type p)) params"
    and "encode_args params vs = Inr bs" and "length bs < 2 ^ 64"
  shows "decode_args params bs = Inr vs"
proof -
  have "list_all trips vs" using assms(1) value_trips by (auto simp: list_all_iff)
  moreover have "list_all solid (map param_type params)" using assms(2) by (simp add: list_all_iff)
  moreover have "encode_tuple (map param_type params) vs = Inr bs" using assms(3) by (simp add: encode_args_def split: if_splits)
  ultimately have "decode_tuple (map param_type params) bs = Inr (vs, length bs)"
    using tuple_trip(4) [of "map param_type params" vs bs "[]"] assms(4) by simp
  then show ?thesis by (simp add: decode_args_def)
qed

section \<open>Encoding what was decoded\<close>

definition static_back :: "abi_type \<Rightarrow> bool" where
  "static_back t \<longleftrightarrow> (\<forall>data v c. static_size t = Some (length data) \<longrightarrow> decode_static t data = Inr (v, c) \<longrightarrow>
     length data = exact_size t \<and> encode_static t v = Inr data \<and> value_ok v)"

definition dynamic_back :: "abi_type \<Rightarrow> bool" where
  "dynamic_back t \<longleftrightarrow> (\<forall>data v c. length data < 2 ^ 64 \<longrightarrow> decode_dynamic_body t data = Inr (v, c) \<longrightarrow>
     c \<le> length data \<and> value_ok v \<and> (\<forall>out. encode_dynamic_body t v out = Inr (out @ take c data)))"

definition backs :: "abi_type \<Rightarrow> bool" where
  "backs t \<longleftrightarrow> (if is_dynamic t then dynamic_back t else static_back t)"

lemma dynamic_backD:
  assumes "dynamic_back t" and "length data < 2 ^ 64" and "decode_dynamic_body t data = Inr (v, c)"
  shows "c \<le> length data" and "value_ok v" and "encode_dynamic_body t v out = Inr (out @ take c data)"
  using assms unfolding dynamic_back_def by blast+

lemma static_backD:
  assumes "static_back t" and "static_size t = Some (length data)" and "decode_static t data = Inr (v, c)"
  shows "length data = exact_size t" and "encode_static t v = Inr data" and "value_ok v"
  using assms unfolding static_back_def by blast+

lemma read_u32_Inr:
  assumes "read_u32 data at = Inr w"
  shows "at + 4 \<le> length data" and "to_be_bytes32 w = take 4 (drop at data)"
  using assms by (auto simp: read_u32_def to_from_be_bytes32 split: if_splits)

lemma take_join: "take n (drop k xs) @ take m (drop (k + n) xs) = take (n + m) (drop k xs)"
  by (simp add: take_add [of n m] add.commute [of k n])

lemma elems_back:
  assumes "list_all backs ts" and "decode_elems ts data hp tp = Inr (vs, fin)"
    and "hp \<le> length data" and "tp \<le> length data" and "length data < 2 ^ 64"
  shows "length ts = length vs \<and> list_all value_ok vs \<and> tp \<le> fin \<and> fin \<le> length data
    \<and> hp + head_sizes ts \<le> length data \<and> (\<not> list_ex is_dynamic ts \<longrightarrow> fin = tp)
    \<and> (\<forall>h tb hl. hl + length tb = tp \<longrightarrow> encode_elems hl ts vs h tb
         = Inr (h @ take (head_sizes ts) (drop hp data), tb @ take (fin - tp) (drop tp data)))"
  using assms(1-4)
proof (induction ts arbitrary: hp tp vs)
  case Nil
  then show ?case by (simp add: encode_elems.simps)
next
  case (Cons t ts)
  have backs: "backs t" "list_all backs ts" using Cons.prems(1) by simp_all
  show ?case
  proof (cases "is_dynamic t")
    case True
    from Cons.prems(2) True obtain off v c vs' where off: "read_u32 data hp = Inr off" "unat off = tp"
      and v: "decode_dynamic_body t (drop tp data) = Inr (v, c)"
      and r: "decode_elems ts data (hp + 4) (tp + c) = Inr (vs', fin)" and vs: "vs = v # vs'"
      by (auto split: if_splits)
    note off' = read_u32_Inr [OF off(1)]
    have "length (drop tp data) < 2 ^ 64" using assms(5) by simp
    note b = dynamic_backD [OF _ this v]
    have dyn: "dynamic_back t" using backs(1) True by (simp add: backs_def)
    have c: "tp + c \<le> length data" using b(1) [OF dyn] Cons.prems(4) by simp
    note IH = Cons.IH [OF backs(2) r off'(1) c]
    have bytes: "to_be_bytes32 (of_nat tp) = take 4 (drop hp data)" and "tp < 2 ^ 32"
      using off'(2) off(2) unat_bound [of off] by auto
    then have "encode_elems hl (t # ts) vs h tb
        = Inr (h @ take (head_sizes (t # ts)) (drop hp data), tb @ take (fin - tp) (drop tp data))"
      if hl: "hl + length tb = tp" for h tb hl
    proof -
      let ?tb = "tb @ take c (drop tp data)"
      have "hl + length ?tb = tp + c" using hl c by simp
      with IH have "encode_elems hl ts vs' (h @ take 4 (drop hp data)) ?tb
          = Inr ((h @ take 4 (drop hp data)) @ take (head_sizes ts) (drop (hp + 4) data),
                 ?tb @ take (fin - (tp + c)) (drop (tp + c) data))" by blast
      moreover have "take 4 (drop hp data) @ take (head_sizes ts) (drop (hp + 4) data) = take (4 + head_sizes ts) (drop hp data)"
        by (rule take_join)
      moreover have "take c (drop tp data) @ take (fin - (tp + c)) (drop (tp + c) data) = take (fin - tp) (drop tp data)"
        using take_join [of c tp data "fin - (tp + c)"] IH by simp
      ultimately show ?thesis
        using True b(3) [OF dyn, of tb] hl \<open>tp < 2 ^ 32\<close> bytes
        by (simp add: encode_elems.simps [of hl "t # ts"] vs head_size_def)
    qed
    moreover have "head_size t = 4" using True by (simp add: head_size_def)
    ultimately show ?thesis using IH b(2) [OF dyn] True vs by simp
  next
    case False
    obtain n where n: "static_size t = Some n" using static_size_exact [OF False] by blast
    let ?slice = "take n (drop hp data)"
    from Cons.prems(2) False n obtain v c vs' where fits: "hp + n \<le> length data" and v: "decode_static t ?slice = Inr (v, c)"
      and r: "decode_elems ts data (hp + n) tp = Inr (vs', fin)" and vs: "vs = v # vs'"
      by (auto simp: Let_def split: if_splits)
    have len: "length ?slice = n" using fits by simp
    have "static_back t" using backs(1) False by (simp add: backs_def)
    note b = static_backD [OF this _ v]
    have size: "head_size t = n" using b(1) n len False by (simp add: head_size_def)
    note IH = Cons.IH [OF backs(2) r fits Cons.prems(4)]
    have "encode_elems hl (t # ts) vs h tb
        = Inr (h @ take (head_sizes (t # ts)) (drop hp data), tb @ take (fin - tp) (drop tp data))"
      if hl: "hl + length tb = tp" for h tb hl
    proof -
      have "encode_elems hl ts vs' (h @ ?slice) tb
          = Inr ((h @ ?slice) @ take (head_sizes ts) (drop (hp + n) data), tb @ take (fin - tp) (drop tp data))"
        using IH hl by blast
      then show ?thesis
        using False b(2) n len take_join [of n hp data "head_sizes ts"]
        by (simp add: encode_elems.simps [of hl "t # ts"] vs size)
    qed
    then show ?thesis using IH b(3) n len False vs size by simp
  qed
qed

lemma tuple_back:
  assumes "list_all backs ts" and "decode_tuple ts data = Inr (vs, c)" and "length data < 2 ^ 64"
  shows "c \<le> length data" and "list_all value_ok vs" and "length ts = length vs" and "encode_tuple ts vs = Inr (take c data)"
    and "\<not> list_ex is_dynamic ts \<Longrightarrow> c = head_sizes ts"
proof -
  let ?hl = "head_length ts"
  from assms(2) have hl: "?hl \<le> length data" and d: "decode_elems ts data 0 ?hl = Inr (vs, c)"
    by (auto simp: decode_tuple.simps split: if_splits)
  note E = elems_back [OF assms(1) d _ hl assms(3)]
  have sum: "?hl = head_sizes ts" using E assms(3) by (simp add: head_length_sum)
  show "c \<le> length data" "list_all value_ok vs" "length ts = length vs" using E by simp_all
  have "encode_elems ?hl ts vs [] [] = Inr (take (head_sizes ts) data, take (c - ?hl) (drop ?hl data))" using E by simp
  moreover have "take (head_sizes ts) data @ take (c - ?hl) (drop ?hl data) = take c data"
    using take_join [of ?hl 0 data "c - ?hl"] E sum by simp
  ultimately show "encode_tuple ts vs = Inr (take c data)" using E by (simp add: encode_tuple.simps)
  show "\<not> list_ex is_dynamic ts \<Longrightarrow> c = head_sizes ts" using E sum by simp
qed

lemma head_sizes_decoded:
  assumes "list_all backs ts" and "decode_tuple ts data = Inr (vs, c)" and "length data < 2 ^ 64"
  shows "head_sizes ts \<le> length data"
proof -
  from assms(2) have hl: "head_length ts \<le> length data" and d: "decode_elems ts data 0 (head_length ts) = Inr (vs, c)"
    by (auto simp: decode_tuple.simps split: if_splits)
  show ?thesis using elems_back [OF assms(1) d _ hl assms(3)] by simp
qed

text \<open>A static product: a fixed array or a tuple of static types takes all of its slice.\<close>

lemma static_product_back:
  assumes "list_all backs ts" and "\<not> list_ex is_dynamic ts" and "length data = head_sizes ts mod 2 ^ 64"
    and "decode_tuple ts data = Inr (vs, c)"
  shows "length data = head_sizes ts" and "encode_tuple ts vs = Inr data" and "list_all value_ok vs" and "length vs = length ts"
proof -
  have small: "length data < 2 ^ 64" using assms(3) by simp
  note B = tuple_back [OF assms(1,4) small]
  show eq: "length data = head_sizes ts"
    using head_sizes_decoded [OF assms(1,4) small] assms(3) mod_less_eq_dividend [of "head_sizes ts" "2 ^ 64"] by linarith
  show "encode_tuple ts vs = Inr data" using B(4,5) assms(2) eq by simp
  show "list_all value_ok vs" "length vs = length ts" using B(2,3) by simp_all
qed

lemma from_utf8_Some: "from_utf8 b = Some s \<Longrightarrow> as_bytes s = b \<and> valid_utf8 b"
  by (auto simp: from_utf8_def split: if_splits)

lemma read_prefixed_Inr:
  assumes "read_prefixed data = Inr (b, c)"
  shows "c \<le> length data \<and> length b < 2 ^ 32 \<and> to_be_bytes32 (of_nat (length b)) @ b = take c data"
proof -
  from assms obtain w where w: "read_u32 data 0 = Inr w" and c: "c = 4 + unat w" "c \<le> length data"
    and b: "b = take (unat w) (drop 4 data)"
    by (auto simp: read_prefixed_def Let_def split: if_splits)
  have len: "length b = unat w" using b c by simp
  then have "to_be_bytes32 (of_nat (length b)) = take 4 data" using read_u32_Inr(2) [OF w] by simp
  moreover have "take 4 data @ b = take c data" using take_join [of 4 0 data "unat w"] b c by simp
  ultimately show ?thesis using c len unat_bound [of w] by simp
qed

lemma blob_backs: "backs ABytes" "backs AString"
proof -
  show "backs ABytes"
    by (auto simp: backs_def dynamic_back_def encode_dynamic_body.simps length_field_def dest!: read_prefixed_Inr)
  show "backs AString"
    by (auto simp: backs_def dynamic_back_def encode_dynamic_body.simps length_field_def
      dest!: read_prefixed_Inr from_utf8_Some)
qed

lemma read_word_all: "length data = 32 \<Longrightarrow> read_word data = Inr data"
  by (simp add: read_word_def)

lemma bool_word:
  fixes w :: bytes
  assumes "length w = 32" and "list_all (\<lambda>b. b = 0) (take 31 w)"
  shows "w = (replicate 32 0)[31 := w ! 31]"
proof -
  have "take 31 w = replicate 31 0" by (intro replicate_eqI) (use assms in \<open>auto simp: list_all_iff\<close>)
  moreover have "w = take 31 w @ [w ! 31]" using assms(1) take_Suc_conv_app_nth [of 31 w] by simp
  ultimately have "w = replicate 31 0 @ [w ! 31]" by simp
  moreover have "replicate 32 0 = replicate 31 0 @ [0 :: u8]" by (simp add: numeral_eq_Suc)
  moreover have "(replicate 31 0 @ [0])[31 := w ! 31] = replicate 31 0 @ [w ! 31]" by (simp add: list_update_append)
  ultimately show ?thesis by metis
qed

lemma scalar_backs: "backs (AUint bits)" "backs (AInt bits)" "backs ABool" "backs AAddress"
proof -
  show "backs (AUint bits)" "backs AAddress"
    by (auto simp: backs_def static_back_def read_word_all encode_static.simps)
  have "v = VInt w \<and> check_int_range w bits = Inr ()" if w: "length w = 32" and d: "decode_static (AInt bits) w = Inr (v, c)" for w v c
  proof -
    have r: "check_int_range w bits = Inr ()" using d w by (auto simp: read_word_all)
    then show ?thesis using d w sign_extension [OF w r refl] by (auto simp: read_word_all Let_def simp del: One_nat_def split: if_splits)
  qed
  then show "backs (AInt bits)" by (fastforce simp: backs_def static_back_def encode_static.simps simp del: decode_static.simps)
  have "encode_static ABool v = Inr w" if w: "length w = 32" and d: "decode_static ABool w = Inr (v, c)" for w v c
  proof -
    have "list_all (\<lambda>b. b = 0) (take 31 w)" "w ! 31 \<le> 1" and v: "v = VBool (w ! 31 = 1)"
      using d w by (auto simp: read_word_all list_all_iff list_ex_iff split: if_splits)
    moreover have "w ! 31 = 0 \<or> w ! 31 = 1" using \<open>w ! 31 \<le> 1\<close> by (auto simp: word_le_nat_alt word_unat_eq_iff le_Suc_eq)
    moreover have "(replicate 32 0)[31 := 0] = replicate 32 (0 :: u8)" by (metis list_update_id nth_replicate numeral_less_iff semiring_norm(76,78,80,81))
    ultimately show ?thesis using bool_word [OF w] by (auto simp: encode_static.simps)
  qed
  then show "backs ABool" by (auto simp: backs_def static_back_def split: if_splits)
qed

lemma static_size_length: "\<not> is_dynamic t \<Longrightarrow> static_size t = Some (length data) \<longleftrightarrow> length data = exact_size t mod 2 ^ 64"
  using static_size_exact [of t] by auto

lemma array_backs:
  assumes "backs e"
  shows "backs (AArray e)"
proof -
  have "c \<le> length data \<and> value_ok v \<and> (\<forall>out. encode_dynamic_body (AArray e) v out = Inr (out @ take c data))"
    if small: "length data < 2 ^ 64" and d: "decode_dynamic_body (AArray e) data = Inr (v, c)" for data v c
  proof -
    from d obtain w vs k where w: "read_u32 data 0 = Inr w" and v: "v = VArray vs" "c = 4 + k"
      and t: "decode_tuple (replicate (unat w) e) (drop 4 data) = Inr (vs, k)"
      by (auto split: if_splits)
    have "list_all backs (replicate (unat w) e)" using assms by (simp add: list_all_iff)
    note B = tuple_back [OF this t]
    note w' = read_u32_Inr [OF w]
    have len: "length vs = unat w" and "k \<le> length data - 4" and e: "encode_tuple (replicate (unat w) e) vs = Inr (take k (drop 4 data))"
      using B small by simp_all
    moreover have "take 4 data @ take k (drop 4 data) = take c data" using take_join [of 4 0 data k] v(2) by simp
    moreover have "to_be_bytes32 w = take 4 data" using w'(2) by simp
    ultimately show ?thesis
      using B(2) small w'(1) v unat_bound [of w] by (auto simp: encode_dynamic_body.simps length_field_def)
  qed
  then show ?thesis unfolding backs_def dynamic_back_def by simp
qed

lemma dynamic_product_back:
  assumes "list_all backs ts" and "length data < 2 ^ 64" and "decode_tuple ts data = Inr (vs, c)"
    and "\<And>out. encode_dynamic_body t v out = bind_res (encode_tuple ts vs) (\<lambda>body. Inr (out @ body))"
    and "value_ok v \<longleftrightarrow> list_all value_ok vs"
  shows "c \<le> length data \<and> value_ok v \<and> (\<forall>out. encode_dynamic_body t v out = Inr (out @ take c data))"
  using tuple_back [OF assms(1,3,2)] assms(4,5) by simp

lemma fixed_array_backs:
  assumes "backs e"
  shows "backs (AFixedArray e n)"
proof -
  have all: "list_all backs (replicate n e)" using assms by (simp add: list_all_iff)
  show ?thesis
  proof (cases "is_dynamic (AFixedArray e n)")
    case True
    have "c \<le> length data \<and> value_ok v \<and> (\<forall>out. encode_dynamic_body (AFixedArray e n) v out = Inr (out @ take c data))"
      if small: "length data < 2 ^ 64" and d: "decode_dynamic_body (AFixedArray e n) data = Inr (v, c)" for data v c
    proof -
      from d obtain vs where t: "decode_tuple (replicate n e) data = Inr (vs, c)" and v: "v = VFixedArray vs" by auto
      show ?thesis using tuple_back(3) [OF all t small] v
        by (intro dynamic_product_back [OF all small t]) (simp_all add: encode_dynamic_body.simps)
    qed
    then show ?thesis using True unfolding backs_def dynamic_back_def by simp
  next
    case False
    have "length data = exact_size (AFixedArray e n) \<and> encode_static (AFixedArray e n) v = Inr data \<and> value_ok v"
      if s: "static_size (AFixedArray e n) = Some (length data)" and d: "decode_static (AFixedArray e n) data = Inr (v, c)" for data v c
    proof -
      from d obtain vs where t: "decode_tuple (replicate n e) data = Inr (vs, c)" and v: "v = VFixedArray vs" by auto
      have st: "\<not> list_ex is_dynamic (replicate n e)" using False by (simp add: list_ex_iff)
      have sz: "head_sizes (replicate n e) = exact_size (AFixedArray e n)" using False by (simp only: head_sizes_replicate) (simp add: head_size_def)
      have "length data = head_sizes (replicate n e) mod 2 ^ 64" using s sz static_size_length [OF False] by metis
      from static_product_back [OF all st this t] sz v show ?thesis by (simp add: encode_static.simps)
    qed
    then show ?thesis using False unfolding backs_def static_back_def by simp
  qed
qed

lemma tuple_backs:
  assumes all: "list_all backs ts"
  shows "backs (ATuple ts)"
proof (cases "is_dynamic (ATuple ts)")
  case True
  have "c \<le> length data \<and> value_ok v \<and> (\<forall>out. encode_dynamic_body (ATuple ts) v out = Inr (out @ take c data))"
    if small: "length data < 2 ^ 64" and d: "decode_dynamic_body (ATuple ts) data = Inr (v, c)" for data v c
  proof -
    from d obtain vs where t: "decode_tuple ts data = Inr (vs, c)" and v: "v = VTuple vs" by auto
    show ?thesis using v by (intro dynamic_product_back [OF all small t]) (simp_all add: encode_dynamic_body.simps)
  qed
  then show ?thesis using True unfolding backs_def dynamic_back_def by simp
next
  case False
  have "length data = exact_size (ATuple ts) \<and> encode_static (ATuple ts) v = Inr data \<and> value_ok v"
    if s: "static_size (ATuple ts) = Some (length data)" and d: "decode_static (ATuple ts) data = Inr (v, c)" for data v c
  proof -
    from d obtain vs where t: "decode_tuple ts data = Inr (vs, c)" and v: "v = VTuple vs" by auto
    have st: "\<not> list_ex is_dynamic ts" using False by simp
    have sz: "head_sizes ts = exact_size (ATuple ts)" using head_sizes_static [OF st] by simp
    have "length data = head_sizes ts mod 2 ^ 64" using s sz static_size_length [OF False] by metis
    from static_product_back [OF all st this t] sz v show ?thesis by (simp add: encode_static.simps)
  qed
  then show ?thesis using False unfolding backs_def static_back_def by simp
qed

lemma type_backs: "backs t"
  by (induction t) (auto simp: list_all_iff intro: scalar_backs blob_backs array_backs fixed_array_backs tuple_backs)

lemma encode_decode_args:
  assumes "decode_args params data = Inr vs" and "length data < 2 ^ 64"
  shows "encode_args params vs = Inr data \<and> list_all value_ok vs"
proof -
  from assms(1) have d: "decode_tuple (map param_type params) data = Inr (vs, length data)"
    by (auto simp: decode_args_def split: if_splits)
  have "list_all backs (map param_type params)" by (simp add: list_all_iff type_backs)
  from tuple_back [OF this d assms(2)] show ?thesis by (simp add: encode_args_def)
qed

section \<open>Decoding does not panic\<close>

fun panics :: "abi_error + 'a \<Rightarrow> bool" where
  "panics (Inl (AbiPanic _)) \<longleftrightarrow> True"
| "panics _ \<longleftrightarrow> False"

lemma panics_bind [simp]: "panics (bind_res r f) \<longleftrightarrow> panics r \<or> (\<exists>a. r = Inr a \<and> panics (f a))"
  by (cases r; cases "projl r") auto

text \<open>The head of a \<open>roomy\<close> type can be measured in a \<open>usize\<close>.\<close>

fun roomy :: "abi_type \<Rightarrow> bool" where
  "roomy (AArray elem) \<longleftrightarrow> head_size elem \<le> 2 ^ 32 \<and> roomy elem"
| "roomy (AFixedArray elem len) \<longleftrightarrow> head_size elem * len < 2 ^ 64 \<and> roomy elem"
| "roomy (ATuple elems) \<longleftrightarrow> head_sizes elems < 2 ^ 64 \<and> list_all roomy elems"
| "roomy _ \<longleftrightarrow> True"

definition calm :: "abi_type \<Rightarrow> bool" where
  "calm t \<longleftrightarrow> (\<forall>data. length data < 2 ^ 64 \<longrightarrow> (if is_dynamic t then \<not> panics (decode_dynamic_body t data)
     else \<not> panics (decode_static t data)))"

lemma head_size_cases: "is_dynamic t \<Longrightarrow> head_size t = 4" "\<not> is_dynamic t \<Longrightarrow> head_size t = exact_size t"
  by (simp_all add: head_size_def)

lemma elems_calm:
  assumes "list_all calm ts" and "hp + head_sizes ts \<le> length data" and "tp \<le> length data" and "length data < 2 ^ 64"
  shows "\<not> panics (decode_elems ts data hp tp)"
  using assms(1-3)
proof (induction ts arbitrary: hp tp)
  case (Cons t ts)
  show ?case
  proof (cases "is_dynamic t")
    case True
    then have "hp + 4 + head_sizes ts \<le> length data" using Cons.prems(2) by (simp add: head_size_cases)
    moreover have "tp + c \<le> length data" if "decode_dynamic_body t (drop tp data) = Inr (v, c)" for v c
    proof -
      have "dynamic_back t" using type_backs [of t] True by (simp add: backs_def)
      moreover have "length (drop tp data) < 2 ^ 64" using assms(4) by simp
      ultimately have "c \<le> length (drop tp data)" using that by (rule dynamic_backD(1))
      then show ?thesis using Cons.prems(3) by simp
    qed
    ultimately show ?thesis using Cons True assms(4) by (auto simp: calm_def read_u32_def)
  next
    case False
    then have "exact_size t \<le> length data" and fits: "hp + exact_size t + head_sizes ts \<le> length data"
      using Cons.prems(2) by (simp_all add: head_size_cases)
    then have "static_size t = Some (exact_size t)" using static_size_exact [OF False] assms(4) by simp
    then show ?thesis using Cons False assms(4) fits by (auto simp: calm_def Let_def)
  qed
qed simp

lemma tuple_calm:
  assumes "list_all calm ts" and "head_sizes ts < 2 ^ 64" and "length data < 2 ^ 64"
  shows "\<not> panics (decode_tuple ts data)"
  using assms elems_calm [of ts 0 data "head_sizes ts"] by (auto simp: decode_tuple.simps head_length_sum)

lemma array_calm:
  assumes "calm e" and "head_size e \<le> 2 ^ 32" and "length data < 2 ^ 64"
  shows "\<not> panics (decode_dynamic_body (AArray e) data)"
proof -
  have "\<not> panics (decode_tuple (replicate (unat w) e) (drop 4 data))" for w :: u32
  proof (rule tuple_calm)
    have "head_size e * unat w \<le> 2 ^ 32 * unat w" using assms(2) by (rule mult_le_mono1)
    also have "\<dots> < 2 ^ 32 * 2 ^ 32" using unat_bound [of w] by simp
    finally have "head_size e * unat w < 2 ^ 32 * 2 ^ 32" .
    then show "head_sizes (replicate (unat w) e) < 2 ^ 64" by (simp only: head_sizes_replicate) simp
  qed (use assms in \<open>simp_all add: list_all_iff\<close>)
  then show ?thesis by (auto simp: read_u32_def)
qed

lemma check_range_calm: "\<not> panics (check_uint_range w bits)" "\<not> panics (check_int_range w bits)" "\<not> panics (read_word d)"
  by (simp_all add: check_uint_range_def check_int_range_def validate_bits_def read_word_def Let_def)

lemma fixed_array_calm:
  assumes "calm e" and "head_size e * n < 2 ^ 64" and "length data < 2 ^ 64"
  shows "\<not> panics (decode_tuple (replicate n e) data)"
proof (rule tuple_calm)
  show "head_sizes (replicate n e) < 2 ^ 64" using assms(2) by (simp only: head_sizes_replicate)
qed (use assms in \<open>simp_all add: list_all_iff\<close>)

lemma type_calm: "roomy t \<Longrightarrow> calm t"
proof (induction t)
  case (AArray e)
  then show ?case using array_calm by (simp add: calm_def del: decode_dynamic_body.simps)
next
  case (AFixedArray e n)
  then show ?case using fixed_array_calm [of e n] by (auto simp: calm_def)
next
  case (ATuple ts)
  then have "list_all calm ts" by (simp add: list_all_iff)
  with ATuple.prems show ?case using tuple_calm [of ts] by (auto simp: calm_def)
next
  case AString
  have "\<not> panics (ok_or x InvalidUtf8)" for x :: "string option" by (cases x) simp_all
  then show ?case by (auto simp: calm_def read_prefixed_def read_u32_def Let_def)
qed (auto simp: calm_def check_range_calm read_prefixed_def read_u32_def Let_def)

lemma decode_args_calm:
  assumes "list_all (\<lambda>p. roomy (param_type p)) params" and "head_sizes (map param_type params) < 2 ^ 64" and "length data < 2 ^ 64"
  shows "\<not> panics (decode_args params data)"
proof -
  have "list_all calm (map param_type params)" using assms(1) by (auto simp: list_all_iff intro: type_calm)
  from tuple_calm [OF this assms(2,3)] show ?thesis by (auto simp: decode_args_def)
qed

end
