(* ===== verification/Sc_Samples.thy ===== *)
theory Sc_Samples
  imports Sc_Instance Sc_AbiCodec
begin

text \<open>
  Concrete inputs of the codec of calldata and of the node's components, at which the properties of
  the root theory are applied.
\<close>

section \<open>Calldata\<close>

definition demo_params :: "abi_param list" where
  "demo_params =
     [\<lparr>param_name = ''amount'', param_type = AUint 64\<rparr>,
      \<lparr>param_name = ''memo'', param_type = AString\<rparr>,
      \<lparr>param_name = ''flags'', param_type = AArray (ATuple [ABool, AInt 16])\<rparr>]"

definition demo_values :: "abi_value list" where
  "demo_values =
     [uint_u64 1000, VString ''hi'', VArray [VTuple [VBool True, int_i64 (-2)], VTuple [VBool False, int_i64 5]]]"

definition demo_calldata :: bytes where
  "demo_calldata = (case encode_args demo_params demo_values of Inr bs \<Rightarrow> bs | Inl _ \<Rightarrow> [])"

definition demo_function :: abi_function where
  "demo_function = \<lparr>fn_name = ''pay'', fn_inputs = demo_params, fn_outputs = [], fn_mutability = Payable\<rparr>"

definition demo_document :: abi_document where
  "demo_document = abi_document_new ''token'' [demo_function, \<lparr>fn_name = ''pay'', fn_inputs = [], fn_outputs = [], fn_mutability = View\<rparr>]"

end
