(* ===== verification/Sc_Rules.thy ===== *)
theory Sc_Rules
  imports Sc_Consensus
begin

text \<open>
  The node's error type (\<open>src/error.rs\<close>), the activation schedule of consensus versions
  (\<open>crates/strangecoin-core/src/governance/scip.rs\<close>) and the manager that resolves the rules in force at a
  height (\<open>src/blockchain/consensus_manager.rs\<close>).
\<close>

section \<open>Errors of the node\<close>

text \<open>Constructors carry the prefix \<open>E\<close>. Errors of libraries carry no payload, and \<open>EPanic\<close> stands for
  a call that panics.\<close>

datatype node_error =
    EInvalidSignature
  | EInvalidNonce u64 u64
  | EInvalidChainId u32 u32
  | EInvalidDifficulty
  | ESizeLimitExceeded string
  | EIoError
  | ESerializationError
  | ELeveldbError
  | ETimestampTooOld
  | ETimestampInFuture
  | EGenesisMismatch bytes bytes
  | EPeerBanned
  | EHexError
  | ESecp256k1Error
  | EInvalidCoinbaseAmount u64 u64
  | EMempoolFull nat
  | EDuplicateTx
  | EInsufficientBalance u64 u64
  | EConfigError string
  | EGrantBlocksDisabled
  | EInvalidBlock string
  | EInvalidHelloMessage
  | EForeignNetworkId string u32 u32
  | EGenesisNetworkMismatch u32 u32
  | ERbfFeerateTooLow u64 u64
  | ERbfReplacementLimit u32
  | EBlockGasLimitExceeded u64 u64
  | EPanic string

text \<open>\<open>format!("{:?}")\<close> of a byte array.\<close>

definition debug_bytes :: "bytes \<Rightarrow> string" where
  "debug_bytes bs = ''['' @ join '', '' (map (\<lambda>b. show_nat (unat b)) bs) @ '']''"

text \<open>The \<open>Display\<close> of \<open>VmError\<close>.\<close>

fun vm_error_message :: "vm_error \<Rightarrow> string" where
  "vm_error_message OutOfGas = ''out of gas''"
| "vm_error_message OutOfMemory = ''out of memory''"
| "vm_error_message Reverted = ''execution reverted''"
| "vm_error_message (HostFunctionError name reason) = ''host function `'' @ name @ ''` failed: '' @ reason"
| "vm_error_message ReentrancyDetected = ''reentrancy detected''"
| "vm_error_message MaxCallDepth = ''max call depth exceeded''"
| "vm_error_message MaxCodeSize = ''contract code exceeds max code size''"
| "vm_error_message MaxStoragePerContract = ''contract storage exceeds max size per contract''"
| "vm_error_message GasMeteringBug = ''gas metering inconsistency detected''"
| "vm_error_message (NotImplementedFeature feature) = ''feature `'' @ feature @ ''` is not implemented yet''"

text \<open>The conversion of an error of the core, applied by the operator \<open>?\<close>.\<close>

fun from_core :: "core_error \<Rightarrow> node_error" where
  "from_core InvalidSignature = EInvalidSignature"
| "from_core (InvalidNonce expected got) = EInvalidNonce expected got"
| "from_core (InvalidChainId expected got) = EInvalidChainId expected got"
| "from_core InvalidDifficulty = EInvalidDifficulty"
| "from_core TimestampTooOld = ETimestampTooOld"
| "from_core TimestampInFuture = ETimestampInFuture"
| "from_core (GenesisMismatch expected got) = EGenesisMismatch expected got"
| "from_core HexError = EHexError"
| "from_core Secp256k1Error = ESecp256k1Error"
| "from_core (InvalidCoinbaseAmount expected got) = EInvalidCoinbaseAmount expected got"
| "from_core (InsufficientBalance _ available required) = EInsufficientBalance available required"
| "from_core StateOverflow = EConfigError ''arithmetic overflow in state transition''"
| "from_core (StateRootMismatch expected got) =
     EConfigError (''state root mismatch: expected '' @ debug_bytes expected @ '', got '' @ debug_bytes got)"
| "from_core (PostStateRootMismatch expected got) =
     EConfigError (''post-state root mismatch: block commits to '' @ debug_bytes expected @ '', recomputed '' @ debug_bytes got)"
| "from_core (TxRootMismatch expected got) =
     EConfigError (''tx root mismatch: expected '' @ debug_bytes expected @ '', got '' @ debug_bytes got)"
| "from_core WitnessVerificationFailed = EConfigError ''witness verification failed''"
| "from_core ProofAccountMismatch =
     EConfigError ''proof account mismatch: claimed account not found in trie state''"
| "from_core InvalidAddressChecksum = EConfigError ''invalid address checksum''"
| "from_core (InvalidAddressFormat reason) = EConfigError (''invalid address format: '' @ reason)"
| "from_core (UnknownAddressHrp hrp) = EConfigError (''unknown address HRP: '' @ hrp)"
| "from_core (UnknownNetworkId network_id) = EConfigError (''unknown network ID: '' @ show_nat (unat network_id))"
| "from_core Bech32EncodeError = EConfigError ''bech32 encode error''"
| "from_core (HeaderHashMismatch expected got) =
     EInvalidBlock (''header hash mismatch: expected '' @ expected @ '', got '' @ got)"
| "from_core (UnsupportedTxType reason) = EInvalidBlock (''unsupported tx type: '' @ reason)"
| "from_core (InvalidContractDeploy reason) = EInvalidBlock (''invalid contract deploy: '' @ reason)"
| "from_core (InvalidGasLimit reason) = EInvalidBlock (''invalid gas limit: '' @ reason)"
| "from_core (VmExecution err) = EInvalidBlock (''vm execution failed: '' @ vm_error_message err)"
| "from_core (Panic s) = EPanic s"

fun lift_core :: "core_error + 'a \<Rightarrow> node_error + 'a" where
  "lift_core (Inl e) = Inl (from_core e)"
| "lift_core (Inr a) = Inr a"

lemma lift_core_Inr_iff [simp]: "lift_core r = Inr a \<longleftrightarrow> r = Inr a"
  by (cases r) simp_all

section \<open>Versions and phases\<close>

text \<open>A \<open>BTreeMap\<close> is a finite map too: it is read in the order of its keys.\<close>

record consensus_rules =
  consensus_version :: u32
  activations :: "(u64, u32) fmap"

definition current_consensus_rules :: "u64 \<Rightarrow> consensus_rules \<Rightarrow> u32" where
  "current_consensus_rules height rules =
     foldl (\<lambda>active_version (activation_height, new_version).
       if height \<ge> activation_height then new_version else active_version)
       (consensus_version rules) (sorted_list_of_fmap (activations rules))"

definition current_consensus_version :: "u64 \<Rightarrow> (u64, u32) fmap \<Rightarrow> u32" where
  "current_consensus_version height acts =
     foldl (\<lambda>version (activation_height, new_version).
       if height \<ge> activation_height then new_version else version) 1 (sorted_list_of_fmap acts)"

datatype consensus_phase = Pow | Pos

record consensus_manager =
  cm_rules :: consensus_rules
  pos_activation_height :: "u64 option"

definition consensus_manager_new :: consensus_manager where
  "consensus_manager_new =
     \<lparr>cm_rules = \<lparr>consensus_version = CURRENT_CONSENSUS_VERSION, activations = fmempty\<rparr>, pos_activation_height = None\<rparr>"

definition with_rules :: "consensus_rules \<Rightarrow> consensus_manager" where
  "with_rules rules = \<lparr>cm_rules = rules, pos_activation_height = None\<rparr>"

definition with_pos_activation :: "consensus_manager \<Rightarrow> u64 \<Rightarrow> consensus_manager" where
  "with_pos_activation m height = m\<lparr>pos_activation_height := Some height\<rparr>"

definition expected_version :: "consensus_manager \<Rightarrow> u64 \<Rightarrow> u32" where
  "expected_version m height = current_consensus_rules height (cm_rules m)"

definition phase_at :: "consensus_manager \<Rightarrow> u64 \<Rightarrow> consensus_phase" where
  "phase_at m height =
     (case pos_activation_height m of Some h \<Rightarrow> if height \<ge> h then Pos else Pow | None \<Rightarrow> Pow)"

text \<open>The version in force is that of the last activation at or below the height.\<close>

lemma foldl_activations:
  "foldl (\<lambda>v (a, w). if (height :: u64) \<ge> a then w else v) v0 acts =
    (let past = filter (\<lambda>(a, w). a \<le> height) acts in if past = [] then v0 else snd (last past))"
  by (induction acts rule: rev_induct) (auto simp: Let_def)

lemma sorted_wrt_last: "sorted_wrt P xs \<Longrightarrow> x \<in> set xs \<Longrightarrow> x = last xs \<or> P x (last xs)"
  by (induction xs) auto

lemma current_rules_last:
  assumes "fmlookup (activations rules) h = Some v" and "h \<le> height"
    and "\<And>h'. h' \<in> fmdom' (activations rules) \<Longrightarrow> h' \<le> height \<Longrightarrow> h' \<le> h"
  shows "current_consensus_rules height rules = v"
proof -
  let ?l = "sorted_list_of_fmap (activations rules)"
  let ?f = "filter (\<lambda>(a, w). a \<le> height) ?l"
  have mem: "(a, w) \<in> set ?l \<longleftrightarrow> fmlookup (activations rules) a = Some w" for a w
    by (auto simp: sorted_list_of_fmap_def sorted_list_of_fset.rep_eq fmdom'_alt_def [symmetric] fmlookup_dom'_iff)
  have srt: "sorted_wrt (\<lambda>p q. fst p < fst q) ?l"
    by (simp add: sorted_list_of_fmap_def sorted_wrt_map sorted_list_of_fset.rep_eq strict_sorted_list_of_set)
  have hv: "(h, v) \<in> set ?f" using assms(1,2) by (simp add: mem)
  have "0 < length ?f" by (rule length_pos_if_in_set [OF hv])
  then have ne: "?f \<noteq> []" by (rule iffD1 [OF length_greater_0_conv])
  have "last ?f = (h, v)"
  proof -
    have f: "sorted_wrt (\<lambda>p q. fst p < fst q) ?f" using srt by (rule sorted_wrt_filter)
    have "last ?f \<in> set ?f" using ne by (rule last_in_set)
    then have le: "fst (last ?f) \<le> h" using assms(3) by (auto simp: mem fmlookup_dom'_iff)
    have "(h, v) = last ?f \<or> fst (h, v) < fst (last ?f)" using f hv by (rule sorted_wrt_last)
    then show ?thesis using le by auto
  qed
  with ne show ?thesis by (simp add: current_consensus_rules_def foldl_activations Let_def)
qed

end
