(* ===== verification/Sc_Executor.thy ===== *)
theory Sc_Executor
  imports Sc_Rules Sc_Undo
begin

text \<open>
  The block executor of the node (\<open>src/blockchain/block_executor.rs\<close>): the checks of a block against its
  parent state and chain, its execution, and the registry of contract code. The node is modelled as built
  with its default features, where contracts are executed. The wasmi executor is a parameter: its trait
  operations, its constructor and \<open>insert_code\<close>.
\<close>

section \<open>What a block is validated against\<close>

record block_view =
  bv_chain :: "block list"
  bv_now :: u64
  bv_allow_grant_blocks :: bool
  bv_allow_zero_state_root :: bool
  bv_expected_consensus_version :: u32
  bv_phase :: consensus_phase
  bv_chain_id :: u32
  bv_codes :: "(string, bytes) fmap option"

definition block_view_new :: "block list \<Rightarrow> u64 \<Rightarrow> bool \<Rightarrow> u32 \<Rightarrow> u32 \<Rightarrow> block_view" where
  "block_view_new chain now allow_grant_blocks expected_consensus_version chain_id =
     \<lparr> bv_chain = chain, bv_now = now, bv_allow_grant_blocks = allow_grant_blocks,
       bv_allow_zero_state_root = False, bv_expected_consensus_version = expected_consensus_version,
       bv_phase = Pow, bv_chain_id = chain_id, bv_codes = None \<rparr>"

definition with_phase :: "consensus_phase \<Rightarrow> block_view \<Rightarrow> block_view" where
  "with_phase phase view = view\<lparr>bv_phase := phase\<rparr>"

definition with_allow_zero_state_root :: "bool \<Rightarrow> block_view \<Rightarrow> block_view" where
  "with_allow_zero_state_root allow view = view\<lparr>bv_allow_zero_state_root := allow\<rparr>"

definition with_codes :: "(string, bytes) fmap \<Rightarrow> block_view \<Rightarrow> block_view" where
  "with_codes codes view = view\<lparr>bv_codes := Some codes\<rparr>"

lemmas block_view_defs = block_view_new_def with_phase_def with_allow_zero_state_root_def with_codes_def

record 'v host =
  host_vm :: "'v vm_executor"
  host_new :: 'v
  host_insert_code :: "'v \<Rightarrow> string \<Rightarrow> bytes \<Rightarrow> 'v"

definition MAX_BLOCK_SIZE :: nat where
  "MAX_BLOCK_SIZE = 4 * 1024 * 1024"

definition MAX_TX_SIZE :: nat where
  "MAX_TX_SIZE = 256 * 1024"

definition GRANT_BLOCK_INDEX :: u64 where
  "GRANT_BLOCK_INDEX = 1"

section \<open>Checks\<close>

definition invalid :: "block \<Rightarrow> string \<Rightarrow> node_error" where
  "invalid b reason = EInvalidBlock (''block '' @ show_nat (unat (blk_index b)) @ '': '' @ reason)"

text \<open>\<open>format!("{:x?}")\<close> of a byte array: hexadecimal digits without padding.\<close>

definition hex_char :: "nat \<Rightarrow> char" where
  "hex_char d = (if d < 10 then char_of (48 + d) else char_of (87 + d))"

definition show_hex :: "u8 \<Rightarrow> string" where
  "show_hex b = (if unat b < 16 then [hex_char (unat b)] else [hex_char (unat b div 16), hex_char (unat b mod 16)])"

definition debug_hex_bytes :: "bytes \<Rightarrow> string" where
  "debug_hex_bytes bs = ''['' @ join '', '' (map show_hex bs) @ '']''"

definition gas_reserved :: "transaction \<Rightarrow> u64" where
  "gas_reserved tx = (case tx of Call k \<Rightarrow> k_gas_limit k | Create c \<Rightarrow> c_gas_limit c | Transfer _ \<Rightarrow> 0)"

definition enforce_block_gas_limit :: "transaction list \<Rightarrow> node_error + unit" where
  "enforce_block_gas_limit txs =
     (let total = sum_list (map gas_reserved txs)
      in if total > BLOCK_GAS_LIMIT then Inl (EBlockGasLimitExceeded total BLOCK_GAS_LIMIT) else Inr ())"

definition enforce_receipt_gas_limit :: "receipt list \<Rightarrow> node_error + unit" where
  "enforce_receipt_gas_limit receipts =
     (let total = sum_list (map rc_gas_used receipts)
      in if total > BLOCK_GAS_LIMIT then Inl (EBlockGasLimitExceeded total BLOCK_GAS_LIMIT) else Inr ())"

definition collect_block_codes :: "ext \<Rightarrow> u32 \<Rightarrow> (string, bytes) fmap \<Rightarrow> block \<Rightarrow> (string, bytes) fmap" where
  "collect_block_codes X chain_id codes b =
     foldl (\<lambda>codes tx. case tx of
         Create c \<Rightarrow>
           (case derive_contract_address X (c_from c) (c_nonce c) chain_id of
              Inr address \<Rightarrow> fmupd address (c_init_code c) codes
            | Inl _ \<Rightarrow> codes)
       | _ \<Rightarrow> codes) codes (blk_transactions b)"

definition codes_from_chain :: "ext \<Rightarrow> block list \<Rightarrow> u32 \<Rightarrow> (string, bytes) fmap" where
  "codes_from_chain X chain chain_id = foldl (collect_block_codes X chain_id) fmempty chain"

definition zero_hash :: string where
  "zero_hash = replicate 64 CHR ''0''"

definition validate_position :: "block \<Rightarrow> block list \<Rightarrow> node_error + unit" where
  "validate_position b chain =
     (if blk_index b = 0 then
        if chain \<noteq> [] then Inl (invalid b ''genesis block applied on a non-empty chain'')
        else if blk_previous_hash b \<noteq> zero_hash then Inl (invalid b ''genesis previous_hash must be 64 zeroes'')
        else Inr ()
      else if chain = [] then Inl (invalid b ''parent block is missing'')
      else
        let parent = last chain in
        if unat (blk_index b) \<noteq> length chain then
          Inl (invalid b (''index '' @ show_nat (unat (blk_index b)) @ '' does not follow parent height ''
            @ show_nat (unat (blk_index parent))))
        else if blk_previous_hash b \<noteq> blk_hash parent then
          Inl (invalid b (''previous_hash '' @ blk_previous_hash b @ '' does not match parent hash '' @ blk_hash parent))
        else Inr ())"

definition validate_target :: "ext \<Rightarrow> block \<Rightarrow> block list \<Rightarrow> node_error + unit" where
  "validate_target X b chain =
     (if blk_index b mod RETARGET_INTERVAL = 0 then
        bind_res (lift_core (compute_target X chain)) (\<lambda>t.
          if blk_target b \<noteq> hex_encode X t
          then Inl (invalid b (''target '' @ blk_target b @ '' at retarget height, expected '' @ hex_encode X t))
          else Inr ())
      else if chain = [] then Inl (invalid b ''parent block is missing'')
      else if blk_target b \<noteq> blk_target (last chain) then
        Inl (invalid b (''target '' @ blk_target b @ '' changed outside a retarget height, expected '' @ blk_target (last chain)))
      else Inr ())"

text \<open>The executor is seeded from the registry of the view.\<close>

definition seeded_vm :: "'v host \<Rightarrow> (string, bytes) fmap option \<Rightarrow> 'v" where
  "seeded_vm H codes =
     (case codes of
        None \<Rightarrow> host_new H
      | Some m \<Rightarrow> foldl (\<lambda>vm (address, wasm). host_insert_code H vm address wasm) (host_new H) (sorted_list_of_fmap m))"

definition apply_and_execute :: "ext \<Rightarrow> 'v host \<Rightarrow> state \<Rightarrow> block \<Rightarrow> block_view \<Rightarrow> node_error + state" where
  "apply_and_execute X H parent_state b view =
     lift_core (bind_res (apply_block_with_vm X (host_vm H) parent_state b (bv_chain_id view) (seeded_vm H (bv_codes view)))
       (\<lambda>(s, _). Inr s))"

text \<open>The size limits on the block and on each of its transactions.\<close>

definition enforce_size_limits :: "ext \<Rightarrow> block \<Rightarrow> node_error + unit" where
  "enforce_size_limits X b =
     bind_res (lift_core (serialize_block X b)) (\<lambda>bs.
       if length bs > MAX_BLOCK_SIZE then Inl (ESizeLimitExceeded ''block'')
       else if list_ex (\<lambda>tx. length (serialize_transaction_signed tx) > MAX_TX_SIZE) (blk_transactions b)
       then Inl (ESizeLimitExceeded ''transaction'')
       else Inr ())"

definition verify_block_transactions :: "ext \<Rightarrow> block \<Rightarrow> block_view \<Rightarrow> node_error + unit" where
  "verify_block_transactions X b view =
     (if bv_allow_grant_blocks view \<and> blk_index b = GRANT_BLOCK_INDEX then Inr ()
      else foldM (\<lambda>_ tx.
        if tx_chain_id tx \<noteq> bv_chain_id view then Inl (EInvalidChainId (bv_chain_id view) (tx_chain_id tx))
        else lift_core (verify_transaction X tx)) () (blk_transactions b))"

text \<open>The commitments to the state and to the receipts after the block.\<close>

definition check_commitments :: "ext \<Rightarrow> block \<Rightarrow> block_view \<Rightarrow> state \<Rightarrow> node_error + unit" where
  "check_commitments X b view new_state =
     bind_res
       (let computed_root = compute_root X (balances new_state) in
        if blk_state_root b = zero32 then
          if \<not> (blk_index b = 0 \<or> bv_allow_zero_state_root view)
          then Inl (invalid b ''state root is zero but a state commitment is required'')
          else Inr ()
        else if blk_state_root b \<noteq> computed_root then
          Inl (invalid b (''state root mismatch: stored '' @ debug_hex_bytes (blk_state_root b) @ '', computed ''
            @ debug_hex_bytes computed_root))
        else Inr ())
       (\<lambda>_.
         let computed_receipts_root = receipts_root X (st_receipts new_state) in
         if blk_receipts_root b = zero32 then
           if blk_index b \<noteq> 0 then Inl (invalid b ''receipts root is zero but a receipts commitment is required'')
           else Inr ()
         else if blk_receipts_root b \<noteq> computed_receipts_root then
           Inl (invalid b (''receipts root mismatch: stored '' @ debug_hex_bytes (blk_receipts_root b) @ '', computed ''
             @ debug_hex_bytes computed_receipts_root))
         else Inr ())"

text \<open>The checks that come before the execution, in the order of the code.\<close>

definition validate_block :: "ext \<Rightarrow> block \<Rightarrow> block_view \<Rightarrow> node_error + unit" where
  "validate_block X b view =
     bind_res (enforce_size_limits X b) (\<lambda>_.
     bind_res (validate_position b (bv_chain view)) (\<lambda>_.
     bind_res (lift_core (block_hash X b)) (\<lambda>computed.
       if blk_hash b \<noteq> hex_encode X computed then
         Inl (invalid b (''header hash mismatch: stored '' @ blk_hash b @ '', computed '' @ hex_encode X computed))
       else if bv_phase view = Pos then Inl (invalid b ''PoS validation phase is not active until Stage 7'')
       else if blk_consensus_version b \<noteq> bv_expected_consensus_version view then
         Inl (invalid b (''consensus_version mismatch: got '' @ show_nat (unat (blk_consensus_version b))
           @ '', expected '' @ show_nat (unat (bv_expected_consensus_version view))))
       else
         bind_res (lift_core (validate_tx_root X b)) (\<lambda>_.
         bind_res (lift_core (validate_timestamp b (bv_chain view) (bv_now view))) (\<lambda>_.
         bind_res
           (if blk_index b > 0
            then bind_res (lift_core (validate_difficulty X b)) (\<lambda>_. validate_target X b (bv_chain view))
            else Inr ()) (\<lambda>_.
         bind_res (verify_block_transactions X b view) (\<lambda>_.
           enforce_block_gas_limit (blk_transactions b))))))))"

definition validate_and_apply :: "ext \<Rightarrow> 'v host \<Rightarrow> state \<Rightarrow> block \<Rightarrow> block_view \<Rightarrow> node_error + state" where
  "validate_and_apply X H parent_state b view =
     bind_res (validate_block X b view) (\<lambda>_.
     bind_res (apply_and_execute X H parent_state b view) (\<lambda>new_state.
     bind_res (enforce_receipt_gas_limit (st_receipts new_state)) (\<lambda>_.
     bind_res (check_commitments X b view new_state) (\<lambda>_.
       Inr new_state))))"

section \<open>Execution reads the ledger only\<close>

text \<open>Two states with the same balances and storage (\<open>state_eq\<close>) give the same results, whatever their
  undo records: a state restored from a snapshot is as good as the one the snapshot was taken of.\<close>

abbreviation res_rel :: "('a \<Rightarrow> 'b \<Rightarrow> bool) \<Rightarrow> 'e + 'a \<Rightarrow> 'e + 'b \<Rightarrow> bool" where
  "res_rel R \<equiv> rel_sum (=) R"

lemma res_rel_bind:
  "res_rel R m n \<Longrightarrow> (\<And>a b. R a b \<Longrightarrow> res_rel Q (f a) (g b)) \<Longrightarrow> res_rel Q (bind_res m f) (bind_res n g)"
  by (cases m; cases n) auto

lemma res_rel_foldM:
  assumes "\<And>a b x. R a b \<Longrightarrow> res_rel R (f a x) (g b x)" and "R a b"
  shows "res_rel R (foldM f a xs) (foldM g b xs)"
  using assms(2)
proof (induction xs arbitrary: a b)
  case (Cons x xs)
  have "res_rel R (f a x) (g b x)" using assms(1) Cons.prems by blast
  then show ?case using Cons.IH by (cases "f a x"; cases "g b x") auto
qed simp

lemma state_eq_refl [simp]: "state_eq s s"
  by (simp add: state_eq_def)

lemma state_eq_fields [simp]:
  "state_eq s t \<Longrightarrow> state_eq (s\<lparr>storage_undo := u\<rparr>) (t\<lparr>storage_undo := u'\<rparr>)"
  "state_eq s t \<Longrightarrow> state_eq (s\<lparr>value_transfers_undo := w\<rparr>) (t\<lparr>value_transfers_undo := w'\<rparr>)"
  "state_eq s t \<Longrightarrow> state_eq (s\<lparr>st_receipts := r\<rparr>) (t\<lparr>st_receipts := r'\<rparr>)"
  by (simp_all add: state_eq_def)

lemma ledger_reads:
  assumes "state_eq s t"
  shows "get_balance s = get_balance t" and "get_nonce s = get_nonce t" and "account_is_contract s = account_is_contract t"
    and "storage_of s = storage_of t" and "total_supply s = total_supply t" and "frame_context s = frame_context t"
  using assms by (simp_all add: state_eq_def fun_eq_iff get_balance_def get_nonce_def account_is_contract_def get_account_def
    storage_of_def total_supply_def frame_context_def)

lemma ledger_writes:
  assumes "state_eq s t"
  shows "state_eq (set_balance a b s) (set_balance a b t)" and "state_eq (set_nonce a n s) (set_nonce a n t)"
    and "state_eq (set_account a c s) (set_account a c t)" and "state_eq (set_storage_root a r s) (set_storage_root a r t)"
    and "state_eq (s\<lparr>st_storage := m\<rparr>) (t\<lparr>st_storage := m\<rparr>)"
  using assms
  by (simp_all add: state_eq_def set_balance_def set_nonce_def set_account_def set_storage_root_def prune_if_empty_def
    entry_or_default_def split: option.splits account.splits)

lemma debit_ledger: "state_eq s t \<Longrightarrow> res_rel state_eq (debit a v s) (debit a v t)"
  unfolding debit_def ledger_reads(1) [of s t]
  by (cases "checked_sub (get_balance t a) v"; simp add: ledger_reads ledger_writes)

lemma credit_ledger: "state_eq s t \<Longrightarrow> res_rel state_eq (credit a v s) (credit a v t)"
  unfolding credit_def ledger_reads(1) [of s t]
  by (cases "checked_add (get_balance t a) v"; simp add: ledger_reads ledger_writes)

lemma move_value_ledger: "state_eq s t \<Longrightarrow> res_rel state_eq (move_value s v) (move_value t v)"
  unfolding move_value_def by (rule res_rel_bind [OF debit_ledger]) (simp_all add: credit_ledger)

lemma commit_ledger: "state_eq s t \<Longrightarrow> res_rel state_eq (commit_value_transfers s i ts) (commit_value_transfers t i ts)"
  unfolding commit_value_transfers_def
  by (auto intro!: res_rel_bind [where R = state_eq] res_rel_foldM move_value_ledger)

lemma flush_scope_ledger:
  assumes "state_eq (fst p) (fst q)" and "snd p = snd q"
  shows "state_eq (fst (flush_scope X p sc)) (fst (flush_scope X q sc)) \<and> snd (flush_scope X p sc) = snd (flush_scope X q sc)"
proof -
  obtain s u t w addr ws where p: "p = (s, u)" "q = (t, w)" and sc: "sc = (addr, ws)" by (metis prod.exhaust)
  have eq: "state_eq s t" "u = w" using assms p by simp_all
  have st: "st_storage s = st_storage t" using eq(1) by (simp add: state_eq_def)
  show ?thesis using eq unfolding p sc flush_scope_def
    by (simp add: ledger_reads [OF eq(1)] st Let_def ledger_writes)
qed

lemma flush_ledger:
  assumes "state_eq s t"
  shows "state_eq (flush_storage_writes X s res i) (flush_storage_writes X t res i)"
proof -
  have "state_eq (fst (foldl (flush_scope X) p xs)) (fst (foldl (flush_scope X) q xs))
      \<and> snd (foldl (flush_scope X) p xs) = snd (foldl (flush_scope X) q xs)"
    if "state_eq (fst p) (fst q) \<and> snd p = snd q" for p q xs
    using that by (induction xs arbitrary: p q) (simp_all add: flush_scope_ledger)
  from this [of "(s, [])" "(t, [])" "res_storage_overlay res"] show ?thesis
    using assms by (cases "foldl (flush_scope X) (s, []) (res_storage_overlay res)";
        cases "foldl (flush_scope X) (t, []) (res_storage_overlay res)") (simp add: flush_storage_writes_def)
qed

lemma apply_create_ledger:
  assumes "state_eq s t"
  shows "res_rel (\<lambda>(s, v, r) (t, w, r'). state_eq s t \<and> v = w \<and> r = r')
    (apply_create X V s c chain_id vm b i) (apply_create X V t c chain_id vm b i)"
proof -
  note R = ledger_reads [OF assms]
  show ?thesis
    unfolding apply_create_def Let_def R
    by (intro res_rel_bind [where R = "(=)"] sum.rel_refl)
      (auto simp: ledger_reads [OF ledger_writes(2) [OF ledger_writes(3) [OF assms]]] ledger_writes assms
        split: sum.splits intro!: res_rel_bind debit_ledger commit_ledger flush_ledger)
qed

lemma apply_call_ledger:
  assumes "state_eq s t"
  shows "res_rel (\<lambda>(s, r) (t, r'). state_eq s t \<and> r = r') (apply_call X V s b k vm i) (apply_call X V t b k vm i)"
proof -
  note R = ledger_reads [OF assms]
  note W = ledger_writes(2) [OF assms]
  show ?thesis
    unfolding apply_call_def Let_def R ledger_reads [OF W]
    by (auto simp: ledger_writes assms split: sum.splits intro!: res_rel_bind [where R = state_eq] commit_ledger flush_ledger)
qed

definition run_eq :: "state \<times> 'v \<times> 'r \<Rightarrow> state \<times> 'v \<times> 'r \<Rightarrow> bool" where
  "run_eq p q \<longleftrightarrow> state_eq (fst p) (fst q) \<and> snd p = snd q"

lemma run_eq_pair [simp]: "run_eq (s, x) (t, y) \<longleftrightarrow> state_eq s t \<and> x = y"
  by (simp add: run_eq_def)

lemma apply_tx_ledger:
  assumes "run_eq p q"
  shows "res_rel run_eq (apply_tx X V b chain_id p itx) (apply_tx X V b chain_id q itx)"
proof -
  obtain s v rs t i tx where p: "p = (s, v, rs)" "q = (t, v, rs)" and itx: "itx = (i, tx)" and eq: "state_eq s t"
    using assms by (cases p; cases q; cases itx) auto
  note R = ledger_reads [OF eq]
  show ?thesis
  proof (cases tx)
    case (Transfer x)
    have "res_rel state_eq (deduct_sender s x) (deduct_sender t x)"
      unfolding deduct_sender_def R using debit_ledger [OF eq] by simp
    moreover have "res_rel state_eq (credit_receiver s' x) (credit_receiver t' x)" if "state_eq s' t'" for s' t'
      unfolding credit_receiver_def by (rule credit_ledger [OF that])
    moreover have "res_rel state_eq (increment_nonce s' x) (increment_nonce t' x)" if "state_eq s' t'" for s' t'
      unfolding increment_nonce_def ledger_reads [OF that] using ledger_writes [OF that] by simp
    ultimately show ?thesis unfolding p itx Transfer apply_tx_def
      using eq by (auto intro!: res_rel_bind [where R = state_eq])
  next
    case (Create c)
    show ?thesis
    proof (cases v)
      case (Some w)
      show ?thesis unfolding p itx Create apply_tx_def Some
        by (auto intro!: res_rel_bind [OF apply_create_ledger [OF eq]])
    qed (simp add: p itx Create apply_tx_def)
  next
    case (Call k)
    show ?thesis
    proof (cases v)
      case (Some w)
      show ?thesis unfolding p itx Call apply_tx_def Some
        by (auto intro!: res_rel_bind [OF apply_call_ledger [OF eq]])
    qed (simp add: p itx Call apply_tx_def)
  qed
qed

lemma apply_block_ledger:
  assumes "state_eq s t"
  shows "res_rel (\<lambda>(s, v) (t, w). state_eq s t \<and> st_receipts s = st_receipts t \<and> v = w)
    (apply_block_inner X V s b chain_id vm) (apply_block_inner X V t b chain_id vm)"
proof -
  let ?s = "s\<lparr>st_receipts := []\<rparr>" and ?t = "t\<lparr>st_receipts := []\<rparr>"
  have eq: "state_eq ?s ?t" using assms by simp
  note R = ledger_reads [OF eq]
  have "res_rel (\<lambda>(s, r) (t, r'). state_eq s t \<and> r = r') (apply_genesis X ?s b chain_id) (apply_genesis X ?t b chain_id)"
    unfolding apply_genesis_def
  proof (rule res_rel_foldM)
    fix p q :: "state \<times> receipt list" and itx :: "nat \<times> transaction"
    assume "(\<lambda>(s, r) (t, r'). state_eq s t \<and> r = r') p q"
    then obtain u w r i tx where pq: "p = (u, r)" "q = (w, r)" "itx = (i, tx)" and uw: "state_eq u w"
      by (cases p; cases q; cases itx) auto
    show "res_rel (\<lambda>(s, r) (t, r'). state_eq s t \<and> r = r') (apply_genesis_tx X b chain_id p itx) (apply_genesis_tx X b chain_id q itx)"
      unfolding pq apply_genesis_tx_def
      by (cases tx) (auto simp: credit_receiver_def intro!: res_rel_bind [where R = "(=)"] res_rel_bind [OF credit_ledger [OF uw]] sum.rel_refl)
  qed (use eq in simp)
  moreover have "res_rel run_eq (apply_non_genesis X V ?s b chain_id vm) (apply_non_genesis X V ?t b chain_id vm)"
  proof -
    have loop: "res_rel run_eq (foldM (apply_tx X V b chain_id) (u, vm, rs) xs) (foldM (apply_tx X V b chain_id) (w, vm, rs) xs)"
      if "state_eq u w" for u w rs xs
      by (rule res_rel_foldM [OF apply_tx_ledger]) (use that in auto)
    show ?thesis unfolding apply_non_genesis_def Let_def R
      by (auto simp: credit_receiver_def split: option.splits transaction.splits
        intro!: res_rel_bind [where R = "(=)"] res_rel_bind [OF credit_ledger [OF eq]] sum.rel_refl loop)
  qed
  ultimately show ?thesis unfolding apply_block_inner_def Let_def
    by (auto intro!: res_rel_bind [where R = "\<lambda>(s, r) (t, r'). state_eq s t \<and> r = r'"] res_rel_bind [where R = run_eq])
qed

section \<open>What an accepted block satisfies\<close>

lemma validate_and_apply_iff:
  "validate_and_apply X H s b v = Inr t \<longleftrightarrow>
    validate_block X b v = Inr () \<and> apply_and_execute X H s b v = Inr t
    \<and> enforce_receipt_gas_limit (st_receipts t) = Inr () \<and> check_commitments X b v t = Inr ()"
  by (auto simp: validate_and_apply_def bind_res_Inr_iff)

lemma validate_block_iff:
  "validate_block X b v = Inr () \<longleftrightarrow>
    enforce_size_limits X b = Inr () \<and> validate_position b (bv_chain v) = Inr ()
    \<and> (\<exists>hs. block_hash X b = Inr hs \<and> blk_hash b = hex_encode X hs) \<and> bv_phase v = Pow
    \<and> blk_consensus_version b = bv_expected_consensus_version v \<and> validate_tx_root X b = Inr ()
    \<and> validate_timestamp b (bv_chain v) (bv_now v) = Inr ()
    \<and> (blk_index b > 0 \<longrightarrow> validate_difficulty X b = Inr () \<and> validate_target X b (bv_chain v) = Inr ())
    \<and> verify_block_transactions X b v = Inr () \<and> enforce_block_gas_limit (blk_transactions b) = Inr ()"
  by (cases "bv_phase v") (auto simp: validate_block_def bind_res_Inr_iff split: if_splits)

lemma validate_position_iff:
  "validate_position b chain = Inr () \<longleftrightarrow>
    (if chain = [] then blk_index b = 0 \<and> blk_previous_hash b = zero_hash
     else unat (blk_index b) = length chain \<and> blk_previous_hash b = blk_hash (last chain))"
  by (auto simp: validate_position_def Let_def split: if_splits)

lemma validate_timestamp_later:
  assumes "validate_timestamp b chain now = Inr ()" and "now \<le> now'" and "unat now' + 7200 < 2 ^ 64"
  shows "validate_timestamp b chain now' = Inr ()"
proof -
  have "unat (now + 7200) = unat now + 7200" "unat (now' + 7200) = unat now' + 7200"
    using assms(2,3) unat_add_lem [of now 7200] unat_add_lem [of now' 7200] by (simp_all add: word_le_nat_alt)
  then have "now + 7200 \<le> now' + 7200" using assms(2) by (simp add: word_le_nat_alt)
  with assms(1) show ?thesis
    by (auto simp: validate_timestamp_def bind_res_Inr_iff MAX_FUTURE_TIME_def not_less split: if_splits)
qed

lemma later_view:
  "verify_block_transactions X b (v\<lparr>bv_now := now\<rparr>) = verify_block_transactions X b v"
  "check_commitments X b (v\<lparr>bv_now := now\<rparr>) t = check_commitments X b v t"
  "apply_and_execute X H s b (v\<lparr>bv_now := now\<rparr>) = apply_and_execute X H s b v"
  by (simp_all add: verify_block_transactions_def check_commitments_def apply_and_execute_def cong: if_cong)

lemma validate_and_apply_later:
  assumes "validate_and_apply X H s b v = Inr t" and "bv_now v \<le> now" and "unat now + 7200 < 2 ^ 64"
  shows "validate_and_apply X H s b (v\<lparr>bv_now := now\<rparr>) = Inr t"
  using assms validate_timestamp_later [OF _ assms(2,3)]
  by (simp add: validate_and_apply_iff validate_block_iff later_view)

lemma apply_and_execute_ledger:
  assumes "state_eq s t"
  shows "res_rel (\<lambda>s t. state_eq s t \<and> st_receipts s = st_receipts t) (apply_and_execute X H s b v) (apply_and_execute X H t b v)"
proof -
  have "res_rel (\<lambda>s t. state_eq s t \<and> st_receipts s = st_receipts t)
      (bind_res (apply_block_with_vm X (host_vm H) s b (bv_chain_id v) (seeded_vm H (bv_codes v))) (\<lambda>(s, _). Inr s))
      (bind_res (apply_block_with_vm X (host_vm H) t b (bv_chain_id v) (seeded_vm H (bv_codes v))) (\<lambda>(s, _). Inr s))"
    unfolding apply_block_with_vm_def by (rule res_rel_bind [OF apply_block_ledger [OF assms]]) auto
  then show ?thesis unfolding apply_and_execute_def by (elim rel_sum.cases) simp_all
qed

lemma validate_and_apply_ledger:
  assumes "validate_and_apply X H s b v = Inr s'" and "state_eq s t"
  shows "\<exists>t'. validate_and_apply X H t b v = Inr t' \<and> state_eq s' t' \<and> st_receipts s' = st_receipts t'"
proof -
  from assms(1) have ok: "apply_and_execute X H s b v = Inr s'" by (simp add: validate_and_apply_iff)
  with apply_and_execute_ledger [OF assms(2), of X H b v] obtain t'
    where t': "apply_and_execute X H t b v = Inr t'" "state_eq s' t'" "st_receipts s' = st_receipts t'"
    by (cases "apply_and_execute X H t b v") auto
  have "check_commitments X b v s' = check_commitments X b v t'"
    using t'(2,3) by (simp add: check_commitments_def state_eq_def)
  with t' assms(1) show ?thesis by (simp add: validate_and_apply_iff)
qed

section \<open>The code registry\<close>

lemma collect_single_create:
  "blk_transactions b = [cb, Create c] \<Longrightarrow> tx_is_coinbase cb \<Longrightarrow>
    collect_block_codes X chain_id codes b =
      (case derive_contract_address X (c_from c) (c_nonce c) chain_id of
         Inr address \<Rightarrow> fmupd address (c_init_code c) codes | Inl _ \<Rightarrow> codes)"
  by (cases cb) (simp_all add: collect_block_codes_def)

end
