(* ===== verification/Sc_Mempool.thy ===== *)
theory Sc_Mempool
  imports Sc_Rules
begin

text \<open>
  The pool of pending transactions (\<open>src/mempool/mod.rs\<close>): insertion with replacement, the checks against
  the pending transactions of the sender, and removal. The index by sender and nonce is shown to stay in
  step with the table of transactions, and the pending transactions of a sender to stay consecutive and
  covered by the sender's balance.
\<close>

section \<open>The pool\<close>

definition MAX_PENDING_TXS :: nat where
  "MAX_PENDING_TXS = 10000"

datatype insert_outcome = Accepted | Replaced "bytes list"

record mempool =
  mp_chain_id :: u32
  mp_txs :: "(bytes, transaction) fmap"
  by_sender :: "(string, (u64, bytes) fmap) fmap"
  generations :: "(bytes, u32) fmap"

definition signed_len :: "transaction \<Rightarrow> u64" where
  "signed_len tx = of_nat (length (serialize_transaction_signed tx))"

definition feerate_micro :: "transaction \<Rightarrow> u64" where
  "feerate_micro tx = 1000000 div max (signed_len tx) 1"

definition required_feerate_micro :: "transaction \<Rightarrow> u64" where
  "required_feerate_micro old_tx =
     1000000 * (RBF_BPS_DENOMINATOR + RBF_MIN_DELTA_BPS) div (RBF_BPS_DENOMINATOR * max (signed_len old_tx) 1)"

definition feerate_bump_ok :: "transaction \<Rightarrow> transaction \<Rightarrow> bool" where
  "feerate_bump_ok old_tx new_tx \<longleftrightarrow>
     signed_len old_tx * RBF_BPS_DENOMINATOR \<ge> signed_len new_tx * (RBF_BPS_DENOMINATOR + RBF_MIN_DELTA_BPS)"

definition mempool_new :: "u32 \<Rightarrow> mempool" where
  "mempool_new chain_id = \<lparr>mp_chain_id = chain_id, mp_txs = fmempty, by_sender = fmempty, generations = fmempty\<rparr>"

text \<open>The bound of the range wraps: after the largest nonce it is the whole map.\<close>

definition find_replaceable :: "mempool \<Rightarrow> transaction \<Rightarrow> bytes list" where
  "find_replaceable p tx =
     (case fmlookup (by_sender p) (tx_sender tx) of
        None \<Rightarrow> []
      | Some m \<Rightarrow>
          (case fmlookup m (tx_nonce tx) of
             None \<Rightarrow> []
           | Some conflict \<Rightarrow>
               conflict # map snd (filter (\<lambda>(n, _). tx_nonce tx + 1 \<le> n) (sorted_list_of_fmap m))))"

text \<open>The ids of a sender's pending transactions, in the order of their nonces, without the excluded
  ones.\<close>

definition pending_ids :: "mempool \<Rightarrow> string \<Rightarrow> bytes list \<Rightarrow> bytes list" where
  "pending_ids p sender excluded =
     (case fmlookup (by_sender p) sender of
        None \<Rightarrow> []
      | Some m \<Rightarrow> filter (\<lambda>i. i \<notin> set excluded) (map snd (sorted_list_of_fmap m)))"

definition validate_against_pool :: "mempool \<Rightarrow> transaction \<Rightarrow> account \<Rightarrow> bytes list \<Rightarrow> node_error + unit" where
  "validate_against_pool p tx a excluded =
     (let pending = pending_ids p (tx_sender tx) excluded;
          pending_count = of_nat (length pending)
      in bind_res (lift_core (validate_nonce (tx_nonce tx) (saturating_add (acc_nonce a) pending_count))) (\<lambda>_.
           let pending_spent = sum_list (map (\<lambda>t. tx_value t + tx_fee t) (List.map_filter (fmlookup (mp_txs p)) pending));
               available = saturating_sub (acc_balance a) pending_spent;
               required = tx_value tx + tx_fee tx
           in if required > available then Inl (EInsufficientBalance available required) else Inr ()))"

definition mp_store :: "bytes \<Rightarrow> transaction \<Rightarrow> u32 \<Rightarrow> mempool \<Rightarrow> mempool" where
  "mp_store tx_id tx generation p =
     (let m = (case fmlookup (by_sender p) (tx_sender tx) of Some m \<Rightarrow> m | None \<Rightarrow> fmempty)
      in p\<lparr>by_sender := fmupd (tx_sender tx) (fmupd (tx_nonce tx) tx_id m) (by_sender p),
           mp_txs := fmupd tx_id tx (mp_txs p),
           generations := fmupd tx_id generation (generations p)\<rparr>)"

definition mp_remove :: "mempool \<Rightarrow> bytes \<Rightarrow> mempool" where
  "mp_remove p tx_id =
     (let p = p\<lparr>generations := fmdrop tx_id (generations p)\<rparr> in
      case fmlookup (mp_txs p) tx_id of
        None \<Rightarrow> p
      | Some tx \<Rightarrow>
          let p = p\<lparr>mp_txs := fmdrop tx_id (mp_txs p)\<rparr> in
          (case fmlookup (by_sender p) (tx_sender tx) of
             None \<Rightarrow> p
           | Some m \<Rightarrow>
               let m = fmdrop (tx_nonce tx) m
               in p\<lparr>by_sender := (if m = fmempty then fmdrop (tx_sender tx) (by_sender p)
                                   else fmupd (tx_sender tx) m (by_sender p))\<rparr>))"

definition mp_insert :: "ext \<Rightarrow> mempool \<Rightarrow> transaction \<Rightarrow> account \<Rightarrow> node_error + (mempool \<times> insert_outcome)" where
  "mp_insert X p tx a =
     (let tx_id = txid X tx in
      if fmlookup (mp_txs p) tx_id \<noteq> None then Inl EDuplicateTx
      else
        bind_res (lift_core (verify_transaction X tx)) (\<lambda>_.
          if tx_chain_id tx \<noteq> mp_chain_id p then Inl (EInvalidChainId (mp_chain_id p) (tx_chain_id tx))
          else
            case find_replaceable p tx of
              [] \<Rightarrow>
                if fcard (fmdom (mp_txs p)) \<ge> MAX_PENDING_TXS then Inl (EMempoolFull MAX_PENDING_TXS)
                else bind_res (validate_against_pool p tx a []) (\<lambda>_. Inr (mp_store tx_id tx 0 p, Accepted))
            | conflict_id # rest \<Rightarrow>
                let replaceable = conflict_id # rest in
                case fmlookup (mp_txs p) conflict_id of
                  None \<Rightarrow> Inl (EPanic ''mempool invariant: by_sender entry must be in txs'')
                | Some conflict_tx \<Rightarrow>
                    if \<not> feerate_bump_ok conflict_tx tx
                    then Inl (ERbfFeerateTooLow (required_feerate_micro conflict_tx) (feerate_micro tx))
                    else
                      let generation =
                            (case fmlookup (generations p) conflict_id of Some g \<Rightarrow> g | None \<Rightarrow> 0) + 1
                      in if generation > MAX_RBF_REPLACEMENTS
                         then Inl (ERbfReplacementLimit MAX_RBF_REPLACEMENTS)
                         else
                           bind_res (validate_against_pool p tx a replaceable) (\<lambda>_.
                             Inr (mp_store tx_id tx generation (foldl mp_remove p replaceable), Replaced replaceable))))"

definition generation :: "mempool \<Rightarrow> bytes \<Rightarrow> u32 option" where
  "generation p tx_id = fmlookup (generations p) tx_id"

definition mp_transactions :: "mempool \<Rightarrow> transaction list" where
  "mp_transactions p = map snd (sorted_list_of_fmap (mp_txs p))"

definition get_pending :: "mempool \<Rightarrow> nat \<Rightarrow> transaction list" where
  "get_pending p max_count = take max_count (mp_transactions p)"

definition mp_len :: "mempool \<Rightarrow> nat" where
  "mp_len p = fcard (fmdom (mp_txs p))"

definition mp_is_empty :: "mempool \<Rightarrow> bool" where
  "mp_is_empty p \<longleftrightarrow> mp_txs p = fmempty"

definition mp_contains :: "mempool \<Rightarrow> bytes \<Rightarrow> bool" where
  "mp_contains p tx_id \<longleftrightarrow> fmlookup (mp_txs p) tx_id \<noteq> None"

definition mp_get :: "mempool \<Rightarrow> bytes \<Rightarrow> transaction option" where
  "mp_get p tx_id = fmlookup (mp_txs p) tx_id"

section \<open>The index and the table\<close>

definition slot :: "mempool \<Rightarrow> string \<Rightarrow> u64 \<Rightarrow> bytes option" where
  "slot p s n = (case fmlookup (by_sender p) s of None \<Rightarrow> None | Some m \<Rightarrow> fmlookup m n)"

text \<open>Every transaction of the table is at its slot, every slot holds a transaction of the table.\<close>

definition table_ok :: "ext \<Rightarrow> mempool \<Rightarrow> bool" where
  "table_ok X p \<longleftrightarrow> (\<forall>i tx. fmlookup (mp_txs p) i = Some tx \<longrightarrow>
     i = txid X tx \<and> slot p (tx_sender tx) (tx_nonce tx) = Some i
     \<and> tx_chain_id tx = mp_chain_id p \<and> verify_transaction X tx = Inr ())"

definition index_ok :: "mempool \<Rightarrow> bool" where
  "index_ok p \<longleftrightarrow> (\<forall>s n i. slot p s n = Some i \<longrightarrow>
     (\<exists>tx. fmlookup (mp_txs p) i = Some tx \<and> tx_sender tx = s \<and> tx_nonce tx = n))"

definition generations_ok :: "mempool \<Rightarrow> bool" where
  "generations_ok p \<longleftrightarrow>
     (\<forall>i. fmlookup (generations p) i = None \<longleftrightarrow> fmlookup (mp_txs p) i = None)
     \<and> (\<forall>i g. fmlookup (generations p) i = Some g \<longrightarrow> g \<le> MAX_RBF_REPLACEMENTS)"

definition pool_ok :: "ext \<Rightarrow> mempool \<Rightarrow> bool" where
  "pool_ok X p \<longleftrightarrow> table_ok X p \<and> index_ok p \<and> generations_ok p \<and> mp_len p \<le> MAX_PENDING_TXS"

lemma table_okD:
  assumes "table_ok X p" and "fmlookup (mp_txs p) i = Some tx"
  shows "i = txid X tx" and "slot p (tx_sender tx) (tx_nonce tx) = Some i"
    and "tx_chain_id tx = mp_chain_id p" and "verify_transaction X tx = Inr ()"
  using assms(1) [unfolded table_ok_def, rule_format, OF assms(2)] by simp_all

lemma index_okD:
  "index_ok p \<Longrightarrow> slot p s n = Some i \<Longrightarrow> \<exists>tx. fmlookup (mp_txs p) i = Some tx \<and> tx_sender tx = s \<and> tx_nonce tx = n"
  unfolding index_ok_def by blast

lemma pool_ok_new: "pool_ok X (mempool_new chain_id)"
  by (simp add: pool_ok_def table_ok_def index_ok_def generations_ok_def mp_len_def mempool_new_def slot_def fcard.rep_eq)

lemma slot_store:
  "slot (mp_store i tx g p) s n = (if s = tx_sender tx \<and> n = tx_nonce tx then Some i else slot p s n)"
  by (simp add: slot_def mp_store_def Let_def split: option.splits)

lemma store_fields [simp]:
  "mp_txs (mp_store i tx g p) = fmupd i tx (mp_txs p)" "generations (mp_store i tx g p) = fmupd i g (generations p)"
  "mp_chain_id (mp_store i tx g p) = mp_chain_id p"
  by (simp_all add: mp_store_def Let_def)

lemma remove_fields [simp]:
  "mp_txs (mp_remove p i) = fmdrop i (mp_txs p)" "generations (mp_remove p i) = fmdrop i (generations p)"
  "mp_chain_id (mp_remove p i) = mp_chain_id p"
proof -
  have "fmdrop i m = m" if "fmlookup m i = None" for m :: "(bytes, transaction) fmap"
    using that by (intro fmdrop_idle') (simp add: fmlookup_dom'_iff)
  then show "mp_txs (mp_remove p i) = fmdrop i (mp_txs p)" by (simp add: mp_remove_def Let_def split: option.splits)
qed (simp_all add: mp_remove_def Let_def split: option.splits)

lemma slot_remove:
  "slot (mp_remove p i) s n =
    (case fmlookup (mp_txs p) i of
       Some tx \<Rightarrow> if s = tx_sender tx \<and> n = tx_nonce tx then None else slot p s n
     | None \<Rightarrow> slot p s n)"
proof (cases "fmlookup (mp_txs p) i")
  case None
  then show ?thesis by (simp add: slot_def mp_remove_def)
next
  case (Some tx)
  show ?thesis
  proof (cases "fmlookup (by_sender p) (tx_sender tx)")
    case None
    with Some show ?thesis by (simp add: slot_def mp_remove_def)
  next
    case m: (Some m)
    have e: "fmlookup m k = None" if "fmdrop (tx_nonce tx) m = fmempty" "k \<noteq> tx_nonce tx" for k
      using arg_cong [OF that(1), of "\<lambda>m. fmlookup m k"] that(2) by simp
    show ?thesis
    proof (cases "fmdrop (tx_nonce tx) m = fmempty")
      case True
      then show ?thesis using Some m e [OF True] by (simp add: slot_def mp_remove_def)
    next
      case False
      then show ?thesis using Some m by (cases "s = tx_sender tx") (simp_all add: slot_def mp_remove_def)
    qed
  qed
qed

lemma mp_len_remove: "mp_len (mp_remove p i) = (if fmlookup (mp_txs p) i = None then mp_len p else mp_len p - 1)"
  by (auto simp: mp_len_def fcard.rep_eq card_Diff_singleton_if fmlookup_dom_iff)

lemma mp_len_store: "fmlookup (mp_txs p) i = None \<Longrightarrow> mp_len (mp_store i tx g p) = Suc (mp_len p)"
  by (simp add: mp_len_def fcard.rep_eq fmlookup_dom_iff [symmetric] fmdom_notI)

lemma pool_ok_remove:
  assumes "pool_ok X p"
  shows "pool_ok X (mp_remove p i)"
proof -
  have t: "table_ok X p" and ix: "index_ok p" and g: "generations_ok p" and l: "mp_len p \<le> MAX_PENDING_TXS"
    using assms by (simp_all add: pool_ok_def)
  have "table_ok X (mp_remove p i)"
    unfolding table_ok_def
  proof (intro allI impI)
    fix j tx assume j: "fmlookup (mp_txs (mp_remove p i)) j = Some tx"
    then have ji: "j \<noteq> i" and tx: "fmlookup (mp_txs p) j = Some tx" by (auto split: if_splits)
    note T = table_okD [OF t tx]
    have "\<not> (tx_sender tx = tx_sender u \<and> tx_nonce tx = tx_nonce u)" if "fmlookup (mp_txs p) i = Some u" for u
      using table_okD(2) [OF t that] T(2) ji by auto
    then have "slot (mp_remove p i) (tx_sender tx) (tx_nonce tx) = Some j"
      using T(2) by (auto simp: slot_remove split: option.splits)
    with T show "j = txid X tx \<and> slot (mp_remove p i) (tx_sender tx) (tx_nonce tx) = Some j
      \<and> tx_chain_id tx = mp_chain_id (mp_remove p i) \<and> verify_transaction X tx = Inr ()" by simp
  qed
  moreover have "index_ok (mp_remove p i)"
    unfolding index_ok_def
  proof (intro allI impI)
    fix s n j assume j: "slot (mp_remove p i) s n = Some j"
    then have old: "slot p s n = Some j" by (auto simp: slot_remove split: option.splits if_splits)
    from index_okD [OF ix this] obtain tx where tx: "fmlookup (mp_txs p) j = Some tx" "tx_sender tx = s" "tx_nonce tx = n" by blast
    then have "j \<noteq> i" using j by (auto simp: slot_remove)
    with tx show "\<exists>tx. fmlookup (mp_txs (mp_remove p i)) j = Some tx \<and> tx_sender tx = s \<and> tx_nonce tx = n" by simp
  qed
  moreover have "generations_ok (mp_remove p i)" using g by (simp add: generations_ok_def)
  moreover have "mp_len (mp_remove p i) \<le> MAX_PENDING_TXS" using l mp_len_remove [of p i] by (simp split: if_splits)
  ultimately show ?thesis by (simp add: pool_ok_def)
qed

lemma pool_ok_store:
  assumes "pool_ok X p" and "slot p (tx_sender tx) (tx_nonce tx) = None" and "fmlookup (mp_txs p) (txid X tx) = None"
    and "tx_chain_id tx = mp_chain_id p" and "verify_transaction X tx = Inr ()" and "g \<le> MAX_RBF_REPLACEMENTS"
    and "mp_len p < MAX_PENDING_TXS"
  shows "pool_ok X (mp_store (txid X tx) tx g p)"
proof -
  have t: "table_ok X p" and ix: "index_ok p" and gs: "generations_ok p" using assms(1) by (simp_all add: pool_ok_def)
  let ?q = "mp_store (txid X tx) tx g p"
  have "table_ok X ?q"
    unfolding table_ok_def
  proof (intro allI impI)
    fix j u assume j: "fmlookup (mp_txs ?q) j = Some u"
    show "j = txid X u \<and> slot ?q (tx_sender u) (tx_nonce u) = Some j \<and> tx_chain_id u = mp_chain_id ?q \<and> verify_transaction X u = Inr ()"
    proof (cases "j = txid X tx")
      case True
      then show ?thesis using j assms(4,5) by (simp add: slot_store)
    next
      case False
      then have u: "fmlookup (mp_txs p) j = Some u" using j by simp
      note T = table_okD [OF t u]
      have "\<not> (tx_sender u = tx_sender tx \<and> tx_nonce u = tx_nonce tx)" using T(2) assms(2) by (metis option.distinct(1))
      with T show ?thesis by (simp add: slot_store del: de_Morgan_conj)
    qed
  qed
  moreover have "index_ok ?q"
    unfolding index_ok_def
  proof (intro allI impI)
    fix s n j assume j: "slot ?q s n = Some j"
    show "\<exists>tx. fmlookup (mp_txs ?q) j = Some tx \<and> tx_sender tx = s \<and> tx_nonce tx = n"
    proof (cases "s = tx_sender tx \<and> n = tx_nonce tx")
      case True
      then show ?thesis using j by (simp add: slot_store)
    next
      case False
      then have "slot p s n = Some j" using j by (simp add: slot_store del: de_Morgan_conj)
      from index_okD [OF ix this] obtain u where u: "fmlookup (mp_txs p) j = Some u" "tx_sender u = s" "tx_nonce u = n" by blast
      then have "j \<noteq> txid X tx" using assms(3) by auto
      with u show ?thesis by simp
    qed
  qed
  moreover have "generations_ok ?q" using gs assms(6) by (simp add: generations_ok_def)
  moreover have "mp_len ?q \<le> MAX_PENDING_TXS" using assms(7) by (simp add: mp_len_store [OF assms(3)])
  ultimately show ?thesis by (simp add: pool_ok_def)
qed

lemma slot_remove_id:
  assumes "pool_ok X p"
  shows "slot (mp_remove p i) s n = (if slot p s n = Some i then None else slot p s n)"
proof -
  have t: "table_ok X p" and ix: "index_ok p" using assms by (simp_all add: pool_ok_def)
  show ?thesis
  proof (cases "fmlookup (mp_txs p) i")
    case None
    then have "slot p s n \<noteq> Some i" using index_okD [OF ix, of s n i] by auto
    then show ?thesis using None by (simp add: slot_remove)
  next
    case (Some tx)
    have "slot p s n = Some i \<longleftrightarrow> s = tx_sender tx \<and> n = tx_nonce tx"
      using table_okD(2) [OF t Some] index_okD [OF ix, of s n i] Some by auto
    then show ?thesis using Some by (simp add: slot_remove)
  qed
qed

lemma pool_ok_removes: "pool_ok X p \<Longrightarrow> pool_ok X (foldl mp_remove p ids)"
  by (induction ids arbitrary: p) (simp_all add: pool_ok_remove)

lemma slot_removes:
  assumes "pool_ok X p"
  shows "slot (foldl mp_remove p ids) s n = (case slot p s n of Some i \<Rightarrow> if i \<in> set ids then None else Some i | None \<Rightarrow> None)"
  using assms
proof (induction ids arbitrary: p)
  case Nil
  then show ?case by (simp split: option.splits)
next
  case (Cons i ids)
  then show ?case by (simp add: pool_ok_remove slot_remove_id split: option.splits)
qed

lemma removes_fields [simp]:
  "mp_chain_id (foldl mp_remove p ids) = mp_chain_id p"
  "fmlookup (mp_txs (foldl mp_remove p ids)) i = (if i \<in> set ids then None else fmlookup (mp_txs p) i)"
  by (induction ids arbitrary: p) auto

lemma mp_len_removes: "mp_len (foldl mp_remove p ids) \<le> mp_len p"
proof (induction ids arbitrary: p)
  case (Cons i ids)
  have "mp_len (mp_remove p i) \<le> mp_len p" using mp_len_remove [of p i] by (simp split: if_splits)
  with Cons [of "mp_remove p i"] show ?case by simp
qed simp

lemma mp_len_removes_less:
  assumes "fmlookup (mp_txs p) i = Some tx"
  shows "mp_len (foldl mp_remove p (i # ids)) < mp_len p"
proof -
  have "i |\<in>| fmdom (mp_txs p)" using assms by (rule fmdomI)
  then have "mp_len p \<noteq> 0" unfolding mp_len_def by auto
  then have "mp_len (mp_remove p i) < mp_len p" using mp_len_remove [of p i] assms by simp
  with mp_len_removes [of "mp_remove p i" ids] show ?thesis by simp
qed

section \<open>Insertion\<close>

lemma sorted_list_of_fmap_set: "(k, v) \<in> set (sorted_list_of_fmap m) \<longleftrightarrow> fmlookup m k = Some v"
  by (auto simp: sorted_list_of_fmap_def sorted_list_of_fset.rep_eq fmdom'_alt_def [symmetric] fmlookup_dom'_iff)

lemma find_replaceable_Nil: "find_replaceable p tx = [] \<longleftrightarrow> slot p (tx_sender tx) (tx_nonce tx) = None"
  by (simp add: find_replaceable_def slot_def split: option.splits)

lemma find_replaceable_Cons: "find_replaceable p tx = c # rest \<Longrightarrow> slot p (tx_sender tx) (tx_nonce tx) = Some c"
  by (simp add: find_replaceable_def slot_def split: option.splits)

lemma set_find_replaceable:
  assumes "slot p (tx_sender tx) (tx_nonce tx) \<noteq> None"
  shows "i \<in> set (find_replaceable p tx) \<longleftrightarrow>
    (\<exists>n. slot p (tx_sender tx) n = Some i \<and> (n = tx_nonce tx \<or> tx_nonce tx + 1 \<le> n))"
  using assms by (auto simp: find_replaceable_def slot_def sorted_list_of_fmap_set image_iff split: option.splits)

text \<open>The two ways in which a transaction enters the pool.\<close>

lemma mp_insert_Inr:
  assumes "mp_insert X p tx a = Inr (q, out)"
  shows "fmlookup (mp_txs p) (txid X tx) = None" and "verify_transaction X tx = Inr ()" and "tx_chain_id tx = mp_chain_id p"
    and "find_replaceable p tx = [] \<and> mp_len p < MAX_PENDING_TXS \<and> validate_against_pool p tx a [] = Inr ()
      \<and> q = mp_store (txid X tx) tx 0 p \<and> out = Accepted
    \<or> (\<exists>c rest old_tx g. find_replaceable p tx = c # rest \<and> fmlookup (mp_txs p) c = Some old_tx \<and> feerate_bump_ok old_tx tx
         \<and> g \<le> MAX_RBF_REPLACEMENTS \<and> validate_against_pool p tx a (c # rest) = Inr ()
         \<and> q = mp_store (txid X tx) tx g (foldl mp_remove p (c # rest)) \<and> out = Replaced (c # rest))"
proof -
  show "fmlookup (mp_txs p) (txid X tx) = None" "verify_transaction X tx = Inr ()" "tx_chain_id tx = mp_chain_id p"
    using assms by (auto simp: mp_insert_def Let_def split: if_splits)
  show "find_replaceable p tx = [] \<and> mp_len p < MAX_PENDING_TXS \<and> validate_against_pool p tx a [] = Inr ()
      \<and> q = mp_store (txid X tx) tx 0 p \<and> out = Accepted
    \<or> (\<exists>c rest old_tx g. find_replaceable p tx = c # rest \<and> fmlookup (mp_txs p) c = Some old_tx \<and> feerate_bump_ok old_tx tx
         \<and> g \<le> MAX_RBF_REPLACEMENTS \<and> validate_against_pool p tx a (c # rest) = Inr ()
         \<and> q = mp_store (txid X tx) tx g (foldl mp_remove p (c # rest)) \<and> out = Replaced (c # rest))"
  proof (cases "find_replaceable p tx")
    case Nil
    then show ?thesis using assms by (auto simp: mp_insert_def Let_def mp_len_def split: if_splits)
  next
    case (Cons c rest)
    then show ?thesis using assms by (auto simp: mp_insert_def Let_def not_less split: if_splits option.splits)
  qed
qed

lemma pool_ok_insert:
  assumes "pool_ok X p" and "mp_insert X p tx a = Inr (q, out)"
  shows "pool_ok X q"
proof -
  note I = mp_insert_Inr [OF assms(2)]
  consider (new) "find_replaceable p tx = []" "mp_len p < MAX_PENDING_TXS" "q = mp_store (txid X tx) tx 0 p"
    | (rbf) c rest old_tx g where "find_replaceable p tx = c # rest" "fmlookup (mp_txs p) c = Some old_tx"
        "g \<le> MAX_RBF_REPLACEMENTS" "q = mp_store (txid X tx) tx g (foldl mp_remove p (c # rest))"
    using I(4) by blast
  then show ?thesis
  proof cases
    case new
    have "slot p (tx_sender tx) (tx_nonce tx) = None" using new(1) by (simp add: find_replaceable_Nil)
    then show ?thesis using pool_ok_store [OF assms(1) _ I(1) I(3) I(2), of 0] new(2,3) by simp
  next
    case rbf
    let ?r = "foldl mp_remove p (c # rest)"
    have ok: "pool_ok X ?r" using assms(1) by (rule pool_ok_removes)
    have s: "slot ?r (tx_sender tx) (tx_nonce tx) = None"
      using find_replaceable_Cons [OF rbf(1)] slot_removes [OF assms(1), of "c # rest"] by simp
    have l: "mp_len ?r < MAX_PENDING_TXS"
      using mp_len_removes_less [OF rbf(2), of rest] assms(1) by (simp add: pool_ok_def)
    have n: "fmlookup (mp_txs ?r) (txid X tx) = None" using I(1) by simp
    have ch: "tx_chain_id tx = mp_chain_id ?r" using I(3) by simp
    show ?thesis unfolding rbf(4) by (rule pool_ok_store [OF ok s n ch I(2) rbf(3) l])
  qed
qed

section \<open>The pending transactions of a sender\<close>

definition pending_nonces :: "mempool \<Rightarrow> string \<Rightarrow> u64 set" where
  "pending_nonces p s = {n. slot p s n \<noteq> None}"

definition pending_tx :: "mempool \<Rightarrow> string \<Rightarrow> u64 \<Rightarrow> transaction" where
  "pending_tx p s n = the (fmlookup (mp_txs p) (the (slot p s n)))"

definition cost :: "transaction \<Rightarrow> nat" where
  "cost tx = unat (tx_value tx) + unat (tx_fee tx)"

text \<open>Consecutive nonces after the account's, whose transactions the balance covers.\<close>

definition consecutive :: "nat \<Rightarrow> nat set \<Rightarrow> bool" where
  "consecutive k N \<longleftrightarrow> N = {k<..k + card N}"

definition covered :: "mempool \<Rightarrow> string \<Rightarrow> account \<Rightarrow> bool" where
  "covered p s a \<longleftrightarrow> consecutive (unat (acc_nonce a)) (unat ` pending_nonces p s)
     \<and> (\<Sum>n\<in>pending_nonces p s. cost (pending_tx p s n)) \<le> unat (acc_balance a)"

definition kept :: "mempool \<Rightarrow> string \<Rightarrow> bytes list \<Rightarrow> u64 set" where
  "kept p s excluded = {n \<in> pending_nonces p s. the (slot p s n) \<notin> set excluded}"

lemma finite_kept [simp]: "finite (kept p s ex)" "finite (pending_nonces p s)"
  by simp_all

lemma kept_Nil [simp]: "kept p s [] = pending_nonces p s"
  by (simp add: kept_def)

lemma pending_ids_kept: "pending_ids p s ex = map (\<lambda>n. the (slot p s n)) (sorted_list_of_set (kept p s ex))"
proof (cases "fmlookup (by_sender p) s")
  case None
  then have "kept p s ex = {}" by (simp add: kept_def pending_nonces_def slot_def)
  then show ?thesis using None by (simp add: pending_ids_def)
next
  case (Some m)
  have slot: "slot p s n = fmlookup m n" for n using Some by (simp add: slot_def)
  have "pending_nonces p s = fmdom' m" by (auto simp: pending_nonces_def slot fmlookup_dom'_iff)
  then have "sorted_list_of_set (kept p s ex) = filter (\<lambda>n. the (fmlookup m n) \<notin> set ex) (sorted_list_of_set (fmdom' m))"
    by (intro sorted_distinct_set_unique) (auto simp: kept_def slot sorted_wrt_filter)
  then show ?thesis using Some
    by (simp add: pending_ids_def sorted_list_of_fmap_def sorted_list_of_fset.rep_eq fmdom'_alt_def slot filter_map comp_def)
qed

lemma pending_tx_lookup:
  assumes "index_ok p" and "n \<in> pending_nonces p s"
  shows "fmlookup (mp_txs p) (the (slot p s n)) = Some (pending_tx p s n)"
proof -
  from assms(2) obtain i where i: "slot p s n = Some i" by (auto simp: pending_nonces_def)
  with index_okD [OF assms(1) this] show ?thesis by (auto simp: pending_tx_def)
qed

lemma of_nat_cost: "of_nat (cost tx) = tx_value tx + tx_fee tx"
  by (simp add: cost_def)

lemma pending_spent_sum:
  assumes "index_ok p"
  shows "sum_list (map (\<lambda>t. tx_value t + tx_fee t) (List.map_filter (fmlookup (mp_txs p)) (pending_ids p s ex)))
    = of_nat (\<Sum>n\<in>kept p s ex. cost (pending_tx p s n))"
proof -
  have "List.map_filter (fmlookup (mp_txs p)) (pending_ids p s ex) = map (pending_tx p s) (sorted_list_of_set (kept p s ex))"
    unfolding pending_ids_kept List.map_filter_def
    using pending_tx_lookup [OF assms] by (auto simp: kept_def filter_map comp_def)
  then show ?thesis by (simp add: sum_list_distinct_conv_sum_set comp_def of_nat_cost)
qed

lemma length_pending_ids: "length (pending_ids p s ex) = card (kept p s ex)"
  by (simp add: pending_ids_kept)

lemma validate_against_pool_Inr:
  assumes "index_ok p" and "validate_against_pool p tx a ex = Inr ()"
    and "(\<Sum>n\<in>kept p (tx_sender tx) ex. cost (pending_tx p (tx_sender tx) n)) \<le> unat (acc_balance a)" and "cost tx < 2 ^ 64"
    and "tx_nonce tx \<notin> kept p (tx_sender tx) ex"
  shows "unat (tx_nonce tx) = unat (acc_nonce a) + card (kept p (tx_sender tx) ex) + 1"
    and "(\<Sum>n\<in>kept p (tx_sender tx) ex. cost (pending_tx p (tx_sender tx) n)) + cost tx \<le> unat (acc_balance a)"
proof -
  let ?K = "kept p (tx_sender tx) ex"
  let ?sum = "\<Sum>n\<in>?K. cost (pending_tx p (tx_sender tx) n)"
  have small: "?sum < 2 ^ 64" using assms(3) unat_bound [of "acc_balance a"] by simp
  then have sum: "unat (of_nat ?sum :: u64) = ?sum" by (simp add: unat_of_nat del: of_nat_sum)
  have tx: "unat (tx_value tx + tx_fee tx) = cost tx"
    unfolding of_nat_cost [symmetric] using assms(4) by (simp add: unat_of_nat)
  have ok: "validate_nonce (tx_nonce tx) (saturating_add (acc_nonce a) (of_nat (card ?K))) = Inr ()"
    and "\<not> tx_value tx + tx_fee tx > saturating_sub (acc_balance a) (of_nat ?sum)"
    using assms(2) by (auto simp: validate_against_pool_def Let_def pending_spent_sum [OF assms(1)] length_pending_ids split: if_splits)
  then show "?sum + cost tx \<le> unat (acc_balance a)"
    using assms(3) tx sum by (simp add: word_less_nat_alt unat_saturating_sub not_less)
  have "?K \<subset> UNIV" using assms(5) by blast
  then have "card ?K < 2 ^ 64" using psubset_card_mono [of "UNIV :: u64 set" ?K] by (simp add: card_word)
  then show "unat (tx_nonce tx) = unat (acc_nonce a) + card ?K + 1" using ok
    using unat_bound [of "tx_nonce tx"] by (simp add: validate_nonce_iff unat_saturating_add unat_of_nat min_def split: if_splits)
qed

lemma consecutive_iff: "consecutive k N \<Longrightarrow> n \<in> N \<longleftrightarrow> k < n \<and> n \<le> k + card N"
  unfolding consecutive_def by (metis greaterThanAtMost_iff)

lemma consecutive_interval: "consecutive k {k<..m}"
  by (auto simp: consecutive_def)

lemma consecutive_below:
  assumes "consecutive k N"
  shows "consecutive k {n \<in> N. n < c}"
proof -
  have "{n \<in> N. n < c} = {k<..min (k + card N) (c - 1)}" by (auto simp: consecutive_iff [OF assms])
  then show ?thesis by (simp only: consecutive_interval)
qed

lemma consecutive_insert:
  assumes "consecutive k N"
  shows "consecutive k (insert (k + card N + 1) N)"
proof -
  have "insert (k + card N + 1) N = {k<..k + card N + 1}" by (auto simp: consecutive_iff [OF assms])
  then show ?thesis by (simp only: consecutive_interval)
qed

lemma kept_replaceable:
  assumes "index_ok p" and "find_replaceable p tx = c # rest"
  shows "kept p (tx_sender tx) (c # rest) = (if tx_nonce tx + 1 = 0 then {} else {n \<in> pending_nonces p (tx_sender tx). n < tx_nonce tx})"
proof -
  let ?s = "tx_sender tx"
  have c: "slot p ?s (tx_nonce tx) \<noteq> None" using find_replaceable_Cons [OF assms(2)] by simp
  have inj: "n = n'" if "slot p ?s n = Some i" "slot p ?s n' = Some i" for n n' i
    using index_okD [OF assms(1) that(1)] index_okD [OF assms(1) that(2)] by auto
  have mem: "i \<in> set (c # rest) \<longleftrightarrow> n = tx_nonce tx \<or> tx_nonce tx + 1 \<le> n" if "slot p ?s n = Some i" for n i
  proof -
    have "i \<in> set (c # rest) \<longleftrightarrow> (\<exists>m. slot p ?s m = Some i \<and> (m = tx_nonce tx \<or> tx_nonce tx + 1 \<le> m))"
      unfolding assms(2) [symmetric] by (rule set_find_replaceable [OF c])
    also have "\<dots> \<longleftrightarrow> n = tx_nonce tx \<or> tx_nonce tx + 1 \<le> n" using that inj [OF that] by blast
    finally show ?thesis .
  qed
  have "n \<in> kept p ?s (c # rest) \<longleftrightarrow> n \<in> pending_nonces p ?s \<and> \<not> (n = tx_nonce tx \<or> tx_nonce tx + 1 \<le> n)" for n
    using mem [of n] by (auto simp: kept_def pending_nonces_def simp del: de_Morgan_disj)
  moreover have "\<not> (n = m \<or> m + 1 \<le> n) \<longleftrightarrow> m + 1 \<noteq> 0 \<and> n < m" for n m :: u64
  proof (cases "1 + m = 0")
    case False
    from unatSuc [OF this] show ?thesis using False
      by (auto simp: add.commute [of m] word_less_nat_alt word_le_nat_alt le_less word_unat_eq_iff)
  qed (simp add: add.commute)
  ultimately show ?thesis by auto
qed

lemma inserted_view:
  assumes "pool_ok X p" and "fmlookup (mp_txs p) (txid X tx) = None"
    and "q = mp_store (txid X tx) tx g (foldl mp_remove p ids)"
  shows "pending_nonces q (tx_sender tx) = insert (tx_nonce tx) (kept p (tx_sender tx) ids)"
    and "pending_tx q (tx_sender tx) (tx_nonce tx) = tx"
    and "n \<in> kept p (tx_sender tx) ids \<Longrightarrow> n \<noteq> tx_nonce tx \<Longrightarrow> pending_tx q (tx_sender tx) n = pending_tx p (tx_sender tx) n"
    and "s \<noteq> tx_sender tx \<Longrightarrow> slot q s n = (case slot p s n of Some i \<Rightarrow> if i \<in> set ids then None else Some i | None \<Rightarrow> None)"
proof -
  have ix: "index_ok p" using assms(1) by (simp add: pool_ok_def)
  have slot: "slot q s n = (if s = tx_sender tx \<and> n = tx_nonce tx then Some (txid X tx)
      else (case slot p s n of Some i \<Rightarrow> if i \<in> set ids then None else Some i | None \<Rightarrow> None))" for s n
    unfolding assms(3) by (simp add: slot_store slot_removes [OF assms(1)])
  have txs: "fmlookup (mp_txs q) i = (if i = txid X tx then Some tx else if i \<in> set ids then None else fmlookup (mp_txs p) i)" for i
    unfolding assms(3) by simp
  show "pending_nonces q (tx_sender tx) = insert (tx_nonce tx) (kept p (tx_sender tx) ids)"
    by (auto simp: pending_nonces_def kept_def slot split: option.splits if_splits)
  show "pending_tx q (tx_sender tx) (tx_nonce tx) = tx" by (simp add: pending_tx_def slot txs)
  show "s \<noteq> tx_sender tx \<Longrightarrow> slot q s n = (case slot p s n of Some i \<Rightarrow> if i \<in> set ids then None else Some i | None \<Rightarrow> None)"
    by (simp add: slot)
  assume n: "n \<in> kept p (tx_sender tx) ids" "n \<noteq> tx_nonce tx"
  then obtain i where i: "slot p (tx_sender tx) n = Some i" "i \<notin> set ids" by (auto simp: kept_def pending_nonces_def)
  then have "i \<noteq> txid X tx" using index_okD [OF ix i(1)] assms(2) by auto
  then show "pending_tx q (tx_sender tx) n = pending_tx p (tx_sender tx) n" using i n(2) by (simp add: pending_tx_def slot txs)
qed

text \<open>Both ways of insertion evict a list of ids, check against the rest and store.\<close>

lemma mp_insert_evicts:
  assumes "pool_ok X p" and "mp_insert X p tx a = Inr (q, out)"
  shows "\<exists>ids g. validate_against_pool p tx a ids = Inr () \<and> q = mp_store (txid X tx) tx g (foldl mp_remove p ids)
    \<and> (kept p (tx_sender tx) ids = pending_nonces p (tx_sender tx) \<or> kept p (tx_sender tx) ids = {}
        \<or> kept p (tx_sender tx) ids = {n \<in> pending_nonces p (tx_sender tx). n < tx_nonce tx})
    \<and> tx_nonce tx \<notin> kept p (tx_sender tx) ids \<and> (\<forall>i\<in>set ids. \<exists>n. slot p (tx_sender tx) n = Some i)
    \<and> out = (if ids = [] then Accepted else Replaced ids)"
proof -
  have ix: "index_ok p" using assms(1) by (simp add: pool_ok_def)
  consider (new) "find_replaceable p tx = []" "validate_against_pool p tx a [] = Inr ()" "q = mp_store (txid X tx) tx 0 p" "out = Accepted"
    | (rbf) c rest g where "find_replaceable p tx = c # rest" "validate_against_pool p tx a (c # rest) = Inr ()"
        "q = mp_store (txid X tx) tx g (foldl mp_remove p (c # rest))" "out = Replaced (c # rest)"
    using mp_insert_Inr(4) [OF assms(2)] by blast
  then show ?thesis
  proof cases
    case new
    have "tx_nonce tx \<notin> kept p (tx_sender tx) []" using new(1) by (simp add: find_replaceable_Nil pending_nonces_def)
    with new(2,3,4) show ?thesis by (intro exI [of _ "[]"] exI [of _ 0]) simp
  next
    case rbf
    have k: "kept p (tx_sender tx) (c # rest) = {} \<or> kept p (tx_sender tx) (c # rest) = {n \<in> pending_nonces p (tx_sender tx). n < tx_nonce tx}"
      by (simp add: kept_replaceable [OF ix rbf(1)])
    moreover from k have "tx_nonce tx \<notin> kept p (tx_sender tx) (c # rest)" by auto
    moreover have "\<exists>n. slot p (tx_sender tx) n = Some i" if "i \<in> set (c # rest)" for i
    proof -
      have "slot p (tx_sender tx) (tx_nonce tx) \<noteq> None" using find_replaceable_Cons [OF rbf(1)] by simp
      from set_find_replaceable [OF this, of i] that show ?thesis unfolding rbf(1) by blast
    qed
    ultimately show ?thesis using rbf(2,3,4) by (intro exI [of _ "c # rest"] exI [of _ g]) simp
  qed
qed

lemma card_unat_image [simp]: "card (unat ` N) = card N" for N :: "u64 set"
  by (intro card_image) (simp add: inj_on_def word_unat_eq_iff)

lemma covered_insert:
  assumes "pool_ok X p" and "mp_insert X p tx a = Inr (q, out)" and "covered p (tx_sender tx) a" and "cost tx < 2 ^ 64"
  shows "covered q (tx_sender tx) a"
proof -
  let ?s = "tx_sender tx"
  have ix: "index_ok p" using assms(1) by (simp add: pool_ok_def)
  obtain ids g where v: "validate_against_pool p tx a ids = Inr ()" and q: "q = mp_store (txid X tx) tx g (foldl mp_remove p ids)"
    and k: "kept p ?s ids = pending_nonces p ?s \<or> kept p ?s ids = {} \<or> kept p ?s ids = {n \<in> pending_nonces p ?s. n < tx_nonce tx}"
    and fresh: "tx_nonce tx \<notin> kept p ?s ids"
    using mp_insert_evicts [OF assms(1,2)] by (elim exE conjE)
  note V = inserted_view [OF assms(1) mp_insert_Inr(1) [OF assms(2)] q]
  have old: "consecutive (unat (acc_nonce a)) (unat ` pending_nonces p ?s)"
    "(\<Sum>n\<in>pending_nonces p ?s. cost (pending_tx p ?s n)) \<le> unat (acc_balance a)"
    using assms(3) by (simp_all add: covered_def)
  have "(\<Sum>n\<in>kept p ?s ids. cost (pending_tx p ?s n)) \<le> (\<Sum>n\<in>pending_nonces p ?s. cost (pending_tx p ?s n))"
    by (rule sum_mono2) (auto simp: kept_def)
  with old(2) have "(\<Sum>n\<in>kept p ?s ids. cost (pending_tx p ?s n)) \<le> unat (acc_balance a)" by simp
  note W = validate_against_pool_Inr [OF ix v this assms(4) fresh]
  have "consecutive (unat (acc_nonce a)) (unat ` kept p ?s ids)"
  proof -
    have "unat ` {n \<in> N. n < tx_nonce tx} = {n \<in> unat ` N. n < unat (tx_nonce tx)}" for N
      by (auto simp: word_less_nat_alt)
    with consecutive_below [OF old(1), of "unat (tx_nonce tx)"]
    have "consecutive (unat (acc_nonce a)) (unat ` {n \<in> pending_nonces p ?s. n < tx_nonce tx})" by (simp only:)
    moreover have "consecutive (unat (acc_nonce a)) (unat ` {})" by (simp add: consecutive_def)
    ultimately show ?thesis using k old(1) by (elim disjE; simp only:)
  qed
  from consecutive_insert [OF this] have "consecutive (unat (acc_nonce a)) (unat ` pending_nonces q ?s)"
    unfolding V(1) using W(1) by simp
  moreover have "(\<Sum>n\<in>kept p ?s ids. cost (pending_tx q ?s n)) = (\<Sum>n\<in>kept p ?s ids. cost (pending_tx p ?s n))"
  proof (rule sum.cong [OF refl])
    fix n assume n: "n \<in> kept p ?s ids"
    then have "n \<noteq> tx_nonce tx" using fresh by blast
    with n show "cost (pending_tx q ?s n) = cost (pending_tx p ?s n)" by (simp add: V(3))
  qed
  then have "(\<Sum>n\<in>pending_nonces q ?s. cost (pending_tx q ?s n)) \<le> unat (acc_balance a)"
    unfolding V(1) using W(2) fresh by (simp add: V(2))
  ultimately show ?thesis by (simp add: covered_def)
qed

lemma covered_insert_other:
  assumes "pool_ok X p" and "mp_insert X p tx a = Inr (q, out)" and "s \<noteq> tx_sender tx" and "covered p s b"
  shows "covered q s b"
proof -
  have ix: "index_ok p" using assms(1) by (simp add: pool_ok_def)
  obtain ids g where q: "q = mp_store (txid X tx) tx g (foldl mp_remove p ids)"
    and ids: "\<forall>i\<in>set ids. \<exists>n. slot p (tx_sender tx) n = Some i"
    using mp_insert_evicts [OF assms(1,2)] by (elim exE conjE)
  note new = mp_insert_Inr(1) [OF assms(2)]
  have keep: "i \<notin> set ids" "i \<noteq> txid X tx" if "slot p s n = Some i" for n i
    using index_okD [OF ix that] ids index_okD [OF ix] assms(3) new by fastforce+
  have slot: "slot q s n = slot p s n" for n
    using inserted_view(4) [OF assms(1) new q assms(3)] keep(1) by (auto split: option.splits)
  have "pending_tx q s n = pending_tx p s n" if "n \<in> pending_nonces p s" for n
  proof -
    from that obtain i where i: "slot p s n = Some i" by (auto simp: pending_nonces_def)
    have "fmlookup (mp_txs q) i = fmlookup (mp_txs p) i" unfolding q using keep [OF i] by simp
    then show ?thesis by (simp add: pending_tx_def slot i)
  qed
  then have "(\<Sum>n\<in>pending_nonces p s. cost (pending_tx q s n)) = (\<Sum>n\<in>pending_nonces p s. cost (pending_tx p s n))"
    by (intro sum.cong) simp_all
  moreover have "pending_nonces q s = pending_nonces p s" by (simp add: pending_nonces_def slot)
  ultimately show ?thesis using assms(4) by (simp add: covered_def)
qed

lemma lift_core_panic [simp]: "lift_core r = Inl (EPanic s) \<longleftrightarrow> r = Inl (Panic s)"
proof -
  have "from_core e = EPanic s \<longleftrightarrow> e = Panic s" for e by (cases e) simp_all
  then show ?thesis by (cases r) simp_all
qed

lemma decode_address_no_panic: "decode_address X a \<noteq> Inl (Panic s)"
  by (cases "bech32_decode X a"; cases "pk_from_slice X (snd (the (bech32_decode X a)))")
    (auto simp: decode_address_def bind_res_Inl_iff split: if_splits)

lemma verify_transaction_no_panic: "verify_transaction X tx \<noteq> Inl (Panic s)"
proof -
  have "recover_pubkey_from_sig X sig m \<noteq> Inl (Panic s)" for sig m
    by (cases "recover_ecdsa X (blake3 X m) (take 64 sig) (sig ! 64)") (simp_all add: recover_pubkey_from_sig_def)
  moreover have "verify_limits tx \<noteq> Inl (Panic s)" by (simp add: verify_limits_def split: transaction.splits)
  ultimately show ?thesis
    by (simp add: verify_transaction_def bind_res_Inl_iff decode_address_no_panic split: prod.splits)
qed

lemma validate_against_pool_no_panic: "validate_against_pool p tx a ex \<noteq> Inl (EPanic s)"
proof -
  have "validate_nonce n k \<noteq> Inl (Panic s)" for n k
    by (cases "checked_add k 1") (simp_all add: validate_nonce_def)
  then show ?thesis by (simp add: validate_against_pool_def Let_def bind_res_Inl_iff)
qed

lemma insert_no_panic:
  assumes "pool_ok X p"
  shows "mp_insert X p tx a \<noteq> Inl (EPanic s)"
proof (cases "find_replaceable p tx")
  case Nil
  then show ?thesis
    by (simp add: mp_insert_def Let_def bind_res_Inl_iff verify_transaction_no_panic validate_against_pool_no_panic)
next
  case (Cons c rest)
  have "index_ok p" using assms by (simp add: pool_ok_def)
  from index_okD [OF this find_replaceable_Cons [OF Cons]] obtain old_tx where "fmlookup (mp_txs p) c = Some old_tx" by blast
  with Cons show ?thesis
    by (simp add: mp_insert_def Let_def bind_res_Inl_iff verify_transaction_no_panic validate_against_pool_no_panic)
qed

end
