(* ===== verification/Sc_Node.thy ===== *)
theory Sc_Node
  imports Sc_Chain Sc_Mempool
begin

text \<open>
  The node's chain data and the operations on it: commit, mining, genesis and grants
  (\<open>src/blockchain/block_executor.rs\<close>), the pool entry point, validation and the migrations
  (\<open>state_cache.rs\<close>), adoption of a better chain (\<open>chain_selector.rs\<close>) and the facade
  (\<open>blockchain_facade.rs\<close>). The clock is an argument of the operations that read it. The database is
  left out: \<open>save_state\<close> writes to it and changes nothing else.
\<close>

section \<open>The node\<close>

record blockchain =
  nd_chain :: "block list"
  nd_balances :: state_cache
  nd_difficulty :: u32
  nd_mempool :: mempool
  nd_allow_grant_blocks :: bool
  nd_allow_zero_state_root :: bool
  nd_total_work :: u256
  nd_rules :: consensus_manager
  nd_chain_id :: u32
  nd_codes :: "(string, bytes) fmap"
  nd_receipts :: "receipt list"

text \<open>The parameters of a validation at the time \<open>now\<close>.\<close>

definition params :: "blockchain \<Rightarrow> u64 \<Rightarrow> chain_params" where
  "params n now = \<lparr>cp_now = now, cp_allow_grant_blocks = nd_allow_grant_blocks n,
     cp_allow_zero_state_root = nd_allow_zero_state_root n, cp_rules = nd_rules n, cp_chain_id = nd_chain_id n\<rparr>"

definition view_for :: "blockchain \<Rightarrow> u64 \<Rightarrow> u64 \<Rightarrow> block_view" where
  "view_for n now height = view_at (params n now) (nd_chain n) height (nd_codes n)"

definition calculate_hash :: "ext \<Rightarrow> block \<Rightarrow> node_error + string" where
  "calculate_hash X b = bind_res (lift_core (block_hash X b)) (\<lambda>hs. Inr (hex_encode X hs))"

text \<open>An operation that logs its error and returns; a panic is not such an error.\<close>

fun or_else :: "'a \<Rightarrow> node_error + 'a \<Rightarrow> node_error + 'a" where
  "or_else a (Inr b) = Inr b"
| "or_else a (Inl (EPanic s)) = Inl (EPanic s)"
| "or_else a (Inl e) = Inr a"

definition expect_last :: "block list \<Rightarrow> node_error + block" where
  "expect_last chain = (if chain = [] then Inl (EPanic ''unwrap'') else Inr (last chain))"

section \<open>Committing a block\<close>

definition remove_confirmed :: "ext \<Rightarrow> block \<Rightarrow> mempool \<Rightarrow> mempool" where
  "remove_confirmed X b p =
     foldl (\<lambda>p tx. if \<not> tx_is_coinbase tx then mp_remove p (txid X tx) else p) p (blk_transactions b)"

definition commit_block :: "ext \<Rightarrow> 'v host \<Rightarrow> u64 \<Rightarrow> blockchain \<Rightarrow> block \<Rightarrow> node_error + blockchain" where
  "commit_block X H now n b =
     bind_res (validate_and_apply X H (to_state (nd_balances n)) b (view_for n now (blk_index b))) (\<lambda>new_state.
       let n = n\<lparr>nd_receipts := st_receipts new_state, nd_balances := cache_commit new_state (nd_balances n),
             nd_codes := collect_block_codes X (nd_chain_id n) (nd_codes n) b,
             nd_mempool := remove_confirmed X b (nd_mempool n), nd_chain := nd_chain n @ [b]\<rparr>
       in bind_res (lift_core (cumulative_work X (nd_chain n))) (\<lambda>w. Inr (n\<lparr>nd_total_work := w\<rparr>)))"

section \<open>Genesis and grants\<close>

definition create_genesis_block :: "ext \<Rightarrow> 'v host \<Rightarrow> u64 \<Rightarrow> blockchain \<Rightarrow> node_error + blockchain" where
  "create_genesis_block X H now n =
     bind_res (lift_core (genesis_block X [tx_coinbase ''genesis'' ''initial_wallet_address'' 10000 (nd_chain_id n)]
         0 MAX_TARGET_HEX (expected_version (nd_rules n) 0))) (\<lambda>b.
       or_else n (bind_res
         (validate_and_apply X H state_new b (with_phase (phase_at (nd_rules n) 0)
           (block_view_new [] now (nd_allow_grant_blocks n) (expected_version (nd_rules n) 0) (nd_chain_id n)))) (\<lambda>new_state.
           let n = n\<lparr>nd_chain := nd_chain n @ [b], nd_receipts := st_receipts new_state,
                 nd_balances := cache_commit new_state (nd_balances n)\<rparr>
           in bind_res (lift_core (cumulative_work X (nd_chain n))) (\<lambda>w. Inr (n\<lparr>nd_total_work := w\<rparr>)))))"

definition grant_block :: "ext \<Rightarrow> u64 \<Rightarrow> blockchain \<Rightarrow> block \<Rightarrow> string \<Rightarrow> u64 \<Rightarrow> block" where
  "grant_block X now n previous_block wallet_address amount =
     (let height = blk_index previous_block + 1;
          txs = [tx_coinbase ''coinbase'' wallet_address 0 (nd_chain_id n),
                 tx_transfer ''initial_wallet_address'' wallet_address amount 0 (nd_chain_id n)]
      in \<lparr> blk_index = height, blk_timestamp = now, blk_transactions = txs, blk_previous_hash = blk_hash previous_block,
           blk_hash = [], blk_nonce = 0, blk_target = blk_target previous_block,
           blk_consensus_version = expected_version (nd_rules n) height, blk_state_root = zero32,
           blk_tx_root = compute_tx_root X txs, blk_receipts_root = zero32 \<rparr>)"

definition create_grant_block ::
  "ext \<Rightarrow> 'v host \<Rightarrow> u64 \<Rightarrow> blockchain \<Rightarrow> string \<Rightarrow> u64 \<Rightarrow> node_error + blockchain" where
  "create_grant_block X H now n wallet_address amount =
     bind_res (expect_last (nd_chain n)) (\<lambda>previous_block.
       let b = grant_block X now n previous_block wallet_address amount;
           parent_state = to_state (nd_balances n)
       in or_else n (
            bind_res (lift_core (apply_block X parent_state b (nd_chain_id n))) (\<lambda>post.
              let b = b\<lparr>blk_state_root := compute_root X (balances post), blk_receipts_root := receipts_root X (st_receipts post)\<rparr>
              in bind_res (calculate_hash X b) (\<lambda>hash.
                let b = b\<lparr>blk_hash := hash\<rparr>
                in bind_res (validate_and_apply X H parent_state b (view_for n now (blk_index b))) (\<lambda>new_state.
                  let n = n\<lparr>nd_chain := nd_chain n @ [b], nd_receipts := st_receipts new_state,
                        nd_balances := cache_commit new_state (nd_balances n)\<rparr>
                  in bind_res (lift_core (cumulative_work X (nd_chain n))) (\<lambda>w. Inr (n\<lparr>nd_total_work := w\<rparr>)))))))"

definition grant_initial_balance_to_first_wallet ::
  "ext \<Rightarrow> 'v host \<Rightarrow> u64 \<Rightarrow> blockchain \<Rightarrow> string \<Rightarrow> node_error + (blockchain \<times> bool)" where
  "grant_initial_balance_to_first_wallet X H now n wallet_address =
     (if \<not> nd_allow_grant_blocks n then Inl EGrantBlocksDisabled
      else if length (nd_chain n) \<noteq> 1 then Inr (n, False)
      else if cache_contains_key (nd_balances n) wallet_address then Inr (n, False)
      else if \<not> (cache_len (nd_balances n) = 1 \<and> cache_contains_key (nd_balances n) ''initial_wallet_address'')
      then Inr (n, False)
      else
        case cache_get (nd_balances n) ''initial_wallet_address'' of
          None \<Rightarrow> Inr (n, False)
        | Some a \<Rightarrow>
            if acc_balance a > 0
            then bind_res (create_grant_block X H now n wallet_address (acc_balance a)) (\<lambda>n. Inr (n, True))
            else Inr (n, False))"

text \<open>The block of a fresh database; \<open>file\<close> is the genesis file read and parsed.\<close>

definition install_fresh_genesis :: "ext \<Rightarrow> node_error + genesis_config \<Rightarrow> blockchain \<Rightarrow> node_error + blockchain" where
  "install_fresh_genesis X file n =
     (let chain_id = nd_chain_id n in
      bind_res
        (if is_regtest chain_id then regtest_genesis_block X (expected_version (nd_rules n) 0)
         else
           case genesis_file_for_chain chain_id of
             None \<Rightarrow> Inl (EPanic ''No genesis file configured'')
           | Some _ \<Rightarrow>
               (case load_genesis X file of
                  Inl _ \<Rightarrow> Inl (EPanic ''Failed to load genesis from genesis file'')
                | Inr b \<Rightarrow>
                    if (case blk_transactions b of [] \<Rightarrow> 0 | tx # _ \<Rightarrow> tx_chain_id tx) \<noteq> chain_id
                    then Inl (EPanic ''Genesis network mismatch'') else Inr b)) (\<lambda>b.
        case validate_genesis X b chain_id of
          Inl _ \<Rightarrow> Inl (EPanic ''Genesis validation failed'')
        | Inr _ \<Rightarrow>
            Inr (n\<lparr>nd_chain := nd_chain n @ [b],
              nd_balances := foldl (\<lambda>c tx.
                if tx_sender tx \<noteq> ''genesis'' then
                  (case tx_receiver tx of Some receiver \<Rightarrow> cache_credit receiver (tx_value tx) c | None \<Rightarrow> c)
                else c) (nd_balances n) (blk_transactions b)\<rparr>)))"

section \<open>Mining\<close>

text \<open>The block to mine, before a nonce is searched; \<open>None\<close> when its transactions do not apply.\<close>

definition mine_template ::
  "ext \<Rightarrow> 'v host \<Rightarrow> u64 \<Rightarrow> blockchain \<Rightarrow> block \<Rightarrow> transaction list \<Rightarrow> node_error + block option" where
  "mine_template X H now n previous_block txs =
     (let height = blk_index previous_block + 1 in
      bind_res (lift_core (median_time_past (nd_chain n) height)) (\<lambda>mtp.
      bind_res
        (if height mod RETARGET_INTERVAL = 0
         then bind_res (lift_core (compute_target X (nd_chain n))) (\<lambda>t. Inr (hex_encode X t))
         else Inr (blk_target previous_block)) (\<lambda>target.
        let b = \<lparr> blk_index = height, blk_timestamp = max now (mtp + 1), blk_transactions = txs,
              blk_previous_hash = blk_hash previous_block, blk_hash = [], blk_nonce = 0, blk_target = target,
              blk_consensus_version = expected_version (nd_rules n) height, blk_state_root = zero32,
              blk_tx_root = compute_tx_root X txs, blk_receipts_root = zero32 \<rparr>
        in or_else None (
             bind_res (apply_and_execute X H (to_state (nd_balances n)) b (view_for n now height)) (\<lambda>post.
               Inr (Some (b\<lparr>blk_state_root := compute_root X (balances post),
                 blk_receipts_root := receipts_root X (st_receipts post)\<rparr>)))))))"

text \<open>The search. \<open>shutdown i\<close> is what the \<open>i\<close>-th read of the flag gives; a search that never ends
  is \<open>None\<close>.\<close>

partial_function (option) mine_loop ::
  "ext \<Rightarrow> (nat \<Rightarrow> bool) \<Rightarrow> u256 \<Rightarrow> nat \<Rightarrow> block \<Rightarrow> (node_error + block option) option" where
  "mine_loop X shutdown target i b =
     (if shutdown i then Some (Inr None)
      else
        case bind_res (calculate_hash X b) (\<lambda>hash.
            bind_res (lift_core (target_array X hash)) (\<lambda>arr. Inr (hash, u256_from_bytes arr))) of
          Inl e \<Rightarrow> Some (Inl e)
        | Inr (hash, value) \<Rightarrow>
            if u256_le value target then Some (Inr (Some (b\<lparr>blk_hash := hash\<rparr>)))
            else mine_loop X shutdown target (i + 1) (b\<lparr>blk_nonce := blk_nonce b + 1\<rparr>))"

definition mine_block_inner ::
  "ext \<Rightarrow> 'v host \<Rightarrow> (nat \<Rightarrow> bool) \<Rightarrow> u64 \<Rightarrow> blockchain \<Rightarrow> block \<Rightarrow> transaction list \<Rightarrow> (node_error + block option) option" where
  "mine_block_inner X H shutdown now n previous_block txs =
     (case mine_template X H now n previous_block txs of
        Inl e \<Rightarrow> Some (Inl e)
      | Inr None \<Rightarrow> Some (Inr None)
      | Inr (Some b) \<Rightarrow>
          (case lift_core (target_array X (blk_target b)) of
             Inl e \<Rightarrow> Some (Inl e)
           | Inr arr \<Rightarrow> mine_loop X shutdown (u256_from_bytes arr) 0 b))"

text \<open>The coinbase goes to the first account of the cache.\<close>

definition mining_transactions :: "blockchain \<Rightarrow> transaction list" where
  "mining_transactions n =
     (let coinbase_amount = block_reward_at_height_for_chain (blk_index (last (nd_chain n)) + 1)
            (cache_total_supply (nd_balances n)) (nd_chain_id n);
          miner_address = (case cache_keys (nd_balances n) of [] \<Rightarrow> ''miner'' | a # _ \<Rightarrow> a)
      in tx_coinbase ''coinbase'' miner_address coinbase_amount (nd_chain_id n) # get_pending (nd_mempool n) 1000)"

text \<open>\<open>now\<close> is the time when the block is built, \<open>later\<close> the time when it is committed.\<close>

definition mine_block ::
  "ext \<Rightarrow> 'v host \<Rightarrow> (nat \<Rightarrow> bool) \<Rightarrow> u64 \<Rightarrow> u64 \<Rightarrow> blockchain \<Rightarrow> (node_error + (blockchain \<times> block option)) option" where
  "mine_block X H shutdown now later n =
     (if mp_is_empty (nd_mempool n) then Some (Inr (n, None))
      else if nd_chain n = [] then Some (Inl (EPanic ''unwrap''))
      else if get_pending (nd_mempool n) 1000 = [] then Some (Inr (n, None))
      else
        map_option (\<lambda>r. bind_res r (\<lambda>found.
            case found of
              None \<Rightarrow> Inr (n, None)
            | Some b \<Rightarrow> or_else (n, None) (bind_res (commit_block X H later n b) (\<lambda>n. Inr (n, Some b)))))
          (mine_block_inner X H shutdown now n (last (nd_chain n)) (mining_transactions n)))"

section \<open>The pool and the validation of the stored chain\<close>

text \<open>\<open>to_json\<close> is \<open>serde_json::to_vec\<close>.\<close>

definition add_transaction ::
  "ext \<Rightarrow> (transaction \<Rightarrow> bytes option) \<Rightarrow> blockchain \<Rightarrow> transaction \<Rightarrow> node_error + (blockchain \<times> insert_outcome)" where
  "add_transaction X to_json n tx =
     (if tx_sender tx = [] \<or> tx_receiver tx = Some [] then Inl (ESizeLimitExceeded ''empty address'')
      else
        bind_res (ok_or (to_json tx) ESerializationError) (\<lambda>json.
          if length json > MAX_TX_SIZE then Inl (ESizeLimitExceeded ''transaction'')
          else
            let account_state = (case cache_get (nd_balances n) (tx_sender tx) of Some a \<Rightarrow> a | None \<Rightarrow> account_default)
            in bind_res (mp_insert X (nd_mempool n) tx account_state) (\<lambda>(p, outcome).
                 Inr (n\<lparr>nd_mempool := p\<rparr>, outcome))))"

text \<open>The pending transactions spent one after the other; \<open>None\<close> when one cannot be paid.\<close>

definition spend_pending :: "state \<Rightarrow> transaction \<Rightarrow> state option" where
  "spend_pending s tx =
     (let required = tx_value tx + tx_fee tx;
          sender_balance = get_balance s (tx_sender tx)
      in if sender_balance < required then None
         else
           let s = set_balance (tx_sender tx) (saturating_sub sender_balance required) s
           in Some (case tx_receiver tx of
                None \<Rightarrow> s
              | Some receiver \<Rightarrow> set_balance receiver (saturating_add (get_balance s receiver) (tx_value tx)) s))"

definition block_within_limit :: "ext \<Rightarrow> block \<Rightarrow> node_error + bool" where
  "block_within_limit X b = bind_res (lift_core (serialize_block X b)) (\<lambda>bs. Inr (length bs \<le> MAX_BLOCK_SIZE))"

definition validate_chain :: "ext \<Rightarrow> 'v host \<Rightarrow> u64 \<Rightarrow> blockchain \<Rightarrow> node_error + bool" where
  "validate_chain X H now n =
     (if nd_chain n = [] then Inr False
      else
        bind_res (foldM (\<lambda>ok b. if \<not> ok then Inr False else block_within_limit X b) True (nd_chain n)) (\<lambda>sizes_ok.
          if \<not> sizes_ok then Inr False
          else
            or_else False (bind_res (rebuild_from_chain X H (params n now) (nd_chain n)) (\<lambda>(reconstructed, _).
              Inr (foldl (\<lambda>s tx. Option.bind s (\<lambda>s. spend_pending s tx)) (Some (to_state reconstructed))
                     (mp_transactions (nd_mempool n)) \<noteq> None
                   \<and> nonzero_balances reconstructed = nonzero_balances (nd_balances n))))))"

definition rebuild_state_cache :: "ext \<Rightarrow> 'v host \<Rightarrow> u64 \<Rightarrow> blockchain \<Rightarrow> node_error + blockchain" where
  "rebuild_state_cache X H now n =
     bind_res (rebuild_from_chain X H (params n now) (nd_chain n)) (\<lambda>(c, receipts).
       Inr (n\<lparr>nd_balances := c, nd_receipts := receipts, nd_codes := codes_from_chain X (nd_chain n) (nd_chain_id n)\<rparr>))"

section \<open>Migrations and opening\<close>

definition migrate_initial_wallet_balance :: "ext \<Rightarrow> 'v host \<Rightarrow> u64 \<Rightarrow> blockchain \<Rightarrow> node_error + blockchain" where
  "migrate_initial_wallet_balance X H now n =
     (if \<not> nd_allow_grant_blocks n \<or> length (nd_chain n) \<noteq> 1 then Inr n
      else
        case cache_get (nd_balances n) ''initial_wallet_address'' of
          None \<Rightarrow> Inr n
        | Some placeholder \<Rightarrow>
            (case filter (\<lambda>k. k \<noteq> ''initial_wallet_address'') (cache_keys (nd_balances n)) of
               [wallet] \<Rightarrow>
                 if cache_balance (nd_balances n) wallet \<noteq> 0 then Inr n
                 else create_grant_block X H now n wallet (acc_balance placeholder)
             | _ \<Rightarrow> Inr n))"

text \<open>\<open>base64\<close> is the decoder of the base64 crate.\<close>

definition legacy_key :: "ext \<Rightarrow> (string \<Rightarrow> bytes option) \<Rightarrow> string \<Rightarrow> pubkey option" where
  "legacy_key X base64 s =
     (case base64 s of
        None \<Rightarrow> None
      | Some pk_bytes \<Rightarrow> (case pk_from_slice X pk_bytes of Inl _ \<Rightarrow> None | Inr pk \<Rightarrow> Some pk))"

definition migrated_address :: "ext \<Rightarrow> (string \<Rightarrow> bytes option) \<Rightarrow> u32 \<Rightarrow> string \<Rightarrow> string option" where
  "migrated_address X base64 network_id addr =
     (if is_ok (decode_address X addr) then None
      else
        case legacy_key X base64 addr of
          None \<Rightarrow> None
        | Some pk \<Rightarrow> (case encode_address X pk network_id of Inl _ \<Rightarrow> None | Inr a \<Rightarrow> Some a))"

definition is_legacy_field :: "ext \<Rightarrow> (string \<Rightarrow> bytes option) \<Rightarrow> string \<Rightarrow> bool" where
  "is_legacy_field X base64 field \<longleftrightarrow>
     \<not> is_ok (decode_address X field)
     \<and> field \<notin> {''genesis'', ''coinbase'', ''initial_wallet_address'', ''regtest_initial_holder'', ''recipient''}
     \<and> legacy_key X base64 field \<noteq> None"

definition legacy_in_chain :: "ext \<Rightarrow> (string \<Rightarrow> bytes option) \<Rightarrow> block list \<Rightarrow> bool" where
  "legacy_in_chain X base64 chain =
     list_ex (\<lambda>b. list_ex (\<lambda>tx. list_ex (is_legacy_field X base64)
       [tx_sender tx, case tx_receiver tx of Some r \<Rightarrow> r | None \<Rightarrow> []]) (blk_transactions b)) chain"

definition migrate_addresses_to_bech32 ::
  "ext \<Rightarrow> (string \<Rightarrow> bytes option) \<Rightarrow> node_error + genesis_config \<Rightarrow> blockchain \<Rightarrow> node_error + blockchain" where
  "migrate_addresses_to_bech32 X base64 file n =
     (let migrate = migrated_address X base64 (nd_chain_id n);
          new_balances = foldl (\<lambda>m (addr, account).
            let new_addr = (case migrate addr of Some a \<Rightarrow> a | None \<Rightarrow> addr)
            in fmupd new_addr ((case fmlookup m new_addr of Some v \<Rightarrow> v | None \<Rightarrow> 0) + acc_balance account) m)
            fmempty (sorted_list_of_fmap (sc_accounts (nd_balances n)));
          n = (if list_ex (\<lambda>addr. migrate addr \<noteq> None) (cache_keys (nd_balances n))
               then n\<lparr>nd_balances := from_accounts (fmmap (\<lambda>balance. account_eoa balance 0) new_balances)\<rparr> else n)
      in if legacy_in_chain X base64 (nd_chain n)
         then install_fresh_genesis X file (n\<lparr>nd_chain := []\<rparr>)
         else Inr n)"

record persisted_state =
  ps_chain :: "block list option"
  ps_balances :: "(string, account) fmap option"
  ps_contract_storage :: "(string, contract_storage) fmap option"
  ps_difficulty :: "u32 option"
  ps_mempool_txs :: "transaction list"

text \<open>The pool a list of transactions gives, each checked against the account \<open>account_of\<close> names; the
  rejected ones are dropped.\<close>

definition insert_all ::
  "ext \<Rightarrow> (transaction \<Rightarrow> account) \<Rightarrow> mempool \<Rightarrow> transaction list \<Rightarrow> node_error + mempool" where
  "insert_all X account_of p txs =
     foldM (\<lambda>p tx. or_else p (bind_res (mp_insert X p tx (account_of tx)) (\<lambda>(p, _). Inr p))) p txs"

definition empty_node :: "u32 \<Rightarrow> u32 \<Rightarrow> bool \<Rightarrow> blockchain" where
  "empty_node difficulty chain_id permissive =
     \<lparr> nd_chain = [], nd_balances = state_cache_new, nd_difficulty = difficulty, nd_mempool = mempool_new chain_id,
       nd_allow_grant_blocks = permissive, nd_allow_zero_state_root = permissive, nd_total_work = u256_zero,
       nd_rules = consensus_manager_new, nd_chain_id = chain_id, nd_codes = fmempty, nd_receipts = [] \<rparr>"

definition open_blockchain ::
  "ext \<Rightarrow> 'v host \<Rightarrow> (string \<Rightarrow> bytes option) \<Rightarrow> node_error + genesis_config \<Rightarrow> u64 \<Rightarrow> persisted_state \<Rightarrow> u32
     \<Rightarrow> node_error + blockchain" where
  "open_blockchain X H base64 file now loaded chain_id =
     (let n = empty_node 1 chain_id False in
      bind_res (insert_all X (\<lambda>_. account_default) (nd_mempool n) (ps_mempool_txs loaded)) (\<lambda>p.
      let n = n\<lparr>nd_mempool := p\<rparr> in
      bind_res
        (case ps_chain loaded of
           Some chain \<Rightarrow>
             if chain \<noteq> [] \<and> \<not> is_ok (validate_genesis X (hd chain) chain_id)
             then Inl (EPanic ''Genesis validation failed'')
             else Inr (n\<lparr>nd_chain := chain\<rparr>)
         | None \<Rightarrow> install_fresh_genesis X file n) (\<lambda>n.
      let n = (case ps_balances loaded of Some m \<Rightarrow> n\<lparr>nd_balances := from_accounts m\<rparr> | None \<Rightarrow> n);
          n = (case ps_contract_storage loaded of
                 Some m \<Rightarrow> n\<lparr>nd_balances := set_contract_storage m (nd_balances n)\<rparr> | None \<Rightarrow> n);
          n = (case ps_difficulty loaded of Some d \<Rightarrow> n\<lparr>nd_difficulty := d\<rparr> | None \<Rightarrow> n) in
      bind_res (lift_core (cumulative_work X (nd_chain n))) (\<lambda>w.
      bind_res (migrate_initial_wallet_balance X H now (n\<lparr>nd_total_work := w\<rparr>)) (\<lambda>n.
      bind_res (migrate_addresses_to_bech32 X base64 file n) (\<lambda>n.
        Inr (n\<lparr>nd_codes := codes_from_chain X (nd_chain n) chain_id\<rparr>)))))))"

definition open_local :: "ext \<Rightarrow> 'v host \<Rightarrow> u64 \<Rightarrow> u32 \<Rightarrow> node_error + blockchain" where
  "open_local X H now chain_id = create_genesis_block X H now (empty_node 0 chain_id True)"

section \<open>Adoption\<close>

definition merge_tx ::
  "ext \<Rightarrow> block list \<Rightarrow> state_cache \<Rightarrow> mempool \<times> bytes list \<Rightarrow> transaction \<Rightarrow> node_error + (mempool \<times> bytes list)" where
  "merge_tx X candidate_chain rebuilt acc tx =
     (case acc of (merged, merged_txids) \<Rightarrow>
        if chain_has_tx X candidate_chain tx then Inr acc
        else if txid X tx \<in> set merged_txids then Inr acc
        else
          let account = (case cache_get rebuilt (tx_sender tx) of Some a \<Rightarrow> a | None \<Rightarrow> account_default)
          in or_else acc (bind_res (mp_insert X merged tx account) (\<lambda>(p, _). Inr (p, merged_txids @ [txid X tx]))))"

definition should_adopt :: "ext \<Rightarrow> block list \<Rightarrow> block list \<Rightarrow> node_error + bool" where
  "should_adopt X current candidate =
     (if length candidate \<le> 1 then Inr False
      else
        bind_res (lift_core (chain_info_of X candidate)) (\<lambda>candidate_info.
          case candidate_info of
            None \<Rightarrow> Inr False
          | Some ci \<Rightarrow>
              bind_res (lift_core (chain_info_of X current)) (\<lambda>current_info.
                Inr (case current_info of None \<Rightarrow> True | Some cur \<Rightarrow> is_better ci cur))))"

definition wire_balances_agree :: "(string, account) fmap option \<Rightarrow> state_cache \<Rightarrow> bool" where
  "wire_balances_agree wire rebuilt \<longleftrightarrow>
     (case wire of None \<Rightarrow> True | Some m \<Rightarrow> m = fmempty \<or> nonzero_of m = nonzero_balances rebuilt)"

definition install_candidate ::
  "ext \<Rightarrow> blockchain \<Rightarrow> block list \<Rightarrow> state_cache \<Rightarrow> receipt list \<Rightarrow> transaction list \<Rightarrow> u32 \<Rightarrow> node_error + blockchain" where
  "install_candidate X n candidate_chain rebuilt receipts candidate_txs difficulty =
     bind_res (foldM (merge_tx X candidate_chain rebuilt) (mempool_new (nd_chain_id n), [])
         (candidate_txs @ mp_transactions (nd_mempool n))) (\<lambda>(merged, _).
     bind_res (lift_core (cumulative_work X candidate_chain)) (\<lambda>w.
       Inr (n\<lparr>nd_chain := candidate_chain, nd_balances := rebuilt, nd_difficulty := difficulty, nd_total_work := w,
         nd_mempool := merged, nd_receipts := receipts, nd_codes := codes_from_chain X candidate_chain (nd_chain_id n)\<rparr>)))"

definition try_adopt_candidate ::
  "ext \<Rightarrow> 'v host \<Rightarrow> u64 \<Rightarrow> blockchain \<Rightarrow> block list \<Rightarrow> (string, account) fmap option \<Rightarrow> transaction list \<Rightarrow> u32
     \<Rightarrow> node_error + (blockchain \<times> bool)" where
  "try_adopt_candidate X H now n candidate_chain candidate_balances candidate_txs difficulty =
     bind_res (should_adopt X (nd_chain n) candidate_chain) (\<lambda>better.
       if \<not> better then Inr (n, False)
       else
         bind_res (or_else None (bind_res (rebuild_from_chain X H (params n now) candidate_chain) (\<lambda>r. Inr (Some r)))) (\<lambda>outcome.
           case outcome of
             None \<Rightarrow> Inr (n, False)
           | Some (rebuilt, receipts) \<Rightarrow>
               if \<not> wire_balances_agree candidate_balances rebuilt then Inr (n, False)
               else bind_res (install_candidate X n candidate_chain rebuilt receipts candidate_txs difficulty) (\<lambda>n.
                 Inr (n, True))))"

section \<open>The facade\<close>

text \<open>The lock is taken for the whole of a call, so that a call is one step of the node.\<close>

definition chain_tip :: "blockchain \<Rightarrow> block option" where
  "chain_tip n = (if nd_chain n = [] then None else Some (last (nd_chain n)))"

definition chain_tip_hash :: "blockchain \<Rightarrow> string" where
  "chain_tip_hash n = (case chain_tip n of Some b \<Rightarrow> blk_hash b | None \<Rightarrow> [])"

definition push_block_unchecked :: "block \<Rightarrow> blockchain \<Rightarrow> blockchain" where
  "push_block_unchecked b n = n\<lparr>nd_chain := nd_chain n @ [b]\<rparr>"

definition add_block :: "ext \<Rightarrow> 'v host \<Rightarrow> u64 \<Rightarrow> blockchain \<Rightarrow> block \<Rightarrow> node_error + blockchain" where
  "add_block X H now n b = commit_block X H now n b"

definition chain_contains_tx :: "ext \<Rightarrow> blockchain \<Rightarrow> transaction \<Rightarrow> bool" where
  "chain_contains_tx X n tx = chain_has_tx X (nd_chain n) tx"

definition facade_balance :: "blockchain \<Rightarrow> string \<Rightarrow> u64" where
  "facade_balance n address = cache_balance (nd_balances n) address"

definition facade_nonce :: "blockchain \<Rightarrow> string \<Rightarrow> u64" where
  "facade_nonce n address = cache_nonce (nd_balances n) address"

definition ensure_account :: "string \<Rightarrow> blockchain \<Rightarrow> blockchain" where
  "ensure_account address n = n\<lparr>nd_balances := cache_ensure_account address (nd_balances n)\<rparr>"

definition block_by_hash :: "blockchain \<Rightarrow> string \<Rightarrow> block option" where
  "block_by_hash n hash = find (\<lambda>b. blk_hash b = hash) (nd_chain n)"

definition chain_contains_block :: "blockchain \<Rightarrow> string \<Rightarrow> bool" where
  "chain_contains_block n hash = list_ex (\<lambda>b. blk_hash b = hash) (nd_chain n)"

text \<open>The identifiers of the evicted transactions are published as rejections with the reason
  \<open>Replaced\<close>.\<close>

definition facade_apply_tx ::
  "ext \<Rightarrow> (transaction \<Rightarrow> bytes option) \<Rightarrow> blockchain \<Rightarrow> transaction \<Rightarrow> node_error + (blockchain \<times> (string \<times> string) list)" where
  "facade_apply_tx X to_json n tx =
     bind_res (add_transaction X to_json n tx) (\<lambda>(n, outcome).
       Inr (n, case outcome of
         Accepted \<Rightarrow> []
       | Replaced evicted \<Rightarrow> map (\<lambda>evicted_id. (hex_encode X evicted_id, ''Replaced'')) evicted))"

definition set_allow_grant_blocks :: "bool \<Rightarrow> blockchain \<Rightarrow> blockchain" where
  "set_allow_grant_blocks allow n = n\<lparr>nd_allow_grant_blocks := allow\<rparr>"

definition set_allow_zero_state_root :: "bool \<Rightarrow> blockchain \<Rightarrow> blockchain" where
  "set_allow_zero_state_root allow n = n\<lparr>nd_allow_zero_state_root := allow\<rparr>"

record chain_snapshot =
  cs_chain :: "block list"
  cs_balances :: "(string, account) fmap"
  cs_difficulty :: u32
  cs_mempool_txs :: "transaction list"
  cs_total_work :: u256

definition snapshot_wire :: "blockchain \<Rightarrow> chain_snapshot" where
  "snapshot_wire n = \<lparr>cs_chain = nd_chain n, cs_balances = sc_accounts (nd_balances n), cs_difficulty = nd_difficulty n,
     cs_mempool_txs = [], cs_total_work = nd_total_work n\<rparr>"

definition adopt_wire :: "ext \<Rightarrow> 'v host \<Rightarrow> u64 \<Rightarrow> blockchain \<Rightarrow> chain_snapshot \<Rightarrow> node_error + (blockchain \<times> bool)" where
  "adopt_wire X H now n snapshot =
     try_adopt_candidate X H now n (cs_chain snapshot) (Some (cs_balances snapshot)) (cs_mempool_txs snapshot)
       (cs_difficulty snapshot)"

section \<open>The cache is the replay of the chain\<close>

definition node_ok :: "ext \<Rightarrow> 'v host \<Rightarrow> u64 \<Rightarrow> blockchain \<Rightarrow> bool" where
  "node_ok X H now n \<longleftrightarrow>
     (\<exists>s. replay X H (params n now) (nd_chain n) = Inr s \<and> nd_balances n = from_state s \<and> nd_receipts n = st_receipts s)
     \<and> nd_codes n = codes_from_chain X (nd_chain n) (nd_chain_id n)
     \<and> cumulative_work X (nd_chain n) = Inr (nd_total_work n)
     \<and> pool_ok X (nd_mempool n) \<and> mp_chain_id (nd_mempool n) = nd_chain_id n"

text \<open>Time passes.\<close>

lemma node_ok_later:
  assumes "node_ok X H t n" and "t \<le> now" and "unat now + 7200 < 2 ^ 64"
  shows "node_ok X H now n"
proof -
  obtain s where s: "replay X H (params n t) (nd_chain n) = Inr s" "nd_balances n = from_state s" "nd_receipts n = st_receipts s"
    using assms(1) by (auto simp: node_ok_def)
  have "replay X H ((params n t)\<lparr>cp_now := now\<rparr>) (nd_chain n) = Inr s"
    using s(1) assms(2,3) by (intro replay_later) (simp_all add: params_def)
  then show ?thesis using assms(1) s by (auto simp: node_ok_def params_def)
qed

lemma of_nat_unat_id: "of_nat (unat w) = w" for w :: u64
  by simp

text \<open>A block validated against the cache is validated by the replay, to the same ledger.\<close>

lemma replay_extend:
  assumes "replay X H (params n now) (nd_chain n) = Inr s" and "nd_balances n = from_state s"
    and "nd_codes n = codes_from_chain X (nd_chain n) (nd_chain_id n)"
    and "validate_and_apply X H (to_state (nd_balances n)) b (view_for n now (blk_index b)) = Inr t"
  obtains s' where "replay X H (params n now) (nd_chain n @ [b]) = Inr s'" and "from_state s' = from_state t"
    and "st_receipts s' = st_receipts t"
proof -
  have "state_eq (to_state (nd_balances n)) s" by (simp add: assms(2) to_state_from_state)
  then obtain s' where s': "validate_and_apply X H s b (view_for n now (blk_index b)) = Inr s'" "state_eq t s'"
    "st_receipts t = st_receipts s'"
    using validate_and_apply_ledger [OF assms(4)] by blast
  have "unat (blk_index b) = length (nd_chain n)"
    using accepted_follows [OF s'(1)] by (simp add: follows_def view_for_def)
  then have "blk_index b = of_nat (length (nd_chain n))" using of_nat_unat_id [of "blk_index b"] by simp
  moreover have "cp_chain_id (params n now) = nd_chain_id n" by (simp add: params_def)
  ultimately have "replay X H (params n now) (nd_chain n @ [b]) = Inr s'"
    using s'(1) assms(1,3) by (simp add: replay_snoc view_for_def)
  then show thesis using that s'(2,3) from_state_cong by metis
qed

lemma params_fields [simp]:
  "params (n\<lparr>nd_chain := c\<rparr>) = params n" "params (n\<lparr>nd_balances := d\<rparr>) = params n" "params (n\<lparr>nd_mempool := p\<rparr>) = params n"
  "params (n\<lparr>nd_receipts := r\<rparr>) = params n" "params (n\<lparr>nd_codes := m\<rparr>) = params n" "params (n\<lparr>nd_total_work := w\<rparr>) = params n"
  "params (n\<lparr>nd_difficulty := k\<rparr>) = params n"
  by (simp_all add: params_def fun_eq_iff)

lemma codes_snoc: "codes_from_chain X (chain @ [b]) chain_id = collect_block_codes X chain_id (codes_from_chain X chain chain_id) b"
  by (simp add: codes_from_chain_def)

lemma pool_ok_confirmed: "pool_ok X p \<Longrightarrow> pool_ok X (remove_confirmed X b p) \<and> mp_chain_id (remove_confirmed X b p) = mp_chain_id p"
proof -
  have "pool_ok X (foldl (\<lambda>p tx. if \<not> tx_is_coinbase tx then mp_remove p (txid X tx) else p) p txs)
      \<and> mp_chain_id (foldl (\<lambda>p tx. if \<not> tx_is_coinbase tx then mp_remove p (txid X tx) else p) p txs) = mp_chain_id p"
    if "pool_ok X p" for p txs using that by (induction txs arbitrary: p) (auto simp: pool_ok_remove)
  then show "pool_ok X p \<Longrightarrow> ?thesis" by (simp add: remove_confirmed_def)
qed

lemma node_ok_commit:
  assumes "node_ok X H now n" and "commit_block X H now n b = Inr n'"
  shows "node_ok X H now n'" and "nd_chain n' = nd_chain n @ [b]"
proof -
  obtain s where s: "replay X H (params n now) (nd_chain n) = Inr s" "nd_balances n = from_state s"
    using assms(1) by (auto simp: node_ok_def)
  have codes: "nd_codes n = codes_from_chain X (nd_chain n) (nd_chain_id n)" and pool: "pool_ok X (nd_mempool n)"
    "mp_chain_id (nd_mempool n) = nd_chain_id n"
    using assms(1) by (simp_all add: node_ok_def)
  obtain t w where t: "validate_and_apply X H (to_state (nd_balances n)) b (view_for n now (blk_index b)) = Inr t"
    and w: "cumulative_work X (nd_chain n @ [b]) = Inr w"
    and n': "n' = n\<lparr>nd_receipts := st_receipts t, nd_balances := from_state t,
      nd_codes := collect_block_codes X (nd_chain_id n) (nd_codes n) b,
      nd_mempool := remove_confirmed X b (nd_mempool n), nd_chain := nd_chain n @ [b], nd_total_work := w\<rparr>"
    using assms(2) by (auto simp: commit_block_def Let_def bind_res_Inr_iff)
  obtain s' where "replay X H (params n now) (nd_chain n @ [b]) = Inr s'" "from_state s' = from_state t" "st_receipts s' = st_receipts t"
    using replay_extend [OF s codes t] by blast
  then show "node_ok X H now n'" "nd_chain n' = nd_chain n @ [b]"
    using pool_ok_confirmed [OF pool(1), of b] pool(2) w by (auto simp: node_ok_def n' codes_snoc codes)
qed

lemma or_elseD: "or_else a r = Inr x \<Longrightarrow> r = Inr x \<or> x = a"
  by (induction a r rule: or_else.induct) simp_all

lemma insert_chain_id: "mp_insert X p tx a = Inr (q, out) \<Longrightarrow> mp_chain_id q = mp_chain_id p"
  using mp_insert_Inr(4) [of X p tx a q out] by auto

lemma node_ok_add_transaction:
  assumes "node_ok X H now n" and "add_transaction X to_json n tx = Inr (n', out)"
  shows "node_ok X H now n'"
proof -
  obtain a p where p: "mp_insert X (nd_mempool n) tx a = Inr (p, out)" and n': "n' = n\<lparr>nd_mempool := p\<rparr>"
    using assms(2) by (auto simp: add_transaction_def Let_def bind_res_Inr_iff split: if_splits)
  have "pool_ok X p" "mp_chain_id p = mp_chain_id (nd_mempool n)"
    using assms(1) pool_ok_insert [OF _ p] insert_chain_id [OF p] by (simp_all add: node_ok_def)
  then show ?thesis using assms(1) by (simp add: node_ok_def n')
qed

lemma merge_pool_ok:
  assumes "foldM (merge_tx X chain rebuilt) (p, ids) txs = Inr (q, ids')" and "pool_ok X p"
  shows "pool_ok X q \<and> mp_chain_id q = mp_chain_id p"
  using assms
proof (induction txs arbitrary: p ids)
  case (Cons tx txs)
  obtain p1 ids1 where step: "merge_tx X chain rebuilt (p, ids) tx = Inr (p1, ids1)"
    and rest: "foldM (merge_tx X chain rebuilt) (p1, ids1) txs = Inr (q, ids')"
    using Cons.prems(1) by (auto simp: bind_res_Inr_iff)
  from step consider "p1 = p" | a out where "mp_insert X p tx a = Inr (p1, out)"
    by (auto simp: merge_tx_def Let_def bind_res_Inr_iff dest!: or_elseD split: if_splits)
  then have "pool_ok X p1 \<and> mp_chain_id p1 = mp_chain_id p"
    using Cons.prems(2) pool_ok_insert insert_chain_id by cases (blast, blast)
  then show ?case using Cons.IH [OF rest] by simp
qed simp

lemma try_adopt_Inr:
  assumes "try_adopt_candidate X H now n chain wire txs difficulty = Inr (n', adopted)"
  shows "\<not> adopted \<Longrightarrow> n' = n"
    and "adopted \<Longrightarrow> \<exists>s. should_adopt X (nd_chain n) chain = Inr True \<and> replay X H (params n now) chain = Inr s
      \<and> wire_balances_agree wire (from_state s)
      \<and> install_candidate X n chain (from_state s) (st_receipts s) txs difficulty = Inr n'"
proof -
  show "\<not> adopted \<Longrightarrow> n' = n"
    using assms by (auto simp: try_adopt_candidate_def bind_res_Inr_iff split: if_splits option.splits)
  assume adopted
  with assms have better: "should_adopt X (nd_chain n) chain = Inr True"
    by (auto simp: try_adopt_candidate_def bind_res_Inr_iff split: if_splits)
  show "\<exists>s. should_adopt X (nd_chain n) chain = Inr True \<and> replay X H (params n now) chain = Inr s
      \<and> wire_balances_agree wire (from_state s)
      \<and> install_candidate X n chain (from_state s) (st_receipts s) txs difficulty = Inr n'"
  proof (cases "replay X H (params n now) chain")
    case (Inl e)
    then show ?thesis using assms better \<open>adopted\<close>
      by (cases e) (simp_all add: try_adopt_candidate_def rebuild_from_chain_def)
  next
    case (Inr s)
    then show ?thesis using assms better \<open>adopted\<close>
      by (auto simp: try_adopt_candidate_def rebuild_from_chain_def bind_res_Inr_iff split: if_splits)
  qed
qed

lemma install_candidate_Inr:
  assumes "install_candidate X n chain c receipts txs difficulty = Inr n'"
  obtains p w where "n' = n\<lparr>nd_chain := chain, nd_balances := c, nd_difficulty := difficulty, nd_total_work := w,
      nd_mempool := p, nd_receipts := receipts, nd_codes := codes_from_chain X chain (nd_chain_id n)\<rparr>"
    and "cumulative_work X chain = Inr w" and "pool_ok X p" and "mp_chain_id p = nd_chain_id n"
proof -
  obtain p ids w where p: "foldM (merge_tx X chain c) (mempool_new (nd_chain_id n), []) (txs @ mp_transactions (nd_mempool n)) = Inr (p, ids)"
    and w: "cumulative_work X chain = Inr w"
    and n': "n' = n\<lparr>nd_chain := chain, nd_balances := c, nd_difficulty := difficulty, nd_total_work := w,
      nd_mempool := p, nd_receipts := receipts, nd_codes := codes_from_chain X chain (nd_chain_id n)\<rparr>"
    using assms by (auto simp: install_candidate_def bind_res_Inr_iff)
  have "pool_ok X p \<and> mp_chain_id p = nd_chain_id n"
    using merge_pool_ok [OF p pool_ok_new] by (simp add: mempool_new_def)
  then show thesis using that [OF n' w] by simp
qed

lemma node_ok_adopt:
  assumes "node_ok X H now n" and "try_adopt_candidate X H now n chain wire txs difficulty = Inr (n', adopted)"
  shows "node_ok X H now n'"
proof (cases adopted)
  case False
  then show ?thesis using try_adopt_Inr(1) [OF assms(2)] assms(1) by simp
next
  case True
  obtain s where s: "replay X H (params n now) chain = Inr s"
    "install_candidate X n chain (from_state s) (st_receipts s) txs difficulty = Inr n'"
    using try_adopt_Inr(2) [OF assms(2) True] by blast
  from s(2) show ?thesis by (rule install_candidate_Inr) (use s(1) in \<open>auto simp: node_ok_def\<close>)
qed

lemma node_ok_rebuild:
  "node_ok X H now n \<Longrightarrow> rebuild_state_cache X H now n = Inr n' \<Longrightarrow> n' = n"
  by (auto simp: node_ok_def rebuild_state_cache_def rebuild_from_chain_def)

lemma node_ok_mine:
  assumes "node_ok X H now n" and "now \<le> later" and "unat later + 7200 < 2 ^ 64"
    and "mine_block X H shutdown now later n = Some (Inr (n', mined))"
  shows "node_ok X H later n'"
proof -
  have ok: "node_ok X H later n" using assms(1-3) by (rule node_ok_later)
  from assms(4) consider "n' = n" | b where "commit_block X H later n b = Inr n'"
    by (auto simp: mine_block_def Let_def bind_res_Inr_iff dest!: or_elseD split: if_splits option.splits)
  then show ?thesis using ok node_ok_commit(1) by cases auto
qed

text \<open>The blocks that create no contract leave the registry as it is.\<close>

lemma collect_no_create: "(\<And>c. Create c \<notin> set (blk_transactions b)) \<Longrightarrow> collect_block_codes X chain_id codes b = codes"
proof -
  assume "\<And>c. Create c \<notin> set (blk_transactions b)"
  then have "foldl (\<lambda>codes tx. case tx of
         Create c \<Rightarrow> (case derive_contract_address X (c_from c) (c_nonce c) chain_id of
              Inr address \<Rightarrow> fmupd address (c_init_code c) codes | Inl _ \<Rightarrow> codes)
       | _ \<Rightarrow> codes) codes xs = codes" if "set xs \<subseteq> set (blk_transactions b)" for xs
    using that by (induction xs) (auto split: transaction.splits)
  then show ?thesis by (simp add: collect_block_codes_def)
qed

lemma grant_no_create: "Create c \<notin> set (blk_transactions (grant_block X now n p w a))"
  by (simp add: grant_block_def Let_def tx_coinbase_def tx_transfer_def)

lemma node_ok_grant_block:
  assumes "node_ok X H now n" and "create_grant_block X H now n wallet amount = Inr n'"
  shows "node_ok X H now n'"
proof -
  obtain s where s: "replay X H (params n now) (nd_chain n) = Inr s" "nd_balances n = from_state s"
    using assms(1) by (auto simp: node_ok_def)
  have codes: "nd_codes n = codes_from_chain X (nd_chain n) (nd_chain_id n)" using assms(1) by (simp add: node_ok_def)
  consider "n' = n" | p b r q hash t w where "b = grant_block X now n p wallet amount\<lparr>blk_state_root := r, blk_receipts_root := q, blk_hash := hash\<rparr>"
      "validate_and_apply X H (to_state (nd_balances n)) b (view_for n now (blk_index b)) = Inr t"
      "cumulative_work X (nd_chain n @ [b]) = Inr w"
      "n' = n\<lparr>nd_chain := nd_chain n @ [b], nd_receipts := st_receipts t, nd_balances := from_state t, nd_total_work := w\<rparr>"
    using assms(2) by (auto simp: create_grant_block_def Let_def bind_res_Inr_iff dest!: or_elseD)
  then show ?thesis
  proof cases
    case 2
    obtain s' where "replay X H (params n now) (nd_chain n @ [b]) = Inr s'" "from_state s' = from_state t" "st_receipts s' = st_receipts t"
      using replay_extend [OF s codes 2(2)] by blast
    moreover have "collect_block_codes X (nd_chain_id n) (nd_codes n) b = nd_codes n"
      by (rule collect_no_create) (simp add: 2(1) grant_no_create)
    ultimately show ?thesis using 2(3,4) assms(1) by (auto simp: node_ok_def codes_snoc codes)
  qed (use assms(1) in simp)
qed

lemma node_ok_grant:
  "node_ok X H now n \<Longrightarrow> grant_initial_balance_to_first_wallet X H now n wallet = Inr (n', granted) \<Longrightarrow> node_ok X H now n'"
  using node_ok_grant_block
  by (auto simp: grant_initial_balance_to_first_wallet_def bind_res_Inr_iff split: if_splits option.splits)

end
