(* ===== verification/Sc_Reach.thy ===== *)
theory Sc_Reach
  imports Sc_Node
begin

text \<open>
  Runs of the node: the operations of the facade as steps of a transition system, the invariant of the
  reachable nodes, and what mining and adoption do to such a node.
\<close>

section \<open>Opening\<close>

lemma genesis_view:
  assumes "validate_and_apply X H s b (with_phase ph (block_view_new [] now g v chain_id)) = Inr t" and "blk_index b = 0"
  shows "validate_and_apply X H s b (with_codes fmempty (with_allow_zero_state_root z (with_phase ph (block_view_new [] now g v chain_id)))) = Inr t"
proof -
  let ?v = "with_phase ph (block_view_new [] now g v chain_id)"
  let ?w = "with_codes fmempty (with_allow_zero_state_root z ?v)"
  have "sorted_list_of_fmap (fmempty :: (string, bytes) fmap) = []"
    by (simp add: sorted_list_of_fmap_def sorted_list_of_fset.rep_eq)
  then have "seeded_vm H (bv_codes ?w) = seeded_vm H (bv_codes ?v)" by (simp add: block_view_defs seeded_vm_def)
  then have "apply_and_execute X H s b ?w = apply_and_execute X H s b ?v"
    by (simp add: apply_and_execute_def block_view_defs)
  moreover have "check_commitments X b ?w t = check_commitments X b ?v t"
    using assms(2) by (simp add: check_commitments_def)
  moreover have "verify_block_transactions X b ?w = verify_block_transactions X b ?v"
    by (simp add: verify_block_transactions_def block_view_defs cong: if_cong)
  then have "validate_block X b ?w = Inr () \<longleftrightarrow> validate_block X b ?v = Inr ()"
    by (simp add: validate_block_iff) (simp add: block_view_defs)
  ultimately show ?thesis using assms(1) by (simp add: validate_and_apply_iff)
qed

lemma genesis_block_index: "genesis_block X txs ts tg v = Inr b \<Longrightarrow>
    blk_index b = 0 \<and> blk_transactions b = txs \<and> blk_state_root b = zero32 \<and> blk_receipts_root b = zero32"
  by (auto simp: genesis_block_def Let_def bind_res_Inr_iff)

lemma node_ok_empty: "node_ok X H now (empty_node difficulty chain_id permissive)"
proof -
  have "mp_chain_id (mempool_new chain_id) = chain_id" by (simp add: mempool_new_def)
  then show ?thesis
    by (simp add: node_ok_def empty_node_def pool_ok_new codes_from_chain_def cumulative_work_def
      from_state_def state_new_def state_cache_new_def)
qed

lemma node_ok_genesis:
  assumes "node_ok X H now n" and "nd_chain n = []" and "create_genesis_block X H now n = Inr n'"
  shows "node_ok X H now n'"
proof -
  obtain b where b: "genesis_block X [tx_coinbase ''genesis'' ''initial_wallet_address'' 10000 (nd_chain_id n)]
      0 MAX_TARGET_HEX (expected_version (nd_rules n) 0) = Inr b"
    using assms(3) by (auto simp: create_genesis_block_def bind_res_Inr_iff)
  note g = genesis_block_index [OF b]
  consider "n' = n" | t w where
      "validate_and_apply X H state_new b (with_phase (phase_at (nd_rules n) 0)
        (block_view_new [] now (nd_allow_grant_blocks n) (expected_version (nd_rules n) 0) (nd_chain_id n))) = Inr t"
      "cumulative_work X [b] = Inr w"
      "n' = n\<lparr>nd_chain := [b], nd_receipts := st_receipts t, nd_balances := from_state t, nd_total_work := w\<rparr>"
    using assms(2,3) b by (auto simp: create_genesis_block_def Let_def bind_res_Inr_iff dest!: or_elseD)
  then show ?thesis
  proof cases
    case 2
    have "replay X H (params n now) [b] = Inr t"
      using genesis_view [OF 2(1)] g by (simp add: replay_def view_at_def params_def)
    moreover have "collect_block_codes X (nd_chain_id n) fmempty b = fmempty"
      by (rule collect_no_create) (simp add: g tx_coinbase_def)
    moreover have "nd_codes n = fmempty" using assms(1,2) by (simp add: node_ok_def codes_from_chain_def)
    ultimately show ?thesis using 2(2,3) assms(1) by (simp add: node_ok_def codes_from_chain_def)
  qed (use assms(1) in simp)
qed

lemma node_ok_open_local: "open_local X H now chain_id = Inr n \<Longrightarrow> node_ok X H now n"
  unfolding open_local_def by (rule node_ok_genesis [OF node_ok_empty]) (simp_all add: empty_node_def)

section \<open>Runs\<close>

text \<open>The clock does not go back and is far from its end.\<close>

abbreviation clock_ok :: "u64 \<Rightarrow> u64 \<Rightarrow> bool" where
  "clock_ok t now \<equiv> t \<le> now \<and> unat now + 7200 < 2 ^ 64"

inductive node_step ::
  "ext \<Rightarrow> 'v host \<Rightarrow> (transaction \<Rightarrow> bytes option) \<Rightarrow> u64 \<times> blockchain \<Rightarrow> u64 \<times> blockchain \<Rightarrow> bool"
  for X :: ext and H :: "'v host" and to_json :: "transaction \<Rightarrow> bytes option" where
  tick: "clock_ok t now \<Longrightarrow> node_step X H to_json (t, n) (now, n)"
| block: "clock_ok t now \<Longrightarrow> add_block X H now n b = Inr n' \<Longrightarrow> node_step X H to_json (t, n) (now, n')"
| pool: "clock_ok t now \<Longrightarrow> facade_apply_tx X to_json n tx = Inr (n', evicted) \<Longrightarrow> node_step X H to_json (t, n) (now, n')"
| adopt: "clock_ok t now \<Longrightarrow> try_adopt_candidate X H now n chain wire txs difficulty = Inr (n', adopted) \<Longrightarrow>
    node_step X H to_json (t, n) (now, n')"
| mine: "clock_ok t now \<Longrightarrow> clock_ok now later \<Longrightarrow> mine_block X H shutdown now later n = Some (Inr (n', mined)) \<Longrightarrow>
    node_step X H to_json (t, n) (later, n')"
| grant: "clock_ok t now \<Longrightarrow> grant_initial_balance_to_first_wallet X H now n wallet = Inr (n', granted) \<Longrightarrow>
    node_step X H to_json (t, n) (now, n')"
| rebuild: "clock_ok t now \<Longrightarrow> rebuild_state_cache X H now n = Inr n' \<Longrightarrow> node_step X H to_json (t, n) (now, n')"

lemma node_step_ok:
  assumes "node_step X H to_json p q" and "node_ok X H (fst p) (snd p)"
  shows "node_ok X H (fst q) (snd q)"
  using assms
proof (induction rule: node_step.induct)
  case (tick t now n)
  then show ?case using node_ok_later by auto
next
  case (block t now n b n')
  then show ?case using node_ok_later [of X H t n now] node_ok_commit(1) by (auto simp: add_block_def)
next
  case (pool t now n tx n' evicted)
  then show ?case using node_ok_later [of X H t n now] node_ok_add_transaction
    by (auto simp: facade_apply_tx_def bind_res_Inr_iff)
next
  case (adopt t now n chain wire txs difficulty n' adopted)
  then show ?case using node_ok_later [of X H t n now] node_ok_adopt by auto
next
  case (mine t now later shutdown n n' mined)
  then show ?case using node_ok_later [of X H t n now] node_ok_mine by auto
next
  case (grant t now n wallet n' granted)
  then show ?case using node_ok_later [of X H t n now] node_ok_grant by auto
next
  case (rebuild t now n n')
  then show ?case using node_ok_later [of X H t n now] node_ok_rebuild [of X H now n n'] by auto
qed

text \<open>What every step keeps holds along a run.\<close>

locale preserved =
  fixes step :: "'a \<Rightarrow> 'a \<Rightarrow> bool" and inv :: "'a \<Rightarrow> bool"
  assumes keeps: "step p q \<Longrightarrow> inv p \<Longrightarrow> inv q"
begin

lemma run_keeps: "step\<^sup>*\<^sup>* p q \<Longrightarrow> inv p \<Longrightarrow> inv q"
  by (induction rule: rtranclp_induct) (auto intro: keeps)

end

interpretation node_runs: preserved "node_step X H to_json" "\<lambda>p. node_ok X H (fst p) (snd p)"
  for X :: ext and H :: "'v host" and to_json :: "transaction \<Rightarrow> bytes option"
  by unfold_locales (rule node_step_ok)

lemma node_run_ok:
  assumes "(node_step X H to_json)\<^sup>*\<^sup>* (t, n) (t', n')" and "node_ok X H t n"
  shows "node_ok X H t' n'"
  using node_runs.run_keeps [OF assms(1)] assms(2) by simp

lemma node_ok_linked: "node_ok X H now n \<Longrightarrow> linked X (nd_chain n)"
  by (auto simp: node_ok_def dest: replay_linked)

section \<open>Adoption\<close>

lemma chain_info_work: "chain_info_of X chain = Inr (Some i) \<Longrightarrow> cumulative_work X chain = Inr (total_work i) \<and> chain \<noteq> []"
  by (auto simp: chain_info_of_def Let_def bind_res_Inr_iff split: if_splits)

lemma cumulative_work_length: "cumulative_work X chain = Inr w \<Longrightarrow> length w = 4"
  using cumulative_work_val by blast

lemma is_better_work:
  "is_better a b \<Longrightarrow> length (total_work a) = 4 \<Longrightarrow> length (total_work b) = 4 \<Longrightarrow> limbs_val (total_work b) \<le> limbs_val (total_work a)"
  by (auto simp: is_better_def u256_simps split: if_splits)

lemma or_else_ok: "\<forall>s. r \<noteq> Inl (EPanic s) \<Longrightarrow> \<exists>x. or_else a r = Inr x"
  by (induction a r rule: or_else.induct) simp_all

lemma merge_tx_ok:
  assumes "pool_ok X p"
  shows "\<exists>r. merge_tx X chain rebuilt (p, ids) tx = Inr r"
proof -
  have "bind_res (mp_insert X p tx a) (\<lambda>(q, _). Inr (q, ids @ [i])) \<noteq> Inl (EPanic s)" for a i s
    using insert_no_panic [OF assms, of tx a s] by (simp add: bind_res_Inl_iff split: prod.splits)
  then have "\<exists>x. or_else (p, ids) (bind_res (mp_insert X p tx a) (\<lambda>(q, _). Inr (q, ids @ [i]))) = Inr x" for a i
    by (intro or_else_ok allI)
  then show ?thesis by (cases "chain_has_tx X chain tx"; cases "txid X tx \<in> set ids"; simp only: merge_tx_def Let_def prod.case if_True if_False)
    blast+
qed

lemma merge_ok:
  assumes "pool_ok X p"
  shows "\<exists>r. foldM (merge_tx X chain rebuilt) (p, ids) txs = Inr r"
  using assms
proof (induction txs arbitrary: p ids)
  case (Cons tx txs)
  obtain q ids1 where step: "merge_tx X chain rebuilt (p, ids) tx = Inr (q, ids1)" using merge_tx_ok [OF Cons.prems] by force
  then have "pool_ok X q" using merge_pool_ok [of X chain rebuilt p ids "[tx]" q ids1] Cons.prems by simp
  from Cons.IH [OF this, of ids1] step show ?case by simp
qed simp

lemma install_candidate_ok:
  "linked X chain \<Longrightarrow> \<exists>n'. install_candidate X n chain c receipts txs difficulty = Inr n'"
  using linked_work [of X chain] merge_ok [OF pool_ok_new, of X chain c "nd_chain_id n" "[]" "txs @ mp_transactions (nd_mempool n)"]
  by (auto simp: install_candidate_def)

definition beats :: "ext \<Rightarrow> block list \<Rightarrow> block list \<Rightarrow> bool" where
  "beats X candidate current \<longleftrightarrow> 1 < length candidate
     \<and> (current = [] \<or> (\<exists>a b. chain_info_of X candidate = Inr (Some a) \<and> chain_info_of X current = Inr (Some b) \<and> is_better a b))"

lemma linked_info: "linked X chain \<Longrightarrow> chain \<noteq> [] \<Longrightarrow> \<exists>i. chain_info_of X chain = Inr (Some i)"
  using linked_work [of X chain] by (auto simp: chain_info_of_def Let_def)

lemma should_adopt_beats:
  "linked X current \<Longrightarrow> linked X candidate \<Longrightarrow> should_adopt X current candidate = Inr True \<longleftrightarrow> beats X candidate current"
proof (cases "1 < length candidate")
  case True
  assume L: "linked X current" "linked X candidate"
  have "candidate \<noteq> []" using True by auto
  with L(2) obtain a where a: "chain_info_of X candidate = Inr (Some a)" using linked_info by blast
  show ?thesis
  proof (cases "current = []")
    case False
    with L(1) obtain b where "chain_info_of X current = Inr (Some b)" using linked_info by blast
    then show ?thesis using True False a by (simp add: should_adopt_def beats_def)
  qed (use True a in \<open>simp add: should_adopt_def beats_def chain_info_of_def [of X "[]"]\<close>)
qed (simp add: should_adopt_def beats_def)

lemma adopt_exact:
  assumes "node_ok X H now n"
  shows "(\<exists>n'. try_adopt_candidate X H now n chain wire txs difficulty = Inr (n', True)) \<longleftrightarrow>
    beats X chain (nd_chain n) \<and> (\<exists>s. replay X H (params n now) chain = Inr s \<and> wire_balances_agree wire (from_state s))"
proof
  assume "\<exists>n'. try_adopt_candidate X H now n chain wire txs difficulty = Inr (n', True)"
  then obtain s where s: "should_adopt X (nd_chain n) chain = Inr True" "replay X H (params n now) chain = Inr s"
    "wire_balances_agree wire (from_state s)" using try_adopt_Inr(2) by blast
  then show "beats X chain (nd_chain n) \<and> (\<exists>s. replay X H (params n now) chain = Inr s \<and> wire_balances_agree wire (from_state s))"
    using should_adopt_beats [OF node_ok_linked [OF assms] replay_linked] by blast
next
  assume R: "beats X chain (nd_chain n) \<and> (\<exists>s. replay X H (params n now) chain = Inr s \<and> wire_balances_agree wire (from_state s))"
  then obtain s where s: "replay X H (params n now) chain = Inr s" "wire_balances_agree wire (from_state s)" by blast
  have "should_adopt X (nd_chain n) chain = Inr True"
    using R should_adopt_beats [OF node_ok_linked [OF assms] replay_linked [OF s(1)]] by blast
  moreover obtain n' where "install_candidate X n chain (from_state s) (st_receipts s) txs difficulty = Inr n'"
    using install_candidate_ok [OF replay_linked [OF s(1)]] by blast
  ultimately show "\<exists>n'. try_adopt_candidate X H now n chain wire txs difficulty = Inr (n', True)"
    using s by (simp add: try_adopt_candidate_def rebuild_from_chain_def)
qed

lemma adopt_work:
  assumes "node_ok X H now n" and "try_adopt_candidate X H now n chain wire txs difficulty = Inr (n', True)"
  shows "nd_chain n' = chain" and "limbs_val (nd_total_work n) \<le> limbs_val (nd_total_work n')"
proof -
  obtain s where s: "should_adopt X (nd_chain n) chain = Inr True" "replay X H (params n now) chain = Inr s"
    "install_candidate X n chain (from_state s) (st_receipts s) txs difficulty = Inr n'"
    using try_adopt_Inr(2) [OF assms(2)] by blast
  have w: "nd_chain n' = chain \<and> cumulative_work X chain = Inr (nd_total_work n')"
    using s(3) by (rule install_candidate_Inr) simp
  then show "nd_chain n' = chain" by simp
  have cur: "cumulative_work X (nd_chain n) = Inr (nd_total_work n)" using assms(1) by (simp add: node_ok_def)
  have "beats X chain (nd_chain n)"
    using s(1) should_adopt_beats [OF node_ok_linked [OF assms(1)] replay_linked [OF s(2)]] by blast
  then consider "nd_chain n = []" | a b where "chain_info_of X chain = Inr (Some a)"
      "chain_info_of X (nd_chain n) = Inr (Some b)" "is_better a b" by (auto simp: beats_def)
  then show "limbs_val (nd_total_work n) \<le> limbs_val (nd_total_work n')"
  proof cases
    case 1
    then have "limbs_val (nd_total_work n) = 0" using cumulative_work_val(2) [OF cur] by simp
    then show ?thesis by simp
  next
    case 2
    have "total_work a = nd_total_work n'" "total_work b = nd_total_work n"
      using chain_info_work [OF 2(1)] chain_info_work [OF 2(2)] w cur by simp_all
    then show ?thesis using is_better_work [OF 2(3)] cumulative_work_val(1) [OF cur] cumulative_work_val(1) w by metis
  qed
qed

section \<open>The search for a nonce\<close>

definition solves :: "ext \<Rightarrow> u256 \<Rightarrow> block \<Rightarrow> bool" where
  "solves X target b \<longleftrightarrow> (\<exists>hs. block_hash X b = Inr hs \<and> u256_le (u256_from_bytes hs) target)"

definition with_nonce :: "block \<Rightarrow> nat \<Rightarrow> block" where
  "with_nonce b i = b\<lparr>blk_nonce := blk_nonce b + of_nat i\<rparr>"

definition hashable :: "ext \<Rightarrow> block \<Rightarrow> bool" where
  "hashable X b \<longleftrightarrow> (\<exists>hs. block_hash X b = Inr hs)"

lemma with_nonce_0 [simp]: "with_nonce b 0 = b"
  by (simp add: with_nonce_def)

lemma with_nonce_Suc: "with_nonce (b\<lparr>blk_nonce := blk_nonce b + 1\<rparr>) i = with_nonce b (Suc i)"
  by (simp add: with_nonce_def add.assoc)

lemma hashable_nonce: "hashable X (b\<lparr>blk_nonce := k\<rparr>) = hashable X b"
  by (auto simp: hashable_def block_hash_def serialize_block_header_def serialize_header_def header_def bind_res_Inr_iff
      split: option.splits)

lemma mine_loop_unfold:
  assumes "hash32 X" and "hex_ok X" and "hashable X b"
  shows "mine_loop X shutdown target i b =
    (if shutdown i then Some (Inr None)
     else if solves X target b then Some (Inr (Some (b\<lparr>blk_hash := projr (calculate_hash X b)\<rparr>)))
     else mine_loop X shutdown target (i + 1) (b\<lparr>blk_nonce := blk_nonce b + 1\<rparr>))"
proof -
  obtain hs where hs: "block_hash X b = Inr hs" using assms(3) by (auto simp: hashable_def)
  then have "length hs = 32" using assms(1) by (auto simp: block_hash_def bind_res_Inr_iff)
  then have "target_array X (hex_encode X hs) = Inr hs" using assms(2) by (simp add: target_array_def)
  then show ?thesis
    by (subst mine_loop.simps) (simp add: calculate_hash_def hs solves_def)
qed

lemma mine_loop_reaches:
  assumes "hash32 X" and "hex_ok X" and "hashable X b"
    and "\<And>j. j < i \<Longrightarrow> \<not> shutdown (k + j) \<and> \<not> solves X target (with_nonce b j)"
  shows "mine_loop X shutdown target k b = mine_loop X shutdown target (k + i) (with_nonce b i)"
  using assms(3,4)
proof (induction i arbitrary: k b)
  case (Suc i)
  have "\<not> shutdown k" "\<not> solves X target b" using Suc.prems(2) [of 0] by simp_all
  then have "mine_loop X shutdown target k b = mine_loop X shutdown target (k + 1) (b\<lparr>blk_nonce := blk_nonce b + 1\<rparr>)"
    by (subst mine_loop_unfold [OF assms(1,2) Suc.prems(1), of shutdown target k]) (simp only: if_False)
  also have "\<dots> = mine_loop X shutdown target (k + 1 + i) (with_nonce (b\<lparr>blk_nonce := blk_nonce b + 1\<rparr>) i)"
  proof (rule Suc.IH)
    show "\<not> shutdown (k + 1 + j) \<and> \<not> solves X target (with_nonce (b\<lparr>blk_nonce := blk_nonce b + 1\<rparr>) j)" if "j < i" for j
      using Suc.prems(2) [of "Suc j"] that by (simp add: with_nonce_Suc)
  qed (simp add: hashable_nonce Suc.prems(1))
  finally show ?case by (simp add: with_nonce_Suc)
qed simp

text \<open>A search that returns has been stopped or has found a nonce.\<close>

lemma mine_loop_cause:
  assumes "mine_loop X shutdown target k b = Some r" and "hash32 X" and "hex_ok X" and "hashable X b"
  shows "\<exists>i. shutdown (k + i) \<or> solves X target (with_nonce b i)"
proof -
  let ?P = "\<lambda>X shutdown target k b r. hash32 X \<longrightarrow> hex_ok X \<longrightarrow> hashable X b \<longrightarrow>
    (\<exists>i. shutdown (k + i) \<or> solves X target (with_nonce b i))"
  have "?P X shutdown target k b r"
  proof (rule mine_loop.raw_induct [where P = ?P, OF _ assms(1)], intro impI)
    fix loop :: "ext \<Rightarrow> (nat \<Rightarrow> bool) \<Rightarrow> u256 \<Rightarrow> nat \<Rightarrow> block \<Rightarrow> (node_error + block option) option"
    fix X shutdown target k b r
    assume IH: "\<And>X shutdown target k b r. loop X shutdown target k b = Some r \<Longrightarrow> ?P X shutdown target k b r"
      and body: "(if shutdown k then Some (Inr None)
        else case bind_res (calculate_hash X b) (\<lambda>hash.
              bind_res (lift_core (target_array X hash)) (\<lambda>arr. Inr (hash, u256_from_bytes arr))) of
            Inl e \<Rightarrow> Some (Inl e)
          | Inr (hash, value) \<Rightarrow>
              if u256_le value target then Some (Inr (Some (b\<lparr>blk_hash := hash\<rparr>)))
              else loop X shutdown target (k + 1) (b\<lparr>blk_nonce := blk_nonce b + 1\<rparr>)) = Some r"
      and laws: "hash32 X" "hex_ok X" and "hashable X b"
    then obtain hs where hs: "block_hash X b = Inr hs" by (auto simp: hashable_def)
    then have "length hs = 32" using laws(1) by (auto simp: block_hash_def bind_res_Inr_iff)
    then have arr: "target_array X (hex_encode X hs) = Inr hs" using laws(2) by (simp add: target_array_def)
    show "\<exists>i. shutdown (k + i) \<or> solves X target (with_nonce b i)"
    proof (cases "shutdown k \<or> solves X target b")
      case True
      then show ?thesis by (intro exI [of _ 0]) simp
    next
      case False
      then have "loop X shutdown target (k + 1) (b\<lparr>blk_nonce := blk_nonce b + 1\<rparr>) = Some r"
        using body arr hs by (simp add: calculate_hash_def solves_def)
      from IH [OF this] laws \<open>hashable X b\<close> obtain i where
        "shutdown (k + 1 + i) \<or> solves X target (with_nonce (b\<lparr>blk_nonce := blk_nonce b + 1\<rparr>) i)"
        by (auto simp: hashable_nonce)
      then show ?thesis by (intro exI [of _ "Suc i"]) (simp add: with_nonce_Suc)
    qed
  qed
  with assms(2-4) show ?thesis by simp
qed

text \<open>The search returns exactly when the flag is raised or a nonce solves the block, and it returns the
  first solution unless the flag came before it.\<close>

lemma mine_loop_returns:
  assumes "hash32 X" and "hex_ok X" and "hashable X b"
  shows "mine_loop X shutdown target 0 b \<noteq> None \<longleftrightarrow> (\<exists>i. shutdown i \<or> solves X target (with_nonce b i))"
proof
  assume "mine_loop X shutdown target 0 b \<noteq> None"
  then show "\<exists>i. shutdown i \<or> solves X target (with_nonce b i)"
    using mine_loop_cause [OF _ assms] by fastforce
next
  assume ex: "\<exists>i. shutdown i \<or> solves X target (with_nonce b i)"
  define i where "i = (LEAST i. shutdown i \<or> solves X target (with_nonce b i))"
  have i: "shutdown i \<or> solves X target (with_nonce b i)" unfolding i_def using ex by (rule LeastI_ex)
  have "\<not> shutdown (0 + j) \<and> \<not> solves X target (with_nonce b j)" if "j < i" for j
    using not_less_Least [of j "\<lambda>i. shutdown i \<or> solves X target (with_nonce b i)"] that by (simp add: i_def)
  then have "mine_loop X shutdown target 0 b = mine_loop X shutdown target (0 + i) (with_nonce b i)"
    by (rule mine_loop_reaches [OF assms])
  moreover have "hashable X (with_nonce b i)" using assms(3) by (simp add: with_nonce_def hashable_nonce)
  then have "mine_loop X shutdown target i (with_nonce b i) \<noteq> None"
    using i by (subst mine_loop_unfold [OF assms(1,2)]) auto
  ultimately show "mine_loop X shutdown target 0 b \<noteq> None" by simp
qed

lemma mine_loop_found:
  assumes "hash32 X" and "hex_ok X" and "hashable X b" and "mine_loop X shutdown target 0 b = Some (Inr (Some c))"
  obtains i hs where "c = with_nonce b i\<lparr>blk_hash := hex_encode X hs\<rparr>" and "block_hash X (with_nonce b i) = Inr hs"
    and "u256_le (u256_from_bytes hs) target"
proof -
  define i where "i = (LEAST i. shutdown i \<or> solves X target (with_nonce b i))"
  have ex: "\<exists>i. shutdown i \<or> solves X target (with_nonce b i)"
    using mine_loop_cause [OF assms(4,1,2,3)] by simp
  have i: "shutdown i \<or> solves X target (with_nonce b i)" unfolding i_def using ex by (rule LeastI_ex)
  have "\<not> shutdown (0 + j) \<and> \<not> solves X target (with_nonce b j)" if "j < i" for j
    using not_less_Least [of j "\<lambda>i. shutdown i \<or> solves X target (with_nonce b i)"] that by (simp add: i_def)
  then have "mine_loop X shutdown target 0 b = mine_loop X shutdown target (0 + i) (with_nonce b i)"
    by (rule mine_loop_reaches [OF assms(1-3)])
  moreover have "hashable X (with_nonce b i)" using assms(3) by (simp add: with_nonce_def hashable_nonce)
  ultimately have "(if shutdown i then Some (Inr None)
      else Some (Inr (Some (with_nonce b i\<lparr>blk_hash := projr (calculate_hash X (with_nonce b i))\<rparr>)))) = Some (Inr (Some c))"
    using assms(4) i by (simp add: mine_loop_unfold [OF assms(1,2), of "with_nonce b i"] split: if_splits)
  then have c: "c = with_nonce b i\<lparr>blk_hash := projr (calculate_hash X (with_nonce b i))\<rparr>" and "\<not> shutdown i"
    by (simp_all split: if_splits)
  with i obtain hs where "block_hash X (with_nonce b i) = Inr hs" "u256_le (u256_from_bytes hs) target"
    by (auto simp: solves_def)
  then show thesis using that c by (simp add: calculate_hash_def)
qed

section \<open>A mined block is accepted\<close>

text \<open>The executor reads the height, time and coinbase of the block context, never the header, whose seal
  is not known when the block is built.\<close>

definition header_blind :: "'v vm_executor \<Rightarrow> bool" where
  "header_blind V \<longleftrightarrow> (\<forall>v ctx h. vm_execute V v (ctx\<lparr>ctx_block := h\<rparr>) = vm_execute V v ctx
     \<and> vm_execute_constructor V v (ctx\<lparr>ctx_block := h\<rparr>) = vm_execute_constructor V v ctx)"

definition seal :: "block \<Rightarrow> bytes \<Rightarrow> bytes \<Rightarrow> u64 \<Rightarrow> string \<Rightarrow> block" where
  "seal b r q k hash = b\<lparr>blk_state_root := r, blk_receipts_root := q, blk_nonce := k, blk_hash := hash\<rparr>"

lemma seal_fields [simp]:
  "blk_index (seal b r q k h) = blk_index b" "blk_timestamp (seal b r q k h) = blk_timestamp b"
  "blk_transactions (seal b r q k h) = blk_transactions b" "blk_previous_hash (seal b r q k h) = blk_previous_hash b"
  "blk_target (seal b r q k h) = blk_target b" "blk_consensus_version (seal b r q k h) = blk_consensus_version b"
  "blk_tx_root (seal b r q k h) = blk_tx_root b" "blk_state_root (seal b r q k h) = r"
  "blk_receipts_root (seal b r q k h) = q" "blk_hash (seal b r q k h) = h"
  by (simp_all add: seal_def)

lemma seal_context: "frame_context s (seal b r q k h) = (\<lambda>ca ce v g i. (frame_context s b ca ce v g i)\<lparr>ctx_block := header (seal b r q k h)\<rparr>)"
  by (simp add: frame_context_def block_coinbase_def fun_eq_iff)

lemma seal_receipt: "transfer_receipt X tx (seal b r q k h) i ts = transfer_receipt X tx b i ts"
  by (simp add: transfer_receipt_def)

lemma seal_apply_tx:
  assumes "header_blind V"
  shows "apply_tx X V (seal b r q k h) chain_id = apply_tx X V b chain_id"
proof -
  have blind: "vm_execute V v (ctx\<lparr>ctx_block := d\<rparr>) = vm_execute V v ctx"
    "vm_execute_constructor V v (ctx\<lparr>ctx_block := d\<rparr>) = vm_execute_constructor V v ctx" for v ctx d
    using assms by (simp_all add: header_blind_def)
  have create: "apply_create X V s c chain_id v (seal b r q k h) i = apply_create X V s c chain_id v b i" for s c v i
    unfolding apply_create_def Let_def seal_context blind seal_fields ..
  have call: "apply_call X V s (seal b r q k h) c v i = apply_call X V s b c v i" for s c v i
    unfolding apply_call_def Let_def seal_context blind seal_fields ..
  show ?thesis unfolding apply_tx_def create call seal_receipt ..
qed

lemma seal_execute:
  assumes "header_blind (host_vm H)"
  shows "apply_and_execute X H s (seal b r q k h) v = apply_and_execute X H s b v"
proof -
  have "apply_genesis_tx X (seal b r q k h) cid = apply_genesis_tx X b cid" for cid
    unfolding apply_genesis_tx_def seal_receipt ..
  then have "apply_genesis X s (seal b r q k h) cid = apply_genesis X s b cid" for s cid
    by (simp add: apply_genesis_def)
  moreover have "apply_non_genesis X (host_vm H) s (seal b r q k h) cid w = apply_non_genesis X (host_vm H) s b cid w" for s cid w
    unfolding apply_non_genesis_def seal_fields seal_apply_tx [OF assms] seal_receipt ..
  ultimately show ?thesis by (simp add: apply_and_execute_def apply_block_with_vm_def apply_block_inner_def Let_def)
qed

text \<open>The limits that mining does not look at, and commitments other than zero.\<close>

definition block_fits :: "ext \<Rightarrow> 'v host \<Rightarrow> blockchain \<Rightarrow> block \<Rightarrow> bool" where
  "block_fits X H n b \<longleftrightarrow> enforce_size_limits X b = Inr () \<and> enforce_block_gas_limit (blk_transactions b) = Inr ()
     \<and> (case apply_and_execute X H (to_state (nd_balances n)) b (view_for n 0 (blk_index b)) of
          Inr s \<Rightarrow> enforce_receipt_gas_limit (st_receipts s) = Inr () | Inl _ \<Rightarrow> True)
     \<and> blk_state_root b \<noteq> zero32 \<and> blk_receipts_root b \<noteq> zero32"

lemma execute_any_time: "apply_and_execute X H s b (view_for n t h) = apply_and_execute X H s b (view_for n u k)"
  by (simp add: apply_and_execute_def view_for_def params_def)

definition base_block :: "ext \<Rightarrow> u64 \<Rightarrow> blockchain \<Rightarrow> transaction list \<Rightarrow> u64 \<Rightarrow> string \<Rightarrow> block" where
  "base_block X now n txs mtp target =
     (let p = last (nd_chain n); height = blk_index p + 1
      in \<lparr> blk_index = height, blk_timestamp = max now (mtp + 1), blk_transactions = txs, blk_previous_hash = blk_hash p,
           blk_hash = [], blk_nonce = 0, blk_target = target, blk_consensus_version = expected_version (nd_rules n) height,
           blk_state_root = zero32, blk_tx_root = compute_tx_root X txs, blk_receipts_root = zero32 \<rparr>)"

lemma block_hash_ignores_hash: "block_hash X (b\<lparr>blk_hash := h\<rparr>) = block_hash X b"
  by (simp add: block_hash_def serialize_block_header_def serialize_header_def header_def cong: option.case_cong if_cong)

lemma mine_template_Inr:
  assumes "mine_template X H now n (last (nd_chain n)) txs = Inr (Some b)"
  obtains mtp target post where
    "median_time_past (nd_chain n) (blk_index (last (nd_chain n)) + 1) = Inr mtp"
    and "(if (blk_index (last (nd_chain n)) + 1) mod RETARGET_INTERVAL = 0
         then \<exists>t. compute_target X (nd_chain n) = Inr t \<and> target = hex_encode X t
         else target = blk_target (last (nd_chain n)))"
    and "apply_and_execute X H (to_state (nd_balances n)) (base_block X now n txs mtp target)
      (view_for n now (blk_index (last (nd_chain n)) + 1)) = Inr post"
    and "b = base_block X now n txs mtp target\<lparr>blk_state_root := compute_root X (balances post),
      blk_receipts_root := receipts_root X (st_receipts post)\<rparr>"
  using assms
  by (auto simp: mine_template_def Let_def bind_res_Inr_iff base_block_def dest!: or_elseD split: if_splits)

lemma mined_seal:
  assumes "hash32 X" and "hex_ok X" and "linked X (nd_chain n)" and "nd_chain n \<noteq> []"
    and "mine_block_inner X H shutdown now n (last (nd_chain n)) txs = Some (Inr (Some b))"
  obtains mtp target post arr k hs where
    "median_time_past (nd_chain n) (blk_index (last (nd_chain n)) + 1) = Inr mtp"
    and "(if (blk_index (last (nd_chain n)) + 1) mod RETARGET_INTERVAL = 0
         then \<exists>t. compute_target X (nd_chain n) = Inr t \<and> target = hex_encode X t
         else target = blk_target (last (nd_chain n)))"
    and "apply_and_execute X H (to_state (nd_balances n)) (base_block X now n txs mtp target)
      (view_for n now (blk_index (last (nd_chain n)) + 1)) = Inr post"
    and "b = seal (base_block X now n txs mtp target) (compute_root X (balances post)) (receipts_root X (st_receipts post)) k
      (hex_encode X hs)"
    and "block_hash X b = Inr hs" and "target_array X target = Inr arr" and "u256_le (u256_from_bytes hs) (u256_from_bytes arr)"
proof -
  obtain b0 arr where b0: "mine_template X H now n (last (nd_chain n)) txs = Inr (Some b0)"
    and arr: "target_array X (blk_target b0) = Inr arr" and loop: "mine_loop X shutdown (u256_from_bytes arr) 0 b0 = Some (Inr (Some b))"
    using assms(5) by (auto simp: mine_block_inner_def split: sum.splits option.splits)
  obtain mtp target post where T: "median_time_past (nd_chain n) (blk_index (last (nd_chain n)) + 1) = Inr mtp"
    "(if (blk_index (last (nd_chain n)) + 1) mod RETARGET_INTERVAL = 0
         then \<exists>t. compute_target X (nd_chain n) = Inr t \<and> target = hex_encode X t
         else target = blk_target (last (nd_chain n)))"
    "apply_and_execute X H (to_state (nd_balances n)) (base_block X now n txs mtp target)
      (view_for n now (blk_index (last (nd_chain n)) + 1)) = Inr post"
    and b0_eq: "b0 = base_block X now n txs mtp target\<lparr>blk_state_root := compute_root X (balances post),
      blk_receipts_root := receipts_root X (st_receipts post)\<rparr>"
    using b0 by (rule mine_template_Inr)
  have tgt: "blk_target b0 = target" by (simp add: b0_eq base_block_def Let_def)
  obtain xs p where ch: "nd_chain n = xs @ [p]" using assms(4) by (cases "nd_chain n" rule: rev_cases) auto
  then obtain ph where "blk_hash p = hex_encode X ph" "block_hash X p = Inr ph"
    using assms(3) by (auto simp: linked_snoc follows_def)
  then have "blk_previous_hash b0 = hex_encode X ph" "length ph = 32"
    using ch assms(1) by (auto simp: b0_eq base_block_def Let_def block_hash_def bind_res_Inr_iff)
  then have "hashable X b0"
    using arr assms(2) by (auto simp: hashable_def block_hash_def serialize_block_header_def serialize_header_def header_def
        write_bytes32_def target_array_def bind_res_Inr_iff split: option.splits if_splits)
  from mine_loop_found [OF assms(1,2) this loop] obtain i hs where
    c: "b = with_nonce b0 i\<lparr>blk_hash := hex_encode X hs\<rparr>" "block_hash X (with_nonce b0 i) = Inr hs"
    "u256_le (u256_from_bytes hs) (u256_from_bytes arr)" by blast
  have "b = seal (base_block X now n txs mtp target) (compute_root X (balances post)) (receipts_root X (st_receipts post)) (of_nat i)
      (hex_encode X hs)"
    by (simp add: c(1) b0_eq seal_def with_nonce_def base_block_def Let_def)
  moreover have "block_hash X b = Inr hs" using c(2) by (simp add: c(1) block_hash_ignores_hash)
  ultimately show thesis using that T arr c(3) tgt by blast
qed

lemma pool_verifies:
  assumes "pool_ok X p" and "tx \<in> set (mp_transactions p)"
  shows "tx_chain_id tx = mp_chain_id p \<and> verify_transaction X tx = Inr ()"
proof -
  obtain i where "fmlookup (mp_txs p) i = Some tx"
    using assms(2) by (auto simp: mp_transactions_def sorted_list_of_fmap_set)
  then show ?thesis using assms(1) table_okD(3,4) [of X p i tx] by (simp add: pool_ok_def)
qed

lemma foldM_unit: "(\<And>x. x \<in> set xs \<Longrightarrow> f x = Inr ()) \<Longrightarrow> foldM (\<lambda>_ x. f x) () xs = Inr ()"
  by (induction xs) simp_all

lemma mining_verifies:
  assumes "node_ok X H now n" and "blk_transactions b = mining_transactions n"
  shows "verify_block_transactions X b (view_for n later h) = Inr ()"
proof -
  have ok: "pool_ok X (nd_mempool n)" "mp_chain_id (nd_mempool n) = nd_chain_id n" using assms(1) by (simp_all add: node_ok_def)
  have "tx_chain_id tx = nd_chain_id n \<and> verify_transaction X tx = Inr ()" if "tx \<in> set (mining_transactions n)" for tx
  proof (cases "tx \<in> set (mp_transactions (nd_mempool n))")
    case True
    then show ?thesis using pool_verifies [OF ok(1)] ok(2) by simp
  next
    case False
    then have "tx_is_coinbase tx \<and> tx_chain_id tx = nd_chain_id n"
      using that set_take_subset [of 1000 "mp_transactions (nd_mempool n)"]
      by (auto simp: mining_transactions_def Let_def get_pending_def tx_coinbase_def)
    then show ?thesis by (simp add: verify_transaction_def)
  qed
  then show ?thesis
    by (simp add: verify_block_transactions_def view_for_def params_def assms(2) foldM_unit)
qed

lemma last_index:
  assumes "linked X chain" and "chain \<noteq> []" and "length chain < 2 ^ 64"
  shows "unat (blk_index (last chain) + 1) = length chain"
proof -
  obtain xs p where ch: "chain = xs @ [p]" using assms(2) by (cases chain rule: rev_cases) auto
  then have "unat (blk_index p) = length xs" using assms(1) by (simp add: linked_snoc follows_def)
  then show ?thesis using assms(3) unat_add_lem [of "blk_index p" 1] by (simp add: ch)
qed

text \<open>What mining finds passes the whole validation, at a time when its timestamp is not too far ahead.\<close>

lemma mined_block_valid:
  assumes "hash32 X" and "hex_ok X" and "header_blind (host_vm H)" and "node_ok X H now n"
    and "nd_chain n \<noteq> []" and "length (nd_chain n) < 2 ^ 64"
    and mined: "mine_block_inner X H shutdown now n (last (nd_chain n)) (mining_transactions n) = Some (Inr (Some b))"
    and "phase_at (nd_rules n) (blk_index b) = Pow" and "block_fits X H n b"
    and "median_time_past (nd_chain n) (blk_index b) = Inr mtp" and "now \<le> later" and "unat later + 7200 < 2 ^ 64"
    and "mtp < later + 7200"
  shows "\<exists>t. validate_and_apply X H (to_state (nd_balances n)) b (view_for n later (blk_index b)) = Inr t"
proof -
  note L = node_ok_linked [OF assms(4)]
  let ?h = "blk_index (last (nd_chain n)) + 1"
  obtain mtp' target post arr k hs where T: "median_time_past (nd_chain n) ?h = Inr mtp'"
    "(if ?h mod RETARGET_INTERVAL = 0 then \<exists>t. compute_target X (nd_chain n) = Inr t \<and> target = hex_encode X t
      else target = blk_target (last (nd_chain n)))"
    "apply_and_execute X H (to_state (nd_balances n)) (base_block X now n (mining_transactions n) mtp' target) (view_for n now ?h) = Inr post"
    and b: "b = seal (base_block X now n (mining_transactions n) mtp' target) (compute_root X (balances post))
      (receipts_root X (st_receipts post)) k (hex_encode X hs)"
    and hs: "block_hash X b = Inr hs" "target_array X target = Inr arr" "u256_le (u256_from_bytes hs) (u256_from_bytes arr)"
    by (rule mined_seal [OF assms(1,2) L assms(5) mined])
  have fields: "blk_index b = ?h" "blk_timestamp b = max now (mtp' + 1)" "blk_transactions b = mining_transactions n"
    "blk_previous_hash b = blk_hash (last (nd_chain n))" "blk_target b = target" "blk_hash b = hex_encode X hs"
    "blk_consensus_version b = expected_version (nd_rules n) ?h" "blk_tx_root b = compute_tx_root X (mining_transactions n)"
    "blk_state_root b = compute_root X (balances post)" "blk_receipts_root b = receipts_root X (st_receipts post)"
    by (simp_all add: b base_block_def Let_def)
  have idx: "unat (blk_index b) = length (nd_chain n)" using last_index [OF L assms(5,6)] fields(1) by simp
  have mtp: "mtp' = mtp" using T(1) assms(10) fields(1) by simp
  have time: "validate_timestamp b (nd_chain n) later = Inr ()"
  proof -
    have later: "unat (later + 7200) = unat later + 7200"
      using assms(12) unat_add_lem [of later 7200] by simp
    then have "unat (mtp + 1) = unat mtp + 1"
      using assms(12,13) unat_add_lem [of mtp 1] by (simp add: word_less_nat_alt)
    then have "mtp < max now (mtp + 1)" "max now (mtp + 1) \<le> later + 7200"
      using assms(11,13) later by (auto simp: max_def word_less_nat_alt word_le_nat_alt)
    then have "\<not> blk_timestamp b \<le> mtp" "\<not> later + 7200 < blk_timestamp b"
      unfolding fields(2) mtp by (simp_all only: not_le not_less)
    then show ?thesis using assms(10) by (simp add: validate_timestamp_def MAX_FUTURE_TIME_def)
  qed
  have arr: "length arr = 32" "hex_decode X target = Some arr"
    using hs(2) by (auto simp: target_array_def split: if_splits)
  have hs32: "length hs = 32" using hs(1) assms(1) by (auto simp: block_hash_def bind_res_Inr_iff)
  have pow: "validate_difficulty X b = Inr ()"
    using hs(3) hs32 arr by (simp add: validate_difficulty_def hs(1) fields(5) u256_simps)
  have tgt: "validate_target X b (nd_chain n) = Inr ()"
    using T(2) assms(5) by (auto simp: validate_target_def fields(1,5) split: if_splits)
  have exec: "apply_and_execute X H (to_state (nd_balances n)) b (view_for n u h') = Inr post" for u h'
  proof -
    have "apply_and_execute X H (to_state (nd_balances n)) b (view_for n u h') =
        apply_and_execute X H (to_state (nd_balances n)) (base_block X now n (mining_transactions n) mtp' target) (view_for n u h')"
      unfolding b by (rule seal_execute [OF assms(3)])
    also have "\<dots> = Inr post" using T(3) by (subst execute_any_time [where u = now and k = ?h])
    finally show ?thesis .
  qed
  have fits: "enforce_size_limits X b = Inr ()" "enforce_block_gas_limit (blk_transactions b) = Inr ()"
    "enforce_receipt_gas_limit (st_receipts post) = Inr ()" "blk_state_root b \<noteq> zero32" "blk_receipts_root b \<noteq> zero32"
    using assms(9) by (simp_all add: block_fits_def exec)
  have "validate_block X b (view_for n later (blk_index b)) = Inr ()"
    unfolding validate_block_iff
    using fits(1,2) idx assms(5,8) hs(1) time pow tgt mining_verifies [OF assms(4) fields(3)]
    by (simp add: validate_position_iff validate_tx_root_def fields view_for_def params_def)
  moreover have "check_commitments X b (view_for n later (blk_index b)) post = Inr ()"
    using fits(4,5) by (simp add: check_commitments_def fields(9,10))
  ultimately show ?thesis using exec fits(3) by (auto simp: validate_and_apply_iff)
qed

lemma accepted_commit:
  assumes "linked X (nd_chain n)" and "validate_and_apply X H (to_state (nd_balances n)) b (view_for n now (blk_index b)) = Inr t"
  shows "\<exists>n'. commit_block X H now n b = Inr n' \<and> nd_chain n' = nd_chain n @ [b]"
proof -
  have "follows X (nd_chain n) b" using accepted_follows [OF assms(2)] by (simp add: view_for_def)
  then have "linked X (nd_chain n @ [b])" using assms(1) by (simp add: linked_snoc)
  then show ?thesis using linked_work [of X "nd_chain n @ [b]"] assms(2) by (auto simp: commit_block_def Let_def)
qed

lemma get_pending_Nil: "0 < k \<Longrightarrow> get_pending p k = [] \<longleftrightarrow> mp_is_empty p"
proof -
  assume "0 < k"
  have "mp_transactions p = [] \<longleftrightarrow> (\<forall>i tx. (i, tx) \<notin> set (sorted_list_of_fmap (mp_txs p)))"
    by (cases "sorted_list_of_fmap (mp_txs p)") (auto simp: mp_transactions_def)
  also have "\<dots> \<longleftrightarrow> (\<forall>i. fmlookup (mp_txs p) i = None)" by (simp add: sorted_list_of_fmap_set)
  also have "\<dots> \<longleftrightarrow> mp_is_empty p" by (auto simp: mp_is_empty_def intro: fmap_ext)
  finally show ?thesis using \<open>0 < k\<close> by (simp add: get_pending_def)
qed

lemma mine_block_commits:
  assumes "mine_block_inner X H shutdown now n (last (nd_chain n)) (mining_transactions n) = Some (Inr (Some b))"
    and "nd_chain n \<noteq> []" and "\<not> mp_is_empty (nd_mempool n)" and "commit_block X H later n b = Inr n'"
  shows "mine_block X H shutdown now later n = Some (Inr (n', Some b))"
  using assms by (simp add: mine_block_def get_pending_Nil)

section \<open>The supply of a node\<close>

lemma execute_inner:
  assumes "apply_and_execute X H s b v = Inr t"
  shows "\<exists>vm'. apply_block_inner X (host_vm H) s b (bv_chain_id v) (Some (seeded_vm H (bv_codes v))) = Inr (t, vm')"
  using assms by (auto simp: apply_and_execute_def apply_block_with_vm_def bind_res_Inr_iff)

lemma genesis_coins:
  assumes "apply_block_inner X V state_new g chain_id vm = Inr (s, vm')" and "blk_index g = 0"
  shows "coins s = tx_amounts (blk_transactions g)"
proof -
  obtain u rs where u: "apply_genesis X (state_new\<lparr>st_receipts := []\<rparr>) g chain_id = Inr (u, rs)" and s: "s = u\<lparr>st_receipts := rs\<rparr>"
    using assms by (auto simp: apply_block_inner_def Let_def)
  have "coins state_new = 0" by (simp add: coins_def state_new_def sorted_list_of_fmap_def sorted_list_of_fset.rep_eq)
  then show ?thesis using coins_apply_genesis [OF u] by (simp add: s)
qed

text \<open>A replay is the genesis followed by a run of blocks, each with its freshly seeded executor.\<close>

lemma replay_run:
  assumes "replay X H P (g # bs) = Inr s"
  shows "\<exists>s0 vms. length vms = length bs \<and> coins s0 = tx_amounts (blk_transactions g)
    \<and> apply_blocks X (host_vm H) (cp_chain_id P) s0 (zip bs vms) = Inr s
    \<and> (\<forall>i<length bs. blk_index (bs ! i) = of_nat (i + 1))"
  using assms
proof (induction bs arbitrary: s rule: rev_induct)
  case Nil
  then have v: "validate_and_apply X H state_new g (view_at P [] 0 fmempty) = Inr s" by (simp add: replay_def)
  then have "apply_and_execute X H state_new g (view_at P [] 0 fmempty) = Inr s" by (simp add: validate_and_apply_iff)
  moreover have "blk_index g = 0" using accepted_follows [OF v] by (simp add: follows_def unat_eq_0)
  ultimately have "coins s = tx_amounts (blk_transactions g)" using execute_inner genesis_coins by blast
  then show ?case by (intro exI [of _ s] exI [of _ "[]"]) (simp add: apply_blocks_def)
next
  case (snoc b bs)
  have "replay X H P ((g # bs) @ [b]) = Inr s" using snoc.prems by simp
  then obtain u where u: "replay X H P (g # bs) = Inr u"
    and v: "validate_and_apply X H u b (view_at P (g # bs) (of_nat (length (g # bs))) (codes_from_chain X (g # bs) (cp_chain_id P))) = Inr s"
    by (rule replay_snocE)
  obtain s0 vms where IH: "length vms = length bs" "coins s0 = tx_amounts (blk_transactions g)"
    "apply_blocks X (host_vm H) (cp_chain_id P) s0 (zip bs vms) = Inr u" "\<forall>i<length bs. blk_index (bs ! i) = of_nat (i + 1)"
    using snoc.IH [OF u] by (elim exE conjE)
  define vm where "vm = Some (seeded_vm H (Some (codes_from_chain X (g # bs) (cp_chain_id P))))"
  have "unat (blk_index b) = length bs + 1" using accepted_follows [OF v] by (simp add: follows_def)
  then have idx: "blk_index b = of_nat (length bs + 1)" using of_nat_unat_id [of "blk_index b"] by simp
  obtain vm' where "apply_block_inner X (host_vm H) u b (cp_chain_id P) vm = Inr (s, vm')"
    using v execute_inner [of X H u b _ s] by (fastforce simp: validate_and_apply_iff vm_def)
  then have "apply_blocks X (host_vm H) (cp_chain_id P) s0 (zip (bs @ [b]) (vms @ [vm])) = Inr s"
    using IH(1,3) by (auto simp: apply_blocks_snoc)
  moreover have "\<forall>i<length (bs @ [b]). blk_index ((bs @ [b]) ! i) = of_nat (i + 1)"
    using IH(4) idx by (simp add: nth_append less_Suc_eq)
  ultimately show ?case using IH(1,2) by (intro exI [of _ s0] exI [of _ "vms @ [vm]"]) simp
qed

lemma schedule_sum: "n < 2 ^ 64 \<Longrightarrow> (\<Sum>h<n. unat (halving_schedule (of_nat (h + 1)))) \<le> unat MAX_SUPPLY_PRE_TAIL"
proof -
  assume n: "n < 2 ^ 64"
  have "(\<Sum>h<n. unat (halving_schedule (of_nat (Suc h)))) \<le> (\<Sum>h<Suc n. unat (halving_schedule (of_nat h)))"
    by (simp only: sum.lessThan_Suc_shift le_add2)
  also have "\<dots> \<le> unat MAX_SUPPLY_PRE_TAIL" using halving_schedule_total [of "Suc n"] n by simp
  finally show ?thesis by simp
qed

lemma node_supply:
  assumes "node_ok X H now n" and "nd_chain n = g # bs" and "length bs < 2 ^ 64"
  shows "coins (to_state (nd_balances n)) * 52560000 ^ length bs
    \<le> (tx_amounts (blk_transactions g) + unat MAX_SUPPLY_PRE_TAIL) * 52560006 ^ length bs"
proof -
  obtain s where s: "replay X H (params n now) (g # bs) = Inr s" "nd_balances n = from_state s"
    using assms(1,2) by (auto simp: node_ok_def)
  obtain s0 vms where R: "length vms = length bs" "coins s0 = tx_amounts (blk_transactions g)"
    "apply_blocks X (host_vm H) (cp_chain_id (params n now)) s0 (zip bs vms) = Inr s"
    "\<forall>i<length bs. blk_index (bs ! i) = of_nat (i + 1)"
    using replay_run [OF s(1)] by (elim exE conjE)
  have eq: "coins (to_state (nd_balances n)) = coins s"
    by (rule coins_cong) (simp add: s(2) ledger_reads [OF to_state_from_state])
  have "coins s * 52560000 ^ length bs
      \<le> (coins s0 + (\<Sum>h<length bs. unat (halving_schedule (of_nat (h + 1))))) * 52560006 ^ length bs"
    using coins_apply_blocks [OF R(3)] R(1,4) assms(3) by simp
  also have "\<dots> \<le> (tx_amounts (blk_transactions g) + unat MAX_SUPPLY_PRE_TAIL) * 52560006 ^ length bs"
    using schedule_sum [OF assms(3)] R(2) by (intro mult_le_mono1) simp
  finally show ?thesis unfolding eq .
qed

section \<open>Where the node departs from its chain\<close>

text \<open>The genesis of a fresh regtest node is not credited, while its replay credits the holder.\<close>

lemma fresh_regtest_cache:
  assumes "install_fresh_genesis X file (empty_node 1 CHAIN_ID_REGTEST permissive) = Inr n"
  shows "nd_balances n = state_cache_new" and "\<exists>g. nd_chain n = [g] \<and> blk_index g = 0
    \<and> blk_transactions g = [tx_coinbase ''genesis'' ''regtest_initial_holder'' 1000000000 CHAIN_ID_REGTEST]"
  using assms genesis_block_index
  by (auto simp: install_fresh_genesis_def Let_def empty_node_def is_regtest_def regtest_genesis_block_def bind_res_Inr_iff
      validate_genesis_def tx_coinbase_def)

lemma replayed_regtest_holder:
  assumes "replay X H P [g] = Inr s"
    and "blk_transactions g = [tx_coinbase ''genesis'' ''regtest_initial_holder'' 1000000000 CHAIN_ID_REGTEST]"
  shows "get_balance s ''regtest_initial_holder'' = 1000000000"
proof -
  have v: "validate_and_apply X H state_new g (view_at P [] 0 fmempty) = Inr s" using assms(1) by (simp add: replay_def)
  then have "blk_index g = 0" using accepted_follows [OF v] by (simp add: follows_def unat_eq_0)
  moreover obtain vm' where "apply_block_inner X (host_vm H) state_new g (cp_chain_id P) (Some (seeded_vm H (Some fmempty))) = Inr (s, vm')"
    using v execute_inner [of X H state_new g _ s] by (fastforce simp: validate_and_apply_iff)
  moreover have "get_balance (state_new\<lparr>st_receipts := []\<rparr>) a = 0" for a
    by (simp add: get_balance_def get_account_def state_new_def)
  ultimately show ?thesis
    by (auto simp: apply_block_inner_def Let_def apply_genesis_def assms(2) apply_genesis_tx_def tx_coinbase_def
        credit_receiver_def bind_res_Inr_iff credit_Inr checked_add_def split: if_splits)
qed

text \<open>No step of the execution compares the nonce of a transaction with the one of its sender: a signed
  transfer that appears twice is applied twice.\<close>

lemma transfer_moves:
  assumes "\<not> t_is_coinbase t" and "t_from t \<noteq> t_to t" and "unat (t_amount t) \<le> unat (get_balance s (t_from t))"
    and "unat (get_balance s (t_to t)) + unat (t_amount t) < 2 ^ 64"
  shows "\<exists>s' r. apply_tx X V b chain_id (s, vm, rs) (i, Transfer t) = Inr (s', vm, rs @ [r])
    \<and> unat (get_balance s' (t_from t)) + unat (t_amount t) = unat (get_balance s (t_from t))
    \<and> unat (get_balance s' (t_to t)) = unat (get_balance s (t_to t)) + unat (t_amount t)"
proof -
  have sub: "checked_sub (get_balance s (t_from t)) (t_amount t) = Some (get_balance s (t_from t) - t_amount t)"
    using assms(3) by (simp add: checked_sub_def word_le_nat_alt)
  define u where "u = set_balance (t_from t) (get_balance s (t_from t) - t_amount t) s"
  have u: "deduct_sender s t = Inr u"
    using sub assms(3) by (simp add: deduct_sender_def debit_def u_def word_less_nat_alt)
  have ub: "get_balance u (t_to t) = get_balance s (t_to t)" using assms(2) by (simp add: u_def)
  have add: "checked_add (get_balance u (t_to t)) (t_amount t) = Some (get_balance u (t_to t) + t_amount t)"
    using assms(4) ub by (simp add: checked_add_def)
  have "unat (get_balance s (t_to t) + t_amount t) = unat (get_balance s (t_to t)) + unat (t_amount t)"
    using assms(4) unat_add_lem [of "get_balance s (t_to t)" "t_amount t"] by simp
  moreover have "unat (get_balance s (t_from t) - t_amount t) + unat (t_amount t) = unat (get_balance s (t_from t))"
    using assms(3) by (simp add: unat_sub word_le_nat_alt)
  ultimately show ?thesis
    using assms(1,2) u add ub by (auto simp: apply_tx_def credit_receiver_def credit_def increment_nonce_def u_def)
qed

lemma transfer_applied_twice:
  assumes "blk_transactions b = [Transfer cb, Transfer t, Transfer t]" and "t_is_coinbase cb" and "t_amount cb = 0"
    and "t_chain_id cb = chain_id" and "t_chain_id t = chain_id"
    and "\<not> t_is_coinbase t" and "t_from t \<noteq> t_to t" and "2 * unat (t_amount t) \<le> unat (get_balance s (t_from t))"
    and "unat (get_balance s (t_to t)) + 2 * unat (t_amount t) < 2 ^ 64"
  shows "\<exists>s' rs. apply_non_genesis X V s b chain_id vm = Inr (s', vm, rs)
    \<and> unat (get_balance s' (t_to t)) = unat (get_balance s (t_to t)) + 2 * unat (t_amount t)"
proof -
  obtain s0 where s0: "credit_receiver s cb = Inr s0" "get_balance s0 = get_balance s"
    using assms(3) by (auto simp: credit_receiver_def credit_def fun_eq_iff)
  let ?r0 = "[transfer_receipt X (Transfer cb) b 0 []]"
  have m1: "unat (t_amount t) \<le> unat (get_balance s0 (t_from t))" "unat (get_balance s0 (t_to t)) + unat (t_amount t) < 2 ^ 64"
    using assms(8,9) s0(2) by simp_all
  obtain s1 r1 where s1: "apply_tx X V b chain_id (s0, vm, ?r0) (1, Transfer t) = Inr (s1, vm, ?r0 @ [r1])"
    "unat (get_balance s1 (t_from t)) + unat (t_amount t) = unat (get_balance s (t_from t))"
    "unat (get_balance s1 (t_to t)) = unat (get_balance s (t_to t)) + unat (t_amount t)"
    using transfer_moves [OF assms(6,7) m1, of X V b chain_id vm ?r0 1] unfolding s0(2) by (elim exE conjE)
  have m2: "unat (t_amount t) \<le> unat (get_balance s1 (t_from t))" "unat (get_balance s1 (t_to t)) + unat (t_amount t) < 2 ^ 64"
    using assms(8,9) s1(2,3) by linarith+
  obtain s2 r2 where s2: "apply_tx X V b chain_id (s1, vm, ?r0 @ [r1]) (2, Transfer t) = Inr (s2, vm, (?r0 @ [r1]) @ [r2])"
    "unat (get_balance s2 (t_to t)) = unat (get_balance s1 (t_to t)) + unat (t_amount t)"
    using transfer_moves [OF assms(6,7) m2, of X V b chain_id vm "?r0 @ [r1]" 2] by (elim exE conjE)
  have "apply_tx X V b chain_id (s0, vm, ?r0) (0, Transfer cb) = Inr (s0, vm, ?r0)" using assms(2) by (simp add: apply_tx_def)
  then have "apply_non_genesis X V s b chain_id vm = Inr (s2, vm, (?r0 @ [r1]) @ [r2])"
    using s0(1) s1(1) s2(1) assms(2-5)
    by (simp add: apply_non_genesis_def Let_def assms(1) validate_tx_chain_id_def numeral_2_eq_2 del: append_assoc append.simps)
  moreover have "unat (get_balance s2 (t_to t)) = unat (get_balance s (t_to t)) + 2 * unat (t_amount t)"
    using s1(3) s2(2) by simp
  ultimately show ?thesis by blast
qed

text \<open>A contract is deployed at the address of its creator's account nonce, and its code is registered at
  the address of the transaction's nonce, which is the next one.\<close>

lemma deployed_contract:
  assumes "wf_state X s" and "vm_ok V" and "apply_create X V s c chain_id vm b i = Inr (s', vm', r)"
    and "rc_status r = TxSuccess" and "derive_contract_address X (c_from c) (get_nonce s (c_from c)) chain_id = Inr address"
    and "fmlookup (balances s) address = None" and "blake3 X (c_init_code c) \<noteq> zero32"
  shows "account_is_contract s' address"
  using assms(3)
proof (cases rule: apply_createE)
  case (success a ctx res u)
  have a: "a = address" using success(1) assms(5) by simp
  let ?d = "deployed X s c address" and ?f = "flush_storage_writes X (deployed X s c address) res (txid X (Create c))"
  note D = deployed_views [OF assms(1,6,7)]
  have res: "result_ok res" by (rule vm_okD(3) [OF assms(2) success(5)])
  have "map_option fst (contract_view ?f address) = map_option fst (contract_view ?d address)" by (rule flush_code [OF res])
  then have f: "contract_view ?f address \<noteq> None" using D(4) by auto
  have clean: "clean ?f" using wf_clean [OF D(1)] by (simp add: flush_fields)
  then have u: "contract_view u = contract_view ?f" "clean u" using success(7) by (auto simp: debit_Inr a)
  have "contract_view s' = contract_view u" using commit_views(3) [OF u(2) success(8)] .
  then show ?thesis using f u(1) by (simp add: account_is_contract_view)
qed (use assms(4) in simp)

lemma registered_elsewhere:
  assumes "bech32_ok X" and "collision_free X [contract_addr_input (c_from c) nonce, contract_addr_input (c_from c) (c_nonce c)]"
    and "c_nonce c \<noteq> nonce" and "derive_contract_address X (c_from c) nonce chain_id = Inr address"
    and "blk_transactions b = [Transfer cb, Create c]"
  shows "fmlookup (collect_block_codes X chain_id codes b) address = fmlookup codes address"
proof -
  have "derive_contract_address X (c_from c) (c_nonce c) chain_id \<noteq> Inr address"
    using derive_contract_address_inj [OF assms(1,2,4), of chain_id] assms(3) by blast
  then show ?thesis
    by (cases "derive_contract_address X (c_from c) (c_nonce c) chain_id") (simp_all add: collect_block_codes_def assms(5))
qed

end
