(* ===== verification/Sc_Open.thy ===== *)
theory Sc_Open
  imports Sc_Reach
begin

text \<open>
  Nodes opened from the database (\<open>src/blockchain/state_cache.rs\<close>), as the program opens them. A node that
  loads a chain with the accounts of its replay runs like one that built the chain itself; a node that
  starts on an empty database does not hold what its genesis block pays.
\<close>

section \<open>Runs without the receipts of the tip\<close>

text \<open>A node that has just loaded its chain has no receipts until its next block.\<close>

definition node_held :: "ext \<Rightarrow> 'v host \<Rightarrow> u64 \<Rightarrow> blockchain \<Rightarrow> bool" where
  "node_held X H now n \<longleftrightarrow>
     (\<exists>s. replay X H (params n now) (nd_chain n) = Inr s \<and> nd_balances n = from_state s
        \<and> (nd_receipts n = st_receipts s \<or> nd_receipts n = []))
     \<and> nd_codes n = codes_from_chain X (nd_chain n) (nd_chain_id n)
     \<and> cumulative_work X (nd_chain n) = Inr (nd_total_work n)
     \<and> pool_ok X (nd_mempool n) \<and> mp_chain_id (nd_mempool n) = nd_chain_id n"

lemma node_ok_held: "node_ok X H now n \<Longrightarrow> node_held X H now n"
  by (auto simp: node_ok_def node_held_def)

lemma held_ok:
  assumes "node_held X H now n"
  obtains r where "node_ok X H now (n\<lparr>nd_receipts := r\<rparr>)" and "nd_receipts n = r \<or> nd_receipts n = []"
proof -
  obtain s where "replay X H (params n now) (nd_chain n) = Inr s" "nd_balances n = from_state s"
    and r: "nd_receipts n = st_receipts s \<or> nd_receipts n = []" using assms by (auto simp: node_held_def)
  then have "node_ok X H now (n\<lparr>nd_receipts := st_receipts s\<rparr>)" using assms by (auto simp: node_held_def node_ok_def)
  then show thesis using that r by blast
qed

text \<open>No operation reads the receipts: it overwrites them or leaves them as they are.\<close>

lemma view_receipts [simp]: "view_for (n\<lparr>nd_receipts := r\<rparr>) = view_for n"
  by (simp add: view_for_def fun_eq_iff)

lemma held_commit:
  assumes "node_held X H now n" and "commit_block X H now n b = Inr n'"
  shows "node_held X H now n'"
proof -
  obtain r where "node_ok X H now (n\<lparr>nd_receipts := r\<rparr>)" using assms(1) by (rule held_ok)
  moreover have "commit_block X H now (n\<lparr>nd_receipts := r\<rparr>) b = Inr n'" using assms(2) by (simp add: commit_block_def)
  ultimately show ?thesis using node_ok_commit(1) node_ok_held by blast
qed

lemma held_later:
  assumes "node_held X H t n" and "t \<le> now" and "unat now + 7200 < 2 ^ 64"
  shows "node_held X H now n"
proof -
  obtain r where r: "node_ok X H t (n\<lparr>nd_receipts := r\<rparr>)" "nd_receipts n = r \<or> nd_receipts n = []" using assms(1) by (rule held_ok)
  have "node_ok X H now (n\<lparr>nd_receipts := r\<rparr>)" using r(1) assms(2,3) by (rule node_ok_later)
  then show ?thesis using r(2) by (auto simp: node_ok_def node_held_def)
qed

lemma held_pool:
  assumes "node_held X H now n" and "facade_apply_tx X to_json n tx = Inr (n', ev)"
  shows "node_held X H now n'"
proof -
  obtain a p out where p: "mp_insert X (nd_mempool n) tx a = Inr (p, out)" and n': "n' = n\<lparr>nd_mempool := p\<rparr>"
    using assms(2) by (auto simp: facade_apply_tx_def add_transaction_def Let_def bind_res_Inr_iff split: if_splits)
  have "pool_ok X p" "mp_chain_id p = mp_chain_id (nd_mempool n)"
    using assms(1) pool_ok_insert [OF _ p] insert_chain_id [OF p] by (simp_all add: node_held_def)
  then show ?thesis using assms(1) by (simp add: node_held_def n')
qed

lemma held_adopt:
  assumes "node_held X H now n" and "try_adopt_candidate X H now n chain wire txs difficulty = Inr (n', adopted)"
  shows "node_held X H now n'"
proof (cases adopted)
  case False
  then show ?thesis using try_adopt_Inr(1) [OF assms(2)] assms(1) by simp
next
  case True
  obtain s where s: "replay X H (params n now) chain = Inr s"
    "install_candidate X n chain (from_state s) (st_receipts s) txs difficulty = Inr n'"
    using try_adopt_Inr(2) [OF assms(2) True] by blast
  from s(2) show ?thesis by (rule install_candidate_Inr) (use s(1) in \<open>auto simp: node_held_def\<close>)
qed

lemma held_mine:
  assumes "node_held X H now n" and "now \<le> later" and "unat later + 7200 < 2 ^ 64"
    and "mine_block X H shutdown now later n = Some (Inr (n', mined))"
  shows "node_held X H later n'"
proof -
  have ok: "node_held X H later n" using assms(1-3) by (rule held_later)
  from assms(4) consider "n' = n" | b where "commit_block X H later n b = Inr n'"
    by (auto simp: mine_block_def Let_def bind_res_Inr_iff dest!: or_elseD split: if_splits option.splits)
  then show ?thesis using ok held_commit by cases auto
qed

lemma or_else_other: "or_else x m = Inr k \<Longrightarrow> k \<noteq> x \<Longrightarrow> or_else y m = Inr k"
  by (induction x m rule: or_else.induct) simp_all

lemma create_grant_receipts:
  assumes "create_grant_block X H now n w a = Inr n'" and "n' \<noteq> n"
  shows "create_grant_block X H now (n\<lparr>nd_receipts := r\<rparr>) w a = Inr n'"
proof -
  have g: "grant_block X now (n\<lparr>nd_receipts := r\<rparr>) p w a = grant_block X now n p w a" for p
    by (simp add: grant_block_def)
  obtain p where p: "expect_last (nd_chain n) = Inr p" using assms(1) by (auto simp: create_grant_block_def bind_res_Inr_iff)
  show ?thesis
    using or_else_other [OF _ assms(2), of _ "n\<lparr>nd_receipts := r\<rparr>"] assms(1) p
    unfolding create_grant_block_def by (simp add: g Let_def)
qed

lemma held_grant:
  assumes "node_held X H now n" and "grant_initial_balance_to_first_wallet X H now n wallet = Inr (n', granted)"
  shows "node_held X H now n'"
proof -
  from assms(2) consider "n' = n" | a where "create_grant_block X H now n wallet a = Inr n'" "n' \<noteq> n"
    by (auto simp: grant_initial_balance_to_first_wallet_def bind_res_Inr_iff split: if_splits option.splits)
  then show ?thesis
  proof cases
    case 2
    obtain r where "node_ok X H now (n\<lparr>nd_receipts := r\<rparr>)" using assms(1) by (rule held_ok)
    from node_ok_grant_block [OF this create_grant_receipts [OF 2]] show ?thesis by (rule node_ok_held)
  qed (use assms(1) in simp)
qed

lemma held_rebuild: "node_held X H now n \<Longrightarrow> rebuild_state_cache X H now n = Inr n' \<Longrightarrow> node_held X H now n'"
  by (auto simp: node_held_def rebuild_state_cache_def rebuild_from_chain_def)

lemma node_step_held:
  assumes "node_step X H to_json p q" and "node_held X H (fst p) (snd p)"
  shows "node_held X H (fst q) (snd q)"
  using assms
proof (induction rule: node_step.induct)
  case (tick t now n)
  then show ?case using held_later by auto
next
  case (block t now n b n')
  then show ?case using held_later [of X H t n now] held_commit by (auto simp: add_block_def)
next
  case (pool t now n tx n' evicted)
  then show ?case using held_later [of X H t n now] held_pool by auto
next
  case (adopt t now n chain wire txs difficulty n' adopted)
  then show ?case using held_later [of X H t n now] held_adopt by auto
next
  case (mine t now later shutdown n n' mined)
  then show ?case using held_later [of X H t n now] held_mine by auto
next
  case (grant t now n wallet n' granted)
  then show ?case using held_later [of X H t n now] held_grant by auto
next
  case (rebuild t now n n')
  then show ?case using held_later [of X H t n now] held_rebuild by auto
qed

interpretation held_runs: preserved "node_step X H to_json" "\<lambda>p. node_held X H (fst p) (snd p)"
  for X :: ext and H :: "'v host" and to_json :: "transaction \<Rightarrow> bytes option"
  by unfold_locales (rule node_step_held)

section \<open>Opening from the database\<close>

text \<open>The database holds a chain together with the accounts and the storage of its replay, and no address
  of the format that the migration rewrites.\<close>

definition database_ok :: "ext \<Rightarrow> 'v host \<Rightarrow> (string \<Rightarrow> bytes option) \<Rightarrow> chain_params \<Rightarrow> persisted_state \<Rightarrow> bool" where
  "database_ok X H base64 P loaded \<longleftrightarrow> (\<exists>chain s. ps_chain loaded = Some chain \<and> replay X H P chain = Inr s
     \<and> ps_balances loaded = Some (balances s) \<and> ps_contract_storage loaded = Some (st_storage s)
     \<and> \<not> legacy_in_chain X base64 chain
     \<and> list_all (\<lambda>a. migrated_address X base64 (cp_chain_id P) a = None) (cache_keys (from_state s)))"

text \<open>The program opens the database and then sets the two flags from its configuration.\<close>

definition open_configured ::
  "ext \<Rightarrow> 'v host \<Rightarrow> (string \<Rightarrow> bytes option) \<Rightarrow> node_error + genesis_config \<Rightarrow> u64 \<Rightarrow> persisted_state \<Rightarrow> u32 \<Rightarrow> bool \<Rightarrow> bool
     \<Rightarrow> node_error + blockchain" where
  "open_configured X H base64 file now loaded chain_id allow_grants allow_zero_root =
     bind_res (open_blockchain X H base64 file now loaded chain_id) (\<lambda>n.
       Inr (set_allow_zero_state_root allow_zero_root (set_allow_grant_blocks allow_grants n)))"

abbreviation opening_params :: "u64 \<Rightarrow> u32 \<Rightarrow> bool \<Rightarrow> bool \<Rightarrow> chain_params" where
  "opening_params now chain_id g z \<equiv> \<lparr>cp_now = now, cp_allow_grant_blocks = g, cp_allow_zero_state_root = z,
     cp_rules = consensus_manager_new, cp_chain_id = chain_id\<rparr>"

lemma insert_all_ok:
  assumes "insert_all X f p txs = Inr q" and "pool_ok X p"
  shows "pool_ok X q \<and> mp_chain_id q = mp_chain_id p"
  using assms
proof (induction txs arbitrary: p)
  case Nil
  then show ?case by (simp add: insert_all_def)
next
  case (Cons tx txs)
  obtain p1 where step: "or_else p (bind_res (mp_insert X p tx (f tx)) (\<lambda>(p, _). Inr p)) = Inr p1"
    and rest: "insert_all X f p1 txs = Inr q"
    using Cons.prems(1) by (auto simp: insert_all_def bind_res_Inr_iff)
  from step consider "p1 = p" | out where "mp_insert X p tx (f tx) = Inr (p1, out)"
    by (auto simp: bind_res_Inr_iff dest!: or_elseD)
  then have "pool_ok X p1 \<and> mp_chain_id p1 = mp_chain_id p"
    using Cons.prems(2) pool_ok_insert insert_chain_id by cases (blast, blast)
  then show ?case using Cons.IH [OF rest] by simp
qed

lemma no_migration:
  assumes "list_all (\<lambda>a. migrated_address X base64 (nd_chain_id n) a = None) (cache_keys (nd_balances n))"
    and "\<not> legacy_in_chain X base64 (nd_chain n)"
  shows "migrate_addresses_to_bech32 X base64 file n = Inr n"
proof -
  have "\<not> list_ex (\<lambda>a. migrated_address X base64 (nd_chain_id n) a \<noteq> None) (cache_keys (nd_balances n))"
    using assms(1) by (auto simp: list_all_iff list_ex_iff)
  then show ?thesis using assms(2) by (simp add: migrate_addresses_to_bech32_def Let_def)
qed

lemma open_blockchain_loaded:
  assumes "ps_chain loaded = Some chain" and "ps_balances loaded = Some (balances s)"
    and "ps_contract_storage loaded = Some (st_storage s)" and "\<not> legacy_in_chain X base64 chain"
    and "list_all (\<lambda>a. migrated_address X base64 chain_id a = None) (cache_keys (from_state s))"
    and "insert_all X (\<lambda>_. account_default) (mempool_new chain_id) (ps_mempool_txs loaded) = Inr p"
    and "\<not> (chain \<noteq> [] \<and> \<not> is_ok (validate_genesis X (hd chain) chain_id))"
  shows "open_blockchain X H base64 file now loaded chain_id = bind_res (lift_core (cumulative_work X chain)) (\<lambda>w.
    Inr \<lparr> nd_chain = chain, nd_balances = from_state s,
       nd_difficulty = (case ps_difficulty loaded of Some d \<Rightarrow> d | None \<Rightarrow> 1), nd_mempool = p,
       nd_allow_grant_blocks = False, nd_allow_zero_state_root = False, nd_total_work = w,
       nd_rules = consensus_manager_new, nd_chain_id = chain_id, nd_codes = codes_from_chain X chain chain_id, nd_receipts = [] \<rparr>)"
proof -
  define d where "d = (case ps_difficulty loaded of Some d \<Rightarrow> d | None \<Rightarrow> 1)"
  let ?n = "\<lambda>w. \<lparr> nd_chain = chain, nd_balances = from_state s, nd_difficulty = d, nd_mempool = p,
       nd_allow_grant_blocks = False, nd_allow_zero_state_root = False, nd_total_work = w,
       nd_rules = consensus_manager_new, nd_chain_id = chain_id, nd_codes = fmempty, nd_receipts = [] \<rparr>"
  have cache: "set_contract_storage (st_storage s) (from_accounts (balances s)) = from_state s"
    by (simp add: set_contract_storage_def from_accounts_def from_state_def)
  have m: "migrate_initial_wallet_balance X H now (?n w) = Inr (?n w)" "migrate_addresses_to_bech32 X base64 file (?n w) = Inr (?n w)" for w
    using assms(4,5) by (simp add: migrate_initial_wallet_balance_def, intro no_migration) simp_all
  have "(case ps_difficulty loaded of Some d \<Rightarrow> n\<lparr>nd_difficulty := d\<rparr> | None \<Rightarrow> n) = n\<lparr>nd_difficulty := d\<rparr>"
    if "nd_difficulty n = 1" for n :: blockchain using that by (cases "ps_difficulty loaded") (simp_all add: d_def)
  then show ?thesis
    unfolding open_blockchain_def Let_def assms(1-3) option.case if_not_P [OF assms(7)]
    by (simp add: assms(6) empty_node_def cache m d_def [symmetric])
qed

lemma held_open:
  assumes "database_ok X H base64 (opening_params now chain_id g z) loaded"
    and "open_configured X H base64 file now loaded chain_id g z = Inr n"
  shows "node_held X H now n"
proof -
  obtain chain s where L: "ps_chain loaded = Some chain" "ps_balances loaded = Some (balances s)"
    "ps_contract_storage loaded = Some (st_storage s)" "\<not> legacy_in_chain X base64 chain"
    "list_all (\<lambda>a. migrated_address X base64 chain_id a = None) (cache_keys (from_state s))"
    and s: "replay X H (opening_params now chain_id g z) chain = Inr s"
    using assms(1) by (auto simp: database_ok_def)
  obtain n1 where n1: "open_blockchain X H base64 file now loaded chain_id = Inr n1"
    and n: "n = set_allow_zero_state_root z (set_allow_grant_blocks g n1)"
    using assms(2) by (auto simp: open_configured_def bind_res_Inr_iff)
  obtain p where p: "insert_all X (\<lambda>_. account_default) (mempool_new chain_id) (ps_mempool_txs loaded) = Inr p"
    and guard: "\<not> (chain \<noteq> [] \<and> \<not> is_ok (validate_genesis X (hd chain) chain_id))"
    using n1 by (auto simp: open_blockchain_def Let_def bind_res_Inr_iff L(1) empty_node_def split: if_splits)
  have "mp_chain_id (mempool_new chain_id) = chain_id" by (simp add: mempool_new_def)
  then have "pool_ok X p" "mp_chain_id p = chain_id" using insert_all_ok [OF p pool_ok_new] by simp_all
  then show ?thesis using n1 s unfolding open_blockchain_loaded [OF L p guard] n
    by (auto simp: node_held_def bind_res_Inr_iff set_allow_zero_state_root_def set_allow_grant_blocks_def params_def)
qed

section \<open>A fresh node\<close>

definition no_database :: persisted_state where
  "no_database = \<lparr>ps_chain = None, ps_balances = None, ps_contract_storage = None, ps_difficulty = None, ps_mempool_txs = []\<rparr>"

lemma fresh_open:
  assumes "open_blockchain X H base64 file now no_database CHAIN_ID_REGTEST = Inr n"
  shows "nd_balances n = state_cache_new"
    and "\<exists>g. nd_chain n = [g] \<and> blk_transactions g = [tx_coinbase ''genesis'' ''regtest_initial_holder'' 1000000000 CHAIN_ID_REGTEST]"
proof -
  have pool: "insert_all X f p [] = Inr p" for f p by (simp add: insert_all_def)
  obtain n1 where n1: "install_fresh_genesis X file (empty_node 1 CHAIN_ID_REGTEST False) = Inr n1"
    using assms by (auto simp: open_blockchain_def Let_def no_database_def pool bind_res_Inr_iff empty_node_def)
  note F = fresh_regtest_cache [OF n1]
  then obtain g where g: "nd_chain n1 = [g]" "blk_transactions g = [tx_coinbase ''genesis'' ''regtest_initial_holder'' 1000000000 CHAIN_ID_REGTEST]"
    by blast
  have flags: "\<not> nd_allow_grant_blocks n1"
    using n1 by (auto simp: install_fresh_genesis_def Let_def bind_res_Inr_iff empty_node_def is_regtest_def validate_genesis_def)
  have m1: "migrate_initial_wallet_balance X H now (n1\<lparr>nd_total_work := w\<rparr>) = Inr (n1\<lparr>nd_total_work := w\<rparr>)" for w
    using flags by (simp add: migrate_initial_wallet_balance_def)
  have m2: "migrate_addresses_to_bech32 X base64 file (n1\<lparr>nd_total_work := w\<rparr>) = Inr (n1\<lparr>nd_total_work := w\<rparr>)" for w
  proof (rule no_migration)
    have "cache_keys state_cache_new = []"
      by (simp add: cache_keys_def state_cache_new_def sorted_list_of_fmap_def sorted_list_of_fset.rep_eq)
    then show "list_all (\<lambda>a. migrated_address X base64 (nd_chain_id (n1\<lparr>nd_total_work := w\<rparr>)) a = None) (cache_keys (nd_balances (n1\<lparr>nd_total_work := w\<rparr>)))"
      by (simp add: F(1))
    show "\<not> legacy_in_chain X base64 (nd_chain (n1\<lparr>nd_total_work := w\<rparr>))"
      by (simp add: legacy_in_chain_def g is_legacy_field_def tx_coinbase_def)
  qed
  obtain w where "n = n1\<lparr>nd_total_work := w, nd_codes := codes_from_chain X (nd_chain n1) CHAIN_ID_REGTEST\<rparr>"
  proof -
    have "mempool_new CHAIN_ID_REGTEST = nd_mempool (empty_node 1 CHAIN_ID_REGTEST False)" by (simp add: empty_node_def)
    then have "bind_res (lift_core (cumulative_work X (nd_chain n1))) (\<lambda>w. Inr (n1\<lparr>nd_total_work := w,
        nd_codes := codes_from_chain X (nd_chain n1) CHAIN_ID_REGTEST\<rparr>)) = Inr n"
      using assms n1 by (simp add: open_blockchain_def Let_def no_database_def pool m1 m2)
    then show thesis using that by (auto simp: bind_res_Inr_iff)
  qed
  then show "nd_balances n = state_cache_new"
    "\<exists>g. nd_chain n = [g] \<and> blk_transactions g = [tx_coinbase ''genesis'' ''regtest_initial_holder'' 1000000000 CHAIN_ID_REGTEST]"
    using F(1) g by auto
qed

lemma fresh_rejected:
  assumes "nd_balances n = state_cache_new" and "\<And>s. replay X H (params n now) (nd_chain n) = Inr s \<Longrightarrow> get_balance s a \<noteq> 0"
  shows "validate_chain X H now n \<noteq> Inr True"
proof
  assume v: "validate_chain X H now n = Inr True"
  then obtain s where s: "replay X H (params n now) (nd_chain n) = Inr s"
    and eq: "nonzero_balances (from_state s) = nonzero_balances state_cache_new"
    by (auto simp: validate_chain_def bind_res_Inr_iff rebuild_from_chain_def assms(1) dest!: or_elseD split: if_splits)
  have "fmlookup (nonzero_balances (from_state s)) a \<noteq> None"
    using assms(2) [OF s] by (auto simp: nonzero_balances_def lookup_nonzero from_state_def get_balance_def get_account_def split: option.splits)
  moreover have "fmlookup (nonzero_balances state_cache_new) a = None"
    by (simp add: nonzero_balances_def lookup_nonzero state_cache_new_def)
  ultimately show False using eq by simp
qed

end
