(* ===== verification/Sc_Examples.thy ===== *)
theory Sc_Examples
  imports Sc_Instance Sc_Open
begin

text \<open>
  A pool, a chain and a node on which the properties of the node are applied. Digests are constant in
  the last of them, which makes every nonce a solution and every commitment known.
\<close>

section \<open>A pool\<close>

text \<open>In the instance a signature recovers to its first 33 bytes.\<close>

definition payer :: string where
  "payer = ''rsc1'' @ demo_hex_encode (replicate 33 2)"

definition demo_payment :: transaction where
  "demo_payment = Transfer \<lparr> t_from = payer, t_to = bob, t_amount = 10, t_fee = 1, t_nonce = 1,
     t_chain_id = CHAIN_ID_REGTEST, t_signature = replicate 65 2, t_is_coinbase = False \<rparr>"

definition demo_pool :: mempool where
  "demo_pool = mempool_new CHAIN_ID_REGTEST"

lemma demo_insert_ok: "is_ok (mp_insert demo_ext demo_pool demo_payment (account_eoa 200 0))"
  by code_simp

lemma demo_insert:
  obtains q out where "mp_insert demo_ext demo_pool demo_payment (account_eoa 200 0) = Inr (q, out)"
  using demo_insert_ok by (auto simp: is_ok_iff)

lemma demo_pool_ok: "pool_ok X demo_pool"
  by (simp add: demo_pool_def pool_ok_new)

lemma demo_pool_covered: "covered demo_pool s a"
proof -
  have "pending_nonces demo_pool s = {}" by (simp add: pending_nonces_def slot_def demo_pool_def mempool_new_def)
  then show ?thesis by (simp add: covered_def consecutive_def)
qed

section \<open>A chain of one block\<close>

definition demo_host :: "unit host" where
  "demo_host = \<lparr>host_vm = demo_vm, host_new = (), host_insert_code = (\<lambda>v _ _. v)\<rparr>"

lemma demo_header_blind: "header_blind (host_vm demo_host)"
  by (simp add: header_blind_def demo_host_def demo_vm_def)

definition first_block :: "ext \<Rightarrow> block" where
  "first_block X = projr (genesis_block X [tx_coinbase ''genesis'' ''initial_wallet_address'' 10000 CHAIN_ID_REGTEST]
     0 MAX_TARGET_HEX 1)"

definition genesis_view_of :: block_view where
  "genesis_view_of = with_phase Pow (block_view_new [] 0 True 1 CHAIN_ID_REGTEST)"

definition genesis_ok :: "ext \<Rightarrow> bool" where
  "genesis_ok X \<longleftrightarrow> is_ok (genesis_block X [tx_coinbase ''genesis'' ''initial_wallet_address'' 10000 CHAIN_ID_REGTEST]
       0 MAX_TARGET_HEX 1)
     \<and> is_ok (validate_block X (first_block X) genesis_view_of)
     \<and> (case apply_and_execute X demo_host state_new (first_block X) genesis_view_of of
          Inr s \<Rightarrow> is_ok (enforce_receipt_gas_limit (st_receipts s)) | Inl _ \<Rightarrow> False)"

lemma new_rules [simp]: "expected_version consensus_manager_new h = 1" "phase_at consensus_manager_new h = Pow"
  by (simp_all add: expected_version_def phase_at_def consensus_manager_new_def current_consensus_rules_def
      CURRENT_CONSENSUS_VERSION_def sorted_list_of_fmap_def sorted_list_of_fset.rep_eq)

lemma genesis_accepted:
  assumes "genesis_ok X"
  obtains s where "validate_and_apply X demo_host state_new (first_block X) genesis_view_of = Inr s"
proof -
  have g: "genesis_block X [tx_coinbase ''genesis'' ''initial_wallet_address'' 10000 CHAIN_ID_REGTEST] 0 MAX_TARGET_HEX 1
      = Inr (first_block X)"
    using assms by (auto simp: genesis_ok_def first_block_def is_ok_iff)
  then have "blk_index (first_block X) = 0" "blk_state_root (first_block X) = zero32" "blk_receipts_root (first_block X) = zero32"
    using genesis_block_index by blast+
  then have "check_commitments X (first_block X) genesis_view_of s = Inr ()" for s by (simp add: check_commitments_def)
  then show thesis using that assms
    by (auto simp: validate_and_apply_iff genesis_ok_def is_ok_iff split: sum.splits)
qed

lemma demo_open:
  assumes "genesis_ok X"
  obtains n s where "open_local X demo_host 0 CHAIN_ID_REGTEST = Inr n" and "nd_chain n = [first_block X]"
    and "validate_and_apply X demo_host state_new (first_block X) genesis_view_of = Inr s"
    and "n = (empty_node 0 CHAIN_ID_REGTEST True)\<lparr>nd_chain := [first_block X], nd_receipts := st_receipts s,
      nd_balances := from_state s, nd_total_work := nd_total_work n\<rparr>"
proof -
  have g: "genesis_block X [tx_coinbase ''genesis'' ''initial_wallet_address'' 10000 CHAIN_ID_REGTEST] 0 MAX_TARGET_HEX 1
      = Inr (first_block X)"
    using assms by (auto simp: genesis_ok_def first_block_def is_ok_iff)
  obtain s where s: "validate_and_apply X demo_host state_new (first_block X) genesis_view_of = Inr s"
    using assms by (rule genesis_accepted)
  have "linked X ([] @ [first_block X])"
    using accepted_follows [OF s] by (simp only: linked_snoc) (simp add: genesis_view_of_def block_view_defs linked_def)
  then obtain w where w: "cumulative_work X [first_block X] = Inr w" using linked_work by fastforce
  let ?n = "(empty_node 0 CHAIN_ID_REGTEST True)\<lparr>nd_chain := [first_block X], nd_receipts := st_receipts s,
      nd_balances := from_state s, nd_total_work := w\<rparr>"
  have "open_local X demo_host 0 CHAIN_ID_REGTEST = Inr ?n"
    using s w g by (simp add: open_local_def create_genesis_block_def empty_node_def genesis_view_of_def)
  then show thesis using that [of ?n s] s by simp
qed

section \<open>A node with a constant digest\<close>

definition ones_ext :: ext where
  "ones_ext = demo_ext\<lparr>blake3 := \<lambda>_. replicate 32 1\<rparr>"

lemma ones_laws: "hash32 ones_ext" "hex_ok ones_ext"
  using demo_hex_ok by (simp_all add: hash32_def hex_ok_def ones_ext_def)

lemma hash_range_digest: "\<exists>z. hash_range X kvs 0 0 k = blake3 X z"
proof -
  have "empty_subtree X 0 = empty_levels X (Suc 255)" by (simp add: empty_subtree_def DEPTH_def del: empty_levels.simps)
  also have "\<dots> = blake3 X (empty_levels X 255 @ empty_levels X 255)" by (simp only: empty_levels.simps hash_pair_def)
  finally have "empty_subtree X 0 = blake3 X (empty_levels X 255 @ empty_levels X 255)" .
  then show ?thesis by (subst hash_range.simps) (auto simp: Let_def hash_pair_def DEPTH_def)
qed

lemma ones_compute_root [simp]: "compute_root ones_ext m = replicate 32 1" "receipts_root ones_ext rs = replicate 32 1"
proof -
  have h: "hash_range ones_ext kvs 0 0 k = replicate 32 1" for kvs k
    using hash_range_digest [of ones_ext kvs k] by (simp add: ones_ext_def)
  have "empty_root ones_ext = replicate 32 1"
    using h [of "[]" 0] by (simp add: empty_root_def hash_range.simps [of ones_ext "[]" 0 0 0])
  then show "compute_root ones_ext m = replicate 32 1" "receipts_root ones_ext rs = replicate 32 1"
    by (simp_all add: compute_root_def receipts_root_def receipts_subroot_def Let_def h)
qed

lemma ones_genesis_ok: "genesis_ok ones_ext"
  by code_simp

text \<open>A node with one pending payment mines the block \<open>ones_block\<close>.\<close>

definition ones_state :: state where
  "ones_state = projr (apply_and_execute ones_ext demo_host state_new (first_block ones_ext) genesis_view_of)"

definition ones_payment :: transaction where
  "ones_payment = Transfer \<lparr> t_from = payer, t_to = bob, t_amount = 0, t_fee = 0, t_nonce = 1,
     t_chain_id = CHAIN_ID_REGTEST, t_signature = replicate 65 2, t_is_coinbase = False \<rparr>"

definition ones_pool :: mempool where
  "ones_pool = fst (projr (mp_insert ones_ext demo_pool ones_payment account_default))"

lemma ones_insert: "is_ok (mp_insert ones_ext demo_pool ones_payment account_default)"
  by code_simp

lemma ones_keys: "cache_keys (from_state ones_state) = [''initial_wallet_address'']"
  by code_simp

lemma ones_supply: "cache_total_supply (from_state ones_state) = 10000"
  by code_simp

lemma ones_pending: "get_pending ones_pool 1000 = [ones_payment]"
  by code_simp

lemma ones_payer: "cache_get (from_state ones_state) payer = None"
  by code_simp

definition ones_txs :: "transaction list" where
  "ones_txs = [tx_coinbase ''coinbase'' ''initial_wallet_address''
     (block_reward_at_height_for_chain 1 10000 CHAIN_ID_REGTEST) CHAIN_ID_REGTEST, ones_payment]"

definition ones_block :: block where
  "ones_block = \<lparr> blk_index = 1, blk_timestamp = 1, blk_transactions = ones_txs,
     blk_previous_hash = demo_hex_encode (replicate 32 1), blk_hash = demo_hex_encode (replicate 32 1), blk_nonce = 0,
     blk_target = MAX_TARGET_HEX, blk_consensus_version = 1, blk_state_root = replicate 32 1,
     blk_tx_root = replicate 32 1, blk_receipts_root = replicate 32 1 \<rparr>"

lemma ones_solves: "u256_le (u256_from_bytes (replicate 32 1)) (u256_from_bytes (replicate 32 255))"
  "target_array ones_ext MAX_TARGET_HEX = Inr (replicate 32 255)"
  by code_simp+

lemma length_hex [simp]: "length (demo_hex_encode bs) = 2 * length bs"
  by (induction bs) simp_all

lemma ones_sizes:
  "length (serialize_transaction_signed (tx_coinbase ''coinbase'' ''initial_wallet_address'' r c)) < 300"
  "length (serialize_transaction_signed ones_payment) < 300"
  by (simp_all add: serialize_transaction_signed_def tx_coinbase_def ones_payment_def write_string_def bob_def payer_def)

lemma ones_fits: "enforce_size_limits ones_ext ones_block = Inr ()" "enforce_block_gas_limit ones_txs = Inr ()"
proof -
  have "hex_decode ones_ext MAX_TARGET_HEX = Some (replicate 32 255)"
    using ones_solves(2) by (auto simp: target_array_def split: if_splits)
  moreover have "demo_hex_decode (demo_hex_encode (replicate 32 1)) = Some (replicate 32 1)"
    using hex_okD [OF demo_hex_ok] by simp
  ultimately obtain bs where "serialize_block_header ones_ext ones_block = Inr bs" "length bs = 189"
    by (simp add: serialize_block_header_def serialize_header_def write_bytes32_def ones_block_def header_def ones_ext_def)
  then show "enforce_size_limits ones_ext ones_block = Inr ()"
    using ones_sizes(1) [of "block_reward_at_height_for_chain 1 10000 CHAIN_ID_REGTEST" CHAIN_ID_REGTEST] ones_sizes(2)
    by (simp add: enforce_size_limits_def serialize_block_def ones_block_def ones_txs_def MAX_BLOCK_SIZE_def MAX_TX_SIZE_def)
  show "enforce_block_gas_limit ones_txs = Inr ()"
    by (simp add: enforce_block_gas_limit_def ones_txs_def gas_reserved_def tx_coinbase_def ones_payment_def BLOCK_GAS_LIMIT_def)
qed

lemma ones_hash: "block_hash ones_ext ones_block = Inr (replicate 32 1)"
proof -
  have "hex_decode ones_ext MAX_TARGET_HEX = Some (replicate 32 255)"
    using ones_solves(2) by (auto simp: target_array_def split: if_splits)
  moreover have "demo_hex_decode (demo_hex_encode (replicate 32 1)) = Some (replicate 32 1)"
    using hex_okD [OF demo_hex_ok] by simp
  ultimately show ?thesis
    by (simp add: block_hash_def serialize_block_header_def serialize_header_def write_bytes32_def ones_block_def header_def ones_ext_def)
qed

lemma ones_exec:
  "case apply_and_execute ones_ext demo_host (to_state (from_state ones_state)) ones_block
     (view_at \<lparr>cp_now = 0, cp_allow_grant_blocks = True, cp_allow_zero_state_root = True, cp_rules = consensus_manager_new,
        cp_chain_id = CHAIN_ID_REGTEST\<rparr> [first_block ones_ext] 1 fmempty) of
     Inr s \<Rightarrow> is_ok (enforce_receipt_gas_limit (st_receipts s)) | Inl _ \<Rightarrow> False"
  by code_simp

lemma first_block_fields:
  "blk_index (first_block ones_ext) = 0" "blk_target (first_block ones_ext) = MAX_TARGET_HEX"
  "blk_hash (first_block ones_ext) = demo_hex_encode (replicate 32 1)" "blk_timestamp (first_block ones_ext) = 0"
  by code_simp+

lemma ones_node:
  obtains n0 n out where "open_local ones_ext demo_host 0 CHAIN_ID_REGTEST = Inr n0"
    and "add_transaction ones_ext (\<lambda>_. Some []) n0 ones_payment = Inr (n, out)"
    and "node_ok ones_ext demo_host 0 n" and "nd_chain n = [first_block ones_ext]"
    and "nd_balances n = from_state ones_state" and "nd_mempool n = ones_pool" and "nd_chain_id n = CHAIN_ID_REGTEST"
    and "nd_rules n = consensus_manager_new" and "nd_codes n = fmempty"
    and "params n 0 = \<lparr>cp_now = 0, cp_allow_grant_blocks = True, cp_allow_zero_state_root = True,
      cp_rules = consensus_manager_new, cp_chain_id = CHAIN_ID_REGTEST\<rparr>"
proof -
  obtain n s where n: "open_local ones_ext demo_host 0 CHAIN_ID_REGTEST = Inr n"
    "validate_and_apply ones_ext demo_host state_new (first_block ones_ext) genesis_view_of = Inr s"
    and f: "n = (empty_node 0 CHAIN_ID_REGTEST True)\<lparr>nd_chain := [first_block ones_ext], nd_receipts := st_receipts s,
      nd_balances := from_state s, nd_total_work := nd_total_work n\<rparr>"
    using demo_open [OF ones_genesis_ok] by blast
  have s: "s = ones_state" using n(2) by (simp add: validate_and_apply_iff ones_state_def)
  have "nd_mempool n = demo_pool" "cache_get (nd_balances n) payer = None"
    using ones_payer by (subst f, simp add: empty_node_def demo_pool_def s)+
  moreover obtain q out where q: "mp_insert ones_ext demo_pool ones_payment account_default = Inr (q, out)"
    using ones_insert by (auto simp: is_ok_iff)
  ultimately have add: "add_transaction ones_ext (\<lambda>_. Some []) n ones_payment = Inr (n\<lparr>nd_mempool := ones_pool\<rparr>, out)"
    by (simp add: add_transaction_def ones_payment_def [symmetric]) (simp add: ones_payment_def ones_pool_def bob_def payer_def)
  from this have "node_ok ones_ext demo_host 0 (n\<lparr>nd_mempool := ones_pool\<rparr>)"
    by (rule node_ok_add_transaction [OF node_ok_open_local [OF n(1)]])
  with n(1) add show thesis by (rule that) (subst f, simp add: empty_node_def s params_def)+
qed

lemma ones_mined:
  assumes "nd_chain n = [first_block ones_ext]" and "nd_balances n = from_state ones_state" and "nd_mempool n = ones_pool"
    and "nd_chain_id n = CHAIN_ID_REGTEST" and "nd_rules n = consensus_manager_new" and "nd_codes n = fmempty"
    and "params n 0 = \<lparr>cp_now = 0, cp_allow_grant_blocks = True, cp_allow_zero_state_root = True,
      cp_rules = consensus_manager_new, cp_chain_id = CHAIN_ID_REGTEST\<rparr>"
  shows "mine_block_inner ones_ext demo_host (\<lambda>_. False) 0 n (last (nd_chain n)) (mining_transactions n) = Some (Inr (Some ones_block))"
    and "block_fits ones_ext demo_host n ones_block" and "median_time_past (nd_chain n) (blk_index ones_block) = Inr 0"
proof -
  have txs: "mining_transactions n = ones_txs"
    using assms(1-4) by (simp add: mining_transactions_def ones_keys ones_supply ones_pending first_block_fields ones_txs_def)
  have mtp: "median_time_past [first_block ones_ext] 1 = Inr 0"
    by code_simp
  then show "median_time_past (nd_chain n) (blk_index ones_block) = Inr 0" by (simp add: assms(1) ones_block_def)
  define base where "base = base_block ones_ext 0 n ones_txs 0 MAX_TARGET_HEX"
  have root: "compute_tx_root ones_ext ones_txs = replicate 32 1"
    by code_simp
  have "ones_block = seal base (replicate 32 1) (replicate 32 1) 0 (demo_hex_encode (replicate 32 1))"
    by (simp add: ones_block_def base_def base_block_def seal_def assms(1,5) first_block_fields root)
  then have same: "apply_and_execute ones_ext demo_host s ones_block v = apply_and_execute ones_ext demo_host s base v" for s v
    using seal_execute [OF demo_header_blind, of ones_ext s base] by metis
  have view: "view_for n 0 1 = view_at (params n 0) [first_block ones_ext] 1 fmempty" by (simp add: view_for_def assms(1,6))
  obtain post where post: "apply_and_execute ones_ext demo_host (to_state (nd_balances n)) ones_block (view_for n 0 1) = Inr post"
    "enforce_receipt_gas_limit (st_receipts post) = Inr ()"
    using ones_exec by (auto simp: view assms(2,7) is_ok_iff split: sum.splits)
  let ?b0 = "base\<lparr>blk_state_root := replicate 32 1, blk_receipts_root := replicate 32 1\<rparr>"
  have tmpl: "mine_template ones_ext demo_host 0 n (first_block ones_ext) ones_txs = Inr (Some ?b0)"
    using post(1) mtp unfolding same
    by (simp add: mine_template_def assms(1,5) first_block_fields RETARGET_INTERVAL_def base_def base_block_def)
  show "block_fits ones_ext demo_host n ones_block"
    using ones_fits post by (simp add: block_fits_def ones_block_def [THEN arg_cong, of blk_index] ones_block_def [THEN arg_cong, of blk_transactions]
      ones_block_def [THEN arg_cong, of blk_state_root] ones_block_def [THEN arg_cong, of blk_receipts_root] zero32_def)
  have b0: "?b0 = ones_block\<lparr>blk_hash := []\<rparr>"
    by (simp add: ones_block_def base_def base_block_def assms(1,5) first_block_fields root)
  have "block_hash ones_ext ?b0 = Inr (replicate 32 1)" unfolding b0 block_hash_ignores_hash by (rule ones_hash)
  then have h: "hashable ones_ext ?b0" "solves ones_ext (u256_from_bytes (replicate 32 255)) ?b0"
    "projr (calculate_hash ones_ext ?b0) = demo_hex_encode (replicate 32 1)"
    using ones_solves(1) by (simp_all add: hashable_def solves_def calculate_hash_def ones_ext_def)
  have tgt: "blk_target ?b0 = MAX_TARGET_HEX" by (simp add: b0 ones_block_def)
  have "mine_loop ones_ext (\<lambda>_. False) (u256_from_bytes (replicate 32 255)) 0 ?b0
      = Some (Inr (Some (?b0\<lparr>blk_hash := demo_hex_encode (replicate 32 1)\<rparr>)))"
    by (subst mine_loop_unfold [OF ones_laws h(1)]) (simp only: h(2,3) if_True if_False)
  moreover have "?b0\<lparr>blk_hash := demo_hex_encode (replicate 32 1)\<rparr> = ones_block" by (simp add: b0) (simp add: ones_block_def)
  moreover have "last (nd_chain n) = first_block ones_ext" by (simp add: assms(1))
  ultimately show "mine_block_inner ones_ext demo_host (\<lambda>_. False) 0 n (last (nd_chain n)) (mining_transactions n) = Some (Inr (Some ones_block))"
    unfolding mine_block_inner_def txs by (simp only: tmpl tgt ones_solves(2) sum.case option.case lift_core.simps)
qed

lemma ones_accepted:
  obtains n0 n out n' where "open_local ones_ext demo_host 0 CHAIN_ID_REGTEST = Inr n0"
    and "add_transaction ones_ext (\<lambda>_. Some []) n0 ones_payment = Inr (n, out)"
    and "node_ok ones_ext demo_host 0 n" and "nd_chain n = [first_block ones_ext]"
    and "commit_block ones_ext demo_host 0 n ones_block = Inr n'"
proof -
  obtain n0 n out where n: "open_local ones_ext demo_host 0 CHAIN_ID_REGTEST = Inr n0"
    "add_transaction ones_ext (\<lambda>_. Some []) n0 ones_payment = Inr (n, out)"
    "node_ok ones_ext demo_host 0 n" and ch: "nd_chain n = [first_block ones_ext]"
    and f: "nd_balances n = from_state ones_state" "nd_mempool n = ones_pool" "nd_chain_id n = CHAIN_ID_REGTEST"
    "nd_rules n = consensus_manager_new" "nd_codes n = fmempty"
    "params n 0 = \<lparr>cp_now = 0, cp_allow_grant_blocks = True, cp_allow_zero_state_root = True,
      cp_rules = consensus_manager_new, cp_chain_id = CHAIN_ID_REGTEST\<rparr>" by (rule ones_node)
  note M = ones_mined [OF ch f]
  have "\<exists>t. validate_and_apply ones_ext demo_host (to_state (nd_balances n)) ones_block (view_for n 0 (blk_index ones_block)) = Inr t"
    by (rule mined_block_valid [OF ones_laws demo_header_blind n(3) _ _ M(1) _ M(2,3)]) (simp_all add: ch f(4))
  then obtain n' where "commit_block ones_ext demo_host 0 n ones_block = Inr n'"
    using accepted_commit [OF node_ok_linked [OF n(3)]] by blast
  then show thesis by (rule that [OF n ch])
qed

lemma ones_work: "0 < target_work ones_ext MAX_TARGET_HEX" "2 * target_work ones_ext MAX_TARGET_HEX < 2 ^ 256"
  by code_simp+

lemma ones_candidate:
  obtains n s where "node_ok ones_ext demo_host 0 n" and "beats ones_ext [first_block ones_ext, ones_block] (nd_chain n)"
    and "replay ones_ext demo_host (params n 0) [first_block ones_ext, ones_block] = Inr s"
proof -
  obtain n0 n out n' where n: "node_ok ones_ext demo_host 0 n" "nd_chain n = [first_block ones_ext]"
    and n': "commit_block ones_ext demo_host 0 n ones_block = Inr n'" by (rule ones_accepted)
  let ?g = "first_block ones_ext"
  note ok = node_ok_commit [OF n(1) n']
  have ch: "nd_chain n' = [?g, ones_block]" using ok(2) n(2) by simp
  have "params n' 0 = params n 0" using n' by (auto simp: commit_block_def Let_def bind_res_Inr_iff)
  then obtain s where s: "replay ones_ext demo_host (params n 0) [?g, ones_block] = Inr s"
    using ok(1) by (auto simp: node_ok_def ch)
  obtain i j where ij: "chain_info_of ones_ext [?g] = Inr (Some i)" "chain_info_of ones_ext [?g, ones_block] = Inr (Some j)"
    using linked_info [OF node_ok_linked [OF n(1)]] linked_info [OF node_ok_linked [OF ok(1)]] by (auto simp: n(2) ch)
  have tgt: "blk_target ones_block = MAX_TARGET_HEX" by (simp add: ones_block_def)
  have "is_better j i"
    by (rule chain_info_extend [of "[?g]" ones_ext i "[ones_block]" j])
      (use ij ones_work in \<open>simp_all add: tgt first_block_fields\<close>)
  then have "beats ones_ext [?g, ones_block] (nd_chain n)" using ij by (auto simp: beats_def n(2))
  then show thesis using that n(1) s by blast
qed

section \<open>A deployment\<close>

definition demo_create :: create_tx where
  "demo_create = (case tx_create alice [1, 2, 3] [] 10 1 CHAIN_ID_REGTEST of Create c \<Rightarrow> c)"

definition demo_deploys :: block where
  "demo_deploys = demo_block\<lparr>blk_transactions := [tx_coinbase alice bob 0 CHAIN_ID_REGTEST, Create demo_create]\<rparr>"

lemma demo_deployed:
  "case derive_contract_address demo_ext alice 0 CHAIN_ID_REGTEST of
     Inl _ \<Rightarrow> False | Inr address \<Rightarrow> fmlookup (balances demo_state) address = None"
  "case apply_create demo_ext demo_vm demo_state demo_create CHAIN_ID_REGTEST () demo_deploys 1 of
     Inl _ \<Rightarrow> False | Inr (s, v, r) \<Rightarrow> rc_status r = TxSuccess"
  "collision_free demo_ext [contract_addr_input alice 0, contract_addr_input alice 1]"
  "c_from demo_create = alice" "c_nonce demo_create = 1" "get_nonce demo_state alice = 0"
  "blake3 demo_ext (c_init_code demo_create) \<noteq> zero32"
  by code_simp+

section \<open>A node opened from its database\<close>

lemma ones_validates:
  "\<exists>t. validate_and_apply ones_ext demo_host (to_state (from_state ones_state)) ones_block
    (view_at (opening_params 0 CHAIN_ID_REGTEST True True) [first_block ones_ext] 1 fmempty) = Inr t"
proof -
  obtain n0 n out where n: "node_ok ones_ext demo_host 0 n" and ch: "nd_chain n = [first_block ones_ext]"
    and f: "nd_balances n = from_state ones_state" "nd_mempool n = ones_pool" "nd_chain_id n = CHAIN_ID_REGTEST"
    "nd_rules n = consensus_manager_new" "nd_codes n = fmempty" "params n 0 = opening_params 0 CHAIN_ID_REGTEST True True"
    by (rule ones_node)
  note M = ones_mined [OF ch f]
  have "\<exists>t. validate_and_apply ones_ext demo_host (to_state (nd_balances n)) ones_block (view_for n 0 (blk_index ones_block)) = Inr t"
    by (rule mined_block_valid [OF ones_laws demo_header_blind n _ _ M(1) _ M(2,3)]) (simp_all add: ch f(4))
  then show ?thesis by (simp add: view_for_def ch f(1,5,6)) (simp add: ones_block_def)
qed

definition ones_database :: persisted_state where
  "ones_database = \<lparr>ps_chain = Some [first_block ones_ext], ps_balances = Some (balances ones_state),
     ps_contract_storage = Some (st_storage ones_state), ps_difficulty = None, ps_mempool_txs = []\<rparr>"

lemma no_base64 [simp]: "legacy_in_chain X (\<lambda>_. None) chain = False" "migrated_address X (\<lambda>_. None) net a = None"
  by (auto simp: legacy_in_chain_def is_legacy_field_def legacy_key_def migrated_address_def list_ex_iff)

lemma ones_replay:
  obtains s where "replay ones_ext demo_host (opening_params 0 CHAIN_ID_REGTEST True True) [first_block ones_ext] = Inr s"
    and "from_state s = from_state ones_state" and "codes_from_chain ones_ext [first_block ones_ext] CHAIN_ID_REGTEST = fmempty"
    and "linked ones_ext [first_block ones_ext]"
proof -
  obtain n0 n out where n: "node_ok ones_ext demo_host 0 n" "nd_chain n = [first_block ones_ext]"
    and f: "nd_balances n = from_state ones_state" "nd_chain_id n = CHAIN_ID_REGTEST" "nd_codes n = fmempty"
    "params n 0 = opening_params 0 CHAIN_ID_REGTEST True True" by (rule ones_node)
  then show thesis using that node_ok_linked [OF n(1)] by (auto simp: node_ok_def)
qed

lemma ones_opened:
  obtains n n' where "database_ok ones_ext demo_host (\<lambda>_. None) (opening_params 0 CHAIN_ID_REGTEST True True) ones_database"
    and "open_configured ones_ext demo_host (\<lambda>_. None) (Inl EIoError) 0 ones_database CHAIN_ID_REGTEST True True = Inr n"
    and "add_block ones_ext demo_host 0 n ones_block = Inr n'" and "nd_chain n' = [first_block ones_ext, ones_block]"
proof -
  obtain s where s: "replay ones_ext demo_host (opening_params 0 CHAIN_ID_REGTEST True True) [first_block ones_ext] = Inr s"
    "from_state s = from_state ones_state" "codes_from_chain ones_ext [first_block ones_ext] CHAIN_ID_REGTEST = fmempty"
    and L: "linked ones_ext [first_block ones_ext]" by (rule ones_replay)
  have eq: "balances s = balances ones_state" "st_storage s = st_storage ones_state" using s(2) by (simp_all add: from_state_def)
  have db: "database_ok ones_ext demo_host (\<lambda>_. None) (opening_params 0 CHAIN_ID_REGTEST True True) ones_database"
    unfolding database_ok_def using s(1) eq by (intro exI [of _ "[first_block ones_ext]"] exI [of _ s]) (simp add: ones_database_def list_all_iff)
  obtain w where w: "cumulative_work ones_ext [first_block ones_ext] = Inr w" using linked_work [OF L] by blast
  let ?n = "\<lparr> nd_chain = [first_block ones_ext], nd_balances = from_state ones_state, nd_difficulty = 1,
    nd_mempool = mempool_new CHAIN_ID_REGTEST, nd_allow_grant_blocks = True, nd_allow_zero_state_root = True,
    nd_total_work = w, nd_rules = consensus_manager_new, nd_chain_id = CHAIN_ID_REGTEST, nd_codes = fmempty, nd_receipts = [] \<rparr>"
  have "open_configured ones_ext demo_host (\<lambda>_. None) (Inl EIoError) 0 ones_database CHAIN_ID_REGTEST True True = Inr ?n"
    unfolding open_configured_def
    by (subst open_blockchain_loaded [where chain = "[first_block ones_ext]" and s = ones_state and p = "mempool_new CHAIN_ID_REGTEST"])
      (simp_all add: ones_database_def list_all_iff insert_all_def validate_genesis_def is_regtest_def is_ok_iff w s(3)
        set_allow_zero_state_root_def set_allow_grant_blocks_def)
  moreover obtain n' where "commit_block ones_ext demo_host 0 ?n ones_block = Inr n'" "nd_chain n' = nd_chain ?n @ [ones_block]"
  proof -
    have "blk_index ones_block = 1" by (simp add: ones_block_def)
    then have "\<exists>t. validate_and_apply ones_ext demo_host (to_state (nd_balances ?n)) ones_block (view_for ?n 0 (blk_index ones_block)) = Inr t"
      using ones_validates by (simp add: view_for_def params_def)
    moreover have "linked ones_ext (nd_chain ?n)" using L by simp
    ultimately show thesis using accepted_commit [of ones_ext ?n demo_host ones_block 0] that by metis
  qed
  ultimately show thesis using that [OF db] by (simp add: add_block_def)
qed

section \<open>A node on an empty database\<close>

definition fresh_block :: "ext \<Rightarrow> block" where
  "fresh_block X = projr (regtest_genesis_block X 1)"

lemma fresh_block_ok: "is_ok (regtest_genesis_block demo_ext 1)"
  "is_ok (validate_block demo_ext (fresh_block demo_ext) (view_at (opening_params 0 CHAIN_ID_REGTEST False False) [] 0 fmempty))"
  "case apply_and_execute demo_ext demo_host state_new (fresh_block demo_ext) (view_at (opening_params 0 CHAIN_ID_REGTEST False False) [] 0 fmempty) of
     Inr s \<Rightarrow> is_ok (enforce_receipt_gas_limit (st_receipts s)) | Inl _ \<Rightarrow> False"
  by code_simp+

lemma fresh_block_eq: "regtest_genesis_block demo_ext 1 = Inr (fresh_block demo_ext)"
  using fresh_block_ok(1) by (auto simp: fresh_block_def is_ok_iff)

lemma fresh_block_fields:
  "blk_index (fresh_block demo_ext) = 0" "blk_state_root (fresh_block demo_ext) = zero32" "blk_receipts_root (fresh_block demo_ext) = zero32"
  "blk_transactions (fresh_block demo_ext) = [tx_coinbase ''genesis'' ''regtest_initial_holder'' 1000000000 CHAIN_ID_REGTEST]"
  using fresh_block_eq genesis_block_index by (auto simp: regtest_genesis_block_def bind_res_Inr_iff)

lemma fresh_opened:
  obtains n s where "open_blockchain demo_ext demo_host (\<lambda>_. None) (Inl EIoError) 0 no_database CHAIN_ID_REGTEST = Inr n"
    and "replay demo_ext demo_host (params n 0) (nd_chain n) = Inr s"
proof -
  let ?b = "fresh_block demo_ext" and ?P = "opening_params 0 CHAIN_ID_REGTEST False False"
  obtain s where v: "validate_and_apply demo_ext demo_host state_new ?b (view_at ?P [] 0 fmempty) = Inr s"
    using fresh_block_ok(2,3) by (auto simp: validate_and_apply_iff is_ok_iff check_commitments_def fresh_block_fields split: sum.splits)
  then have r: "replay demo_ext demo_host ?P [?b] = Inr s" by (simp add: replay_def)
  obtain w where w: "cumulative_work demo_ext [?b] = Inr w" using linked_work [OF replay_linked [OF r]] by blast
  let ?e = "empty_node 1 CHAIN_ID_REGTEST False"
  let ?n = "?e\<lparr>nd_chain := [?b]\<rparr>"
  have i: "install_fresh_genesis demo_ext (Inl EIoError) ?e = Inr ?n"
    by (simp add: install_fresh_genesis_def empty_node_def is_regtest_def fresh_block_eq validate_genesis_def fresh_block_fields tx_coinbase_def)
  have m: "migrate_initial_wallet_balance demo_ext demo_host 0 (?n\<lparr>nd_total_work := w\<rparr>) = Inr (?n\<lparr>nd_total_work := w\<rparr>)"
    "migrate_addresses_to_bech32 demo_ext (\<lambda>_. None) (Inl EIoError) (?n\<lparr>nd_total_work := w\<rparr>) = Inr (?n\<lparr>nd_total_work := w\<rparr>)"
    by (simp add: migrate_initial_wallet_balance_def empty_node_def, rule no_migration) (simp_all add: list_all_iff)
  have e: "?e\<lparr>nd_mempool := nd_mempool ?e\<rparr> = ?e" by simp
  have "open_blockchain demo_ext demo_host (\<lambda>_. None) (Inl EIoError) 0 no_database CHAIN_ID_REGTEST
      = Inr (?n\<lparr>nd_total_work := w, nd_codes := codes_from_chain demo_ext [?b] CHAIN_ID_REGTEST\<rparr>)"
    unfolding open_blockchain_def Let_def no_database_def by (simp add: insert_all_def i w m)
  then show thesis by (rule that) (simp add: params_def empty_node_def r)
qed

end
