(* ===== verification/Spec2Isabelle.thy ===== *)
theory Spec2Isabelle
  imports Sc_Samples Sc_Examples
begin

text \<open>
  \<^bold>\<open>The program.\<close> Strangecoin is a proof-of-work blockchain node with account balances, transfers and
  WebAssembly contracts. Its consensus core is the crate \<open>crates/strangecoin-core\<close>, which performs no
  input or output: it defines blocks, transactions and accounts, their byte format, the state transition
  and its inverse, the sparse Merkle commitment of the state, witnesses for stateless verification, the
  consensus rules, the fork choice and the calldata format of contracts. The node itself is \<open>src/\<close>: a pool
  of pending transactions, the block executor that validates, applies and mines blocks, a cache of the
  state that can be rebuilt from the chain, and the adoption of better chains, behind a facade whose lock
  makes every call one step. This development models the core and the node as HOL functions, the node's
  calls as a transition system, and proves the properties that make them correct.

  \<^bold>\<open>How the model reads.\<close> A Rust struct is a \<open>record\<close>, an enum a \<open>datatype\<close>, \<open>u8\<close> to \<open>u128\<close> are words of
  that width with the wrap-around of a release build, \<open>Vec<u8>\<close> and \<open>[u8; 32]\<close> are lists of bytes, a
  \<open>String\<close> is a list of characters that are its UTF-8 bytes, a \<open>HashMap\<close> is a finite map that is read in
  the order of its keys wherever the code iterates over it, and a length or an index (\<open>usize\<close>) is a
  natural number, reduced modulo \<open>2 ^ 64\<close> where the code adds sizes that a caller chooses. A fallible
  function returns a sum whose left side is the error of the code; a panic is an error of its own
  (\<open>Panic\<close>, \<open>AbiPanic\<close>, \<open>EPanic\<close>). A function that mutates a state takes and returns it. Loops are recursions or
  folds whose step is a definition of its own. The clock is an argument of the operations that read it;
  a grant reads it once where the code reads it twice in a row.

  \<^bold>\<open>What is a parameter.\<close> The record \<open>ext\<close> of \<open>Sc_Types\<close> holds the third-party functions: the hash
  \<open>blake3\<close>, hexadecimal and bech32m codecs and the secp256k1 operations. The hypotheses on them are named
  and state what those packages document: \<open>hash32\<close> (digests have 32 bytes), \<open>hex_ok\<close>, \<open>bech32_ok\<close>
  (decoding inverts encoding). The hash is never assumed to be injective: a theorem that needs it says
  that the inputs it names do not collide, or concludes that two of them do. The contract executor is the
  record \<open>vm_executor\<close>, the trait of \<open>vm/traits.rs\<close>; \<open>vm_ok\<close> states the contract of its results and
  \<open>header_blind\<close> that it reads the height, time and coinbase of a block but not its header. The record
  \<open>host\<close> adds the constructor of the executor and the loading of code. Reading files, \<open>serde_json\<close> and
  base64 are function arguments. The theories \<open>Sc_Instance\<close> and \<open>Sc_Examples\<close> give the records concrete
  values at which all hypotheses hold.

  \<^bold>\<open>The theories.\<close>

  \<^item> \<open>Sc_Prelude\<close>: machine words, checked and saturating arithmetic, results, byte strings, UTF-8,
    decimal numbers, joining and splitting, finite maps; the collections \<open>wire_simps\<close>, \<open>u256_simps\<close>
    and \<open>state_simps\<close>.
  \<^item> \<open>Sc_U256\<close>: the limb arithmetic of \<open>consensus.rs\<close>; each routine computes the operation on the value
    of its limbs.
  \<^item> \<open>Sc_Abi\<close>, \<open>Sc_AbiCodec\<close>: \<open>abi/mod.rs\<close>, \<open>encode.rs\<close>, \<open>decode.rs\<close>, \<open>selector.rs\<close>: type names and their
    parser, the head and tail codec of values, method selectors and documents. The codec is proved to be
    a bijection on its image, and the decoder never to slice out of range.
  \<^item> \<open>Sc_Types\<close>: \<open>types.rs\<close>, \<open>error.rs\<close> and the data of \<open>vm/\<close>.
  \<^item> \<open>Sc_Codec\<close>: \<open>serialize.rs\<close>: writers, readers, transaction ids, header and block hashes, Merkle
    roots. Readers are shown to invert writers from any offset, through the locale \<open>codec\<close>.
  \<^item> \<open>Sc_Emission\<close>, \<open>Sc_Address\<close>: the reward schedule and the addresses.
  \<^item> \<open>Sc_Smt\<close>: \<open>state/sparse_merkle.rs\<close>. The specification \<open>smt\<close> is the root of a function from paths to
    leaves; the sorted-slice algorithm \<open>hash_range\<close> computes it, proofs are complete, and binding up to
    collisions among the listed inputs.
  \<^item> \<open>Sc_State\<close>: \<open>state/inner.rs\<close>, \<open>state/contract_storage.rs\<close>, \<open>state/mod.rs\<close>: every handler of
    \<open>apply_block\<close> and \<open>unapply_block\<close>.
  \<^item> \<open>Sc_Ledger\<close>: the accounts as cells (locale \<open>cells\<close>, interpreted for balances and for nonces), the
    total number of coins and what each operation does to it.
  \<^item> \<open>Sc_Undo\<close>: well-formed states, kept by every block, and the reversal of a block transaction by
    transaction.
  \<^item> \<open>Sc_Witness\<close>, \<open>Sc_Stateless\<close>: \<open>state/witness.rs\<close> and the multi-leaf update: the update computes the
    root of the changed state, and stateless verification agrees with execution on the full state.
  \<^item> \<open>Sc_Consensus\<close>: \<open>consensus.rs\<close> and \<open>chain_selector.rs\<close>: time, difficulty, proof of work,
    signatures, work, and the fork choice as a preference order (locale \<open>preference\<close>).
  \<^item> \<open>Sc_Rules\<close>: \<open>src/error.rs\<close>, \<open>governance/scip.rs\<close>, \<open>blockchain/consensus_manager.rs\<close>: the errors of
    the node, the versions and phases in force at a height.
  \<^item> \<open>Sc_Mempool\<close>: \<open>src/mempool/mod.rs\<close>: the pool, its consistency and the coverage of what is pending.
  \<^item> \<open>Sc_Executor\<close>: the validation half of \<open>blockchain/block_executor.rs\<close>. Execution is shown to read only
    balances and storage, so a state rebuilt from a snapshot is as good as the original.
  \<^item> \<open>Sc_Chain\<close>: the state cache and \<open>rebuild_from_chain\<close> of \<open>blockchain/state_cache.rs\<close>, the genesis blocks
    of \<open>src/consensus/mod.rs\<close>, the queries of \<open>blockchain/chain_selector.rs\<close>. A chain that replays is linked
    by hashes and indexed by position.
  \<^item> \<open>Sc_Node\<close>: the record \<open>blockchain\<close> of \<open>blockchain/blockchain_facade.rs\<close> and every operation on it: commit,
    genesis, grants, mining, the pool entry, opening and migrations, adoption. Commits, grants, mining,
    the pool entry, rebuilding and adoption keep the invariant \<open>node_ok\<close>.
  \<^item> \<open>Sc_Reach\<close>: the calls of the facade as the step relation \<open>node_step\<close>; invariants along runs through the
    locale \<open>preserved\<close>; termination of mining; mined blocks, adoption and supply.
  \<^item> \<open>Sc_Open\<close>: the node as the program opens it (\<open>src/lib.rs\<close>, \<open>blockchain/state_cache.rs\<close>). A node loaded from a
    database with a chain and the accounts of its replay keeps the invariant \<open>node_held\<close> along its runs; a
    node on an empty database does not hold what its genesis block pays.
  \<^item> \<open>Sc_Instance\<close>, \<open>Sc_Samples\<close>, \<open>Sc_Examples\<close>: concrete parameters, states, nodes and inputs, at which the
    properties below are applied.

  \<^bold>\<open>What the properties show.\<close> Each property names its conditions in the text before it. Reversing
  a block with one coinbase restores the state it was applied to, storage and contracts included, with the
  receipts cleared (C1, C5); a block creates at most its reward, and a chain at most the schedule (C2,
  C3); states stay well formed (C4). What a node holds is along every run the replay of its chain, when
  it was opened locally or from a database with a chain (C6); what it mines it accepts, and mining ends when it can (C7, C8); chains are adopted exactly when
  they should be and never at a loss of work (C9, C10); a tip hash fixes the history (C11) and the supply
  of a node is bounded (C12). The pool is consistent and covered by the balances (C13, C14), the stored
  form of contract storage is read back (C15). Three properties record where the code
  departs from its documentation or from itself: the nonce of a transfer (C16), the registry of code (C17) and
  the node on an empty database (C18). The state root commits to every account and proofs about it can be
  made and trusted (C19 to C21); a node without the state accepts only blocks a full node accepts, given
  canonical witnesses (C22), and all of them in the halving era (C23). The byte formats are inverted by
  their readers on values in wire form and bind their contents (C24 to C28), so are the type names and the
  calldata format of contracts (C29 to C32) and addresses (C33, C34). The remaining properties state what
  the difficulty, time, proof-of-work and fork-choice rules decide (C35 to C40).

  \<^bold>\<open>Fuel.\<close> No definition takes fuel: the recursions go down in a list, a number of levels (256 for the
  tree), the type or the value (the calldata codec), or the name that is parsed, each with its measure.
  The one loop that may run forever, the search for a nonce, is a partial function whose value is \<open>None\<close>
  when it does; C8 says when that is.

  \<^bold>\<open>Not modelled.\<close> Parsing and printing of JSON (\<open>serde\<close>), logging, the network crate (sockets, peers,
  gossip and synchronisation, which act on the node through the facade), the database (\<open>save_state\<close> only
  writes, and what \<open>load_persisted_state\<close> reads is an argument of \<open>open_blockchain\<close>), the graphical and
  command line interfaces, the configuration and the wallet files call libraries outside the repository
  or perform input and output. The closures \<open>with_inner_mut\<close> and \<open>with_state_cache_mut\<close> of the facade may
  change anything and are not steps, nor are the setters of the two flags that relax validation, which the program calls once,
  when it opens the node. Allocation is not modelled: the decoder of calldata builds a list as long as an
  array or its type says. The
  WebAssembly interpreter is outside the repository; its host functions and precompiles act on its memory,
  and are covered by the executor parameter.
\<close>

section \<open>The ledger\<close>

text \<open>C1: reversing a block gives back the state it was applied to, with an empty list of receipts, through
  any mix of transfers, deployments, calls, storage writes and value movements, under these conditions. The
  state is well formed. The block lies above genesis and is \<open>block_reversible\<close>: its first transaction is its
  only coinbase, its transaction ids differ and have no undo record from earlier, a deployment goes to an
  address without an account and has a code hash other than zero, and the nonce of a deployer or caller is
  not the largest. The executor reports each scope of written slots once, and a transfer for every
  successful call that carries a value (\<open>vm_ok\<close>). A block with two coinbases is not among these: only the first is
  credited, while the reversal debits both.\<close>

theorem apply_unapply_block:
  assumes "wf_state X s" and "vm_ok V" and "block_reversible X V s b chain_id v" and "blk_index b \<noteq> 0"
    and "apply_block_inner X V s b chain_id v = Inr (t, v')"
  shows "unapply_block X t b chain_id = Inr (s\<lparr>st_receipts := []\<rparr>)"
  using assms by (rule unapply_apply_block)

theorem apply_unapply_block_witness:
  "\<exists>t v'. apply_block_inner demo_ext demo_vm demo_state demo_block CHAIN_ID_REGTEST (Some ()) = Inr (t, v')
     \<and> unapply_block demo_ext t demo_block CHAIN_ID_REGTEST = Inr (demo_state\<lparr>st_receipts := []\<rparr>)"
proof -
  obtain t v' where t: "apply_block_inner demo_ext demo_vm demo_state demo_block CHAIN_ID_REGTEST (Some ()) = Inr (t, v')"
    using demo_apply_ok by (auto simp: is_ok_iff)
  with apply_unapply_block [OF demo_state_wf demo_vm_ok demo_reversible demo_height t] show ?thesis by blast
qed





text \<open>C4: every block keeps the state well formed: no empty account is stored, contracts have a code
  hash, and the storage root of a contract is the root of its slots.\<close>

theorem block_keeps_wf_state:
  assumes "wf_state X s" and "apply_block_inner X V s b chain_id vm = Inr (t, vm')"
    and "list_all (code_hashes_ok X) (blk_transactions b)"
  shows "wf_state X t"
  using assms by (rule wf_apply_block)

theorem block_keeps_wf_state_witness:
  "\<exists>t v'. apply_block_inner demo_ext demo_vm demo_state demo_block CHAIN_ID_REGTEST (Some ()) = Inr (t, v')
     \<and> wf_state demo_ext t"
proof -
  obtain t v' where t: "apply_block_inner demo_ext demo_vm demo_state demo_block CHAIN_ID_REGTEST (Some ()) = Inr (t, v')"
    using demo_apply_ok by (auto simp: is_ok_iff)
  with block_keeps_wf_state [OF demo_state_wf t demo_code_hashes] show ?thesis by blast
qed

text \<open>C5: the genesis block is reversible too.\<close>

theorem apply_unapply_genesis:
  assumes "clean s" and "blk_index b = 0" and "apply_block_inner X V s b chain_id v = Inr (t, v')"
  shows "unapply_block X t b chain_id = Inr (s\<lparr>st_receipts := []\<rparr>)"
  using assms by (rule unapply_apply_genesis)

theorem apply_unapply_genesis_witness:
  "\<exists>t v'. apply_block_inner demo_ext NoVm demo_state demo_genesis CHAIN_ID_REGTEST None = Inr (t, v')
     \<and> unapply_block demo_ext t demo_genesis CHAIN_ID_REGTEST = Inr (demo_state\<lparr>st_receipts := []\<rparr>)"
proof -
  obtain t v' where t: "apply_block_inner demo_ext NoVm demo_state demo_genesis CHAIN_ID_REGTEST None = Inr (t, v')"
    using demo_genesis_ok by (auto simp: is_ok_iff)
  with apply_unapply_genesis [OF demo_clean demo_genesis_height t] show ?thesis by blast
qed

section \<open>The node\<close>

text \<open>C6: the cache of a running node is the replay of its chain. The node is opened by \<open>open_local\<close>, or as the
  program opens it on a database that holds a chain with the accounts and the storage of its replay and no
  address in the old format (\<open>database_ok\<close>); a node that finds an empty database is not among these. After any
  run of blocks from peers, pooled transactions, adopted chains, mined blocks, grants and rebuilds,
  validating the chain from the empty state succeeds and gives the accounts and storage the node holds; the
  code registry and the work are those of the chain and the pool is consistent. The receipts are those of the
  replay, except that a node loaded from the database has none until they are first written. The flags that
  relax the validation are fixed along the run.\<close>

theorem reachable_node_replays:
  assumes "open_local X H t0 chain_id = Inr n0
      \<or> (\<exists>base64 file loaded g z. database_ok X H base64 (opening_params t0 chain_id g z) loaded
           \<and> open_configured X H base64 file t0 loaded chain_id g z = Inr n0)"
    and "(node_step X H to_json)\<^sup>*\<^sup>* (t0, n0) (t, n)"
  shows "\<exists>s. replay X H (params n t) (nd_chain n) = Inr s \<and> nd_balances n = from_state s
    \<and> (nd_receipts n = st_receipts s \<or> nd_receipts n = [])
    \<and> (open_local X H t0 chain_id = Inr n0 \<longrightarrow> nd_receipts n = st_receipts s)
    \<and> nd_codes n = codes_from_chain X (nd_chain n) (nd_chain_id n)
    \<and> cumulative_work X (nd_chain n) = Inr (nd_total_work n) \<and> pool_ok X (nd_mempool n)"
proof (cases "open_local X H t0 chain_id = Inr n0")
  case True
  with node_run_ok [OF assms(2) node_ok_open_local] show ?thesis by (auto simp: node_ok_def)
next
  case False
  with assms(1) have "node_held X H t0 n0" using held_open by blast
  then have "node_held X H t n" using held_runs.run_keeps [OF assms(2)] by simp
  with False show ?thesis by (auto simp: node_held_def)
qed

theorem reachable_node_replays_witness:
  "(\<exists>n0 n s. open_local ones_ext demo_host 0 CHAIN_ID_REGTEST = Inr n0
     \<and> (node_step ones_ext demo_host (\<lambda>_. Some []))\<^sup>*\<^sup>* (0, n0) (0, n) \<and> nd_chain n = [first_block ones_ext, ones_block]
     \<and> replay ones_ext demo_host (params n 0) (nd_chain n) = Inr s \<and> nd_balances n = from_state s)
   \<and> (\<exists>n0 n s. open_configured ones_ext demo_host (\<lambda>_. None) (Inl EIoError) 0 ones_database CHAIN_ID_REGTEST True True = Inr n0
     \<and> (node_step ones_ext demo_host (\<lambda>_. Some []))\<^sup>*\<^sup>* (0, n0) (0, n) \<and> nd_chain n = [first_block ones_ext, ones_block]
     \<and> replay ones_ext demo_host (params n 0) (nd_chain n) = Inr s \<and> nd_balances n = from_state s)"
proof (rule conjI)
  let ?step = "node_step ones_ext demo_host (\<lambda>_. Some [])"
  obtain n0 n1 out n where n: "open_local ones_ext demo_host 0 CHAIN_ID_REGTEST = Inr n0"
    "add_transaction ones_ext (\<lambda>_. Some []) n0 ones_payment = Inr (n1, out)" "node_ok ones_ext demo_host 0 n1"
    "nd_chain n1 = [first_block ones_ext]" "commit_block ones_ext demo_host 0 n1 ones_block = Inr n" by (rule ones_accepted)
  have "\<exists>ev. facade_apply_tx ones_ext (\<lambda>_. Some []) n0 ones_payment = Inr (n1, ev)" by (simp add: facade_apply_tx_def n(2))
  then have "?step (0, n0) (0, n1)" by (auto intro!: node_step.pool)
  moreover have "?step (0, n1) (0, n)" by (rule node_step.block [where b = ones_block]) (simp_all add: add_block_def n(5))
  ultimately have run: "?step\<^sup>*\<^sup>* (0, n0) (0, n)" by simp
  from reachable_node_replays [OF disjI1 [OF n(1)] run] show "\<exists>n0 n s. open_local ones_ext demo_host 0 CHAIN_ID_REGTEST = Inr n0
     \<and> ?step\<^sup>*\<^sup>* (0, n0) (0, n) \<and> nd_chain n = [first_block ones_ext, ones_block]
     \<and> replay ones_ext demo_host (params n 0) (nd_chain n) = Inr s \<and> nd_balances n = from_state s"
    using n(1) run node_ok_commit(2) [OF n(3,5)] n(4) by auto
next
  let ?step = "node_step ones_ext demo_host (\<lambda>_. Some [])"
  obtain n n' where n: "database_ok ones_ext demo_host (\<lambda>_. None) (opening_params 0 CHAIN_ID_REGTEST True True) ones_database"
    "open_configured ones_ext demo_host (\<lambda>_. None) (Inl EIoError) 0 ones_database CHAIN_ID_REGTEST True True = Inr n"
    "add_block ones_ext demo_host 0 n ones_block = Inr n'" "nd_chain n' = [first_block ones_ext, ones_block]" by (rule ones_opened)
  have run: "?step\<^sup>*\<^sup>* (0, n) (0, n')" by (rule r_into_rtranclp, rule node_step.block [where b = ones_block]) (simp_all add: n(3))
  have "\<exists>base64 file loaded g z. database_ok ones_ext demo_host base64 (opening_params 0 CHAIN_ID_REGTEST g z) loaded
    \<and> open_configured ones_ext demo_host base64 file 0 loaded CHAIN_ID_REGTEST g z = Inr n" using n(1,2) by metis
  from reachable_node_replays [OF disjI2 [OF this] run] n(2,4) run
  show "\<exists>n0 n s. open_configured ones_ext demo_host (\<lambda>_. None) (Inl EIoError) 0 ones_database CHAIN_ID_REGTEST True True = Inr n0
     \<and> ?step\<^sup>*\<^sup>* (0, n0) (0, n) \<and> nd_chain n = [first_block ones_ext, ones_block]
     \<and> replay ones_ext demo_host (params n 0) (nd_chain n) = Inr s \<and> nd_balances n = from_state s" by metis
qed

text \<open>C7: what mining finds, the node accepts: the block is committed to the chain, provided the
  pool fits in a block (\<open>block_fits\<close>: mining does not check the size and gas limits), the executor does not
  read the header, and the clock has not moved back nor lies two hours before the median time.\<close>

theorem mined_block_accepted:
  assumes "hash32 X" and "hex_ok X" and "header_blind (host_vm H)" and "node_ok X H now n"
    and "nd_chain n \<noteq> []" and "length (nd_chain n) < 2 ^ 64" and "\<not> mp_is_empty (nd_mempool n)"
    and "mine_block_inner X H shutdown now n (last (nd_chain n)) (mining_transactions n) = Some (Inr (Some b))"
    and "phase_at (nd_rules n) (blk_index b) = Pow" and "block_fits X H n b"
    and "median_time_past (nd_chain n) (blk_index b) = Inr mtp" and "now \<le> later" and "unat later + 7200 < 2 ^ 64"
    and "mtp < later + 7200"
  shows "\<exists>n'. mine_block X H shutdown now later n = Some (Inr (n', Some b)) \<and> nd_chain n' = nd_chain n @ [b]"
proof -
  obtain t where "validate_and_apply X H (to_state (nd_balances n)) b (view_for n later (blk_index b)) = Inr t"
    using mined_block_valid [OF assms(1-6,8-)] by blast
  then obtain n' where "commit_block X H later n b = Inr n'" "nd_chain n' = nd_chain n @ [b]"
    using accepted_commit [OF node_ok_linked [OF assms(4)]] by blast
  then show ?thesis using mine_block_commits [OF assms(8,5,7)] by blast
qed

theorem mined_block_accepted_witness:
  "\<exists>n n'. node_ok ones_ext demo_host 0 n
     \<and> mine_block ones_ext demo_host (\<lambda>_. False) 0 0 n = Some (Inr (n', Some ones_block))
     \<and> nd_chain n' = [first_block ones_ext, ones_block]"
proof -
  obtain n0 n out where ok: "node_ok ones_ext demo_host 0 n" and ch: "nd_chain n = [first_block ones_ext]"
    and f: "nd_balances n = from_state ones_state" "nd_mempool n = ones_pool" "nd_chain_id n = CHAIN_ID_REGTEST"
    "nd_rules n = consensus_manager_new" "nd_codes n = fmempty"
    "params n 0 = \<lparr>cp_now = 0, cp_allow_grant_blocks = True, cp_allow_zero_state_root = True,
      cp_rules = consensus_manager_new, cp_chain_id = CHAIN_ID_REGTEST\<rparr>" by (rule ones_node)
  note M = ones_mined [OF ch f]
  have ne: "\<not> mp_is_empty (nd_mempool n)" using get_pending_Nil [of 1000 ones_pool] by (simp add: f(2) ones_pending)
  have "\<exists>n'. mine_block ones_ext demo_host (\<lambda>_. False) 0 0 n = Some (Inr (n', Some ones_block)) \<and> nd_chain n' = nd_chain n @ [ones_block]"
    by (rule mined_block_accepted [OF ones_laws demo_header_blind ok _ _ ne M(1) _ M(2,3)]) (simp_all add: ch f(4))
  with ok ch show ?thesis by auto
qed

text \<open>C8: the mining loop ends if and only if the shutdown flag is seen at some iteration or some
  nonce, counted modulo \<open>2 ^ 64\<close>, brings the hash under the target.\<close>

theorem mining_terminates:
  assumes "hash32 X" and "hex_ok X" and "hashable X b"
  shows "(\<exists>r. mine_loop X shutdown target 0 b = Some r) \<longleftrightarrow> (\<exists>i. shutdown i \<or> solves X target (with_nonce b i))"
  using mine_loop_returns [OF assms] by simp

theorem mining_terminates_witness:
  "\<exists>r. mine_loop ones_ext (\<lambda>_. False) (u256_from_bytes (replicate 32 255)) 0 ones_block = Some r"
proof -
  have "hashable ones_ext ones_block" "solves ones_ext (u256_from_bytes (replicate 32 255)) (with_nonce ones_block 0)"
    using ones_hash ones_solves(1) by (simp_all add: hashable_def solves_def)
  with mining_terminates [OF ones_laws, of ones_block "\<lambda>_. False"] show ?thesis by blast
qed

text \<open>C9: a candidate is adopted exactly when it has at least two blocks and beats the current chain
  in the fork choice, every block validates from the empty state, and the balances on the wire, if any, are
  those of the replay; the transactions sent with it never decide.\<close>

theorem adoption_exact:
  assumes "node_ok X H now n"
  shows "(\<exists>n'. try_adopt_candidate X H now n chain wire txs difficulty = Inr (n', True)) \<longleftrightarrow>
    beats X chain (nd_chain n) \<and> (\<exists>s. replay X H (params n now) chain = Inr s \<and> wire_balances_agree wire (from_state s))"
  using assms by (rule adopt_exact)

theorem adoption_exact_witness:
  "\<exists>n n'. node_ok ones_ext demo_host 0 n
     \<and> try_adopt_candidate ones_ext demo_host 0 n [first_block ones_ext, ones_block] None [] 1 = Inr (n', True)"
proof -
  obtain n s where n: "node_ok ones_ext demo_host 0 n" "beats ones_ext [first_block ones_ext, ones_block] (nd_chain n)"
    "replay ones_ext demo_host (params n 0) [first_block ones_ext, ones_block] = Inr s" by (rule ones_candidate)
  have "wire_balances_agree None (from_state s)" by (simp add: wire_balances_agree_def)
  with adoption_exact [OF n(1), of "[first_block ones_ext, ones_block]" None "[]" 1] n show ?thesis by blast
qed

text \<open>C10: after an adoption the chain is the candidate, the invariant holds and the work has not
  decreased.\<close>

theorem adoption_keeps_work:
  assumes "node_ok X H now n" and "try_adopt_candidate X H now n chain wire txs difficulty = Inr (n', True)"
  shows "nd_chain n' = chain \<and> node_ok X H now n' \<and> limbs_val (nd_total_work n) \<le> limbs_val (nd_total_work n')"
  using adopt_work [OF assms] node_ok_adopt [OF assms] by simp

theorem adoption_keeps_work_witness:
  "\<exists>n n'. node_ok ones_ext demo_host 0 n \<and> nd_chain n' = [first_block ones_ext, ones_block]
     \<and> node_ok ones_ext demo_host 0 n' \<and> limbs_val (nd_total_work n) \<le> limbs_val (nd_total_work n')"
proof -
  obtain n s where n: "node_ok ones_ext demo_host 0 n" "beats ones_ext [first_block ones_ext, ones_block] (nd_chain n)"
    "replay ones_ext demo_host (params n 0) [first_block ones_ext, ones_block] = Inr s" by (rule ones_candidate)
  have "wire_balances_agree None (from_state s)" by (simp add: wire_balances_agree_def)
  then obtain n' where "try_adopt_candidate ones_ext demo_host 0 n [first_block ones_ext, ones_block] None [] 1 = Inr (n', True)"
    using adopt_exact [OF n(1), of "[first_block ones_ext, ones_block]" None "[]" 1] n by blast
  from adoption_keeps_work [OF n(1) this] n(1) show ?thesis by blast
qed

text \<open>C11: the tip hash fixes the history: two nodes with one tip hash hold the same header bytes at
  every height, unless two of these headers collide under the hash.\<close>

theorem tip_hash_binds_history:
  assumes "hex_ok X" and "node_ok X H now n" and "node_ok X H' now' n'" and "nd_chain n \<noteq> []" and "nd_chain n' \<noteq> []"
    and "chain_tip_hash n = chain_tip_hash n'"
    and "collision_free X (header_bytes X (nd_chain n) @ header_bytes X (nd_chain n'))"
  shows "header_bytes X (nd_chain n) = header_bytes X (nd_chain n')"
  by (rule tip_binds_headers [OF assms(1) node_ok_linked [OF assms(2)] node_ok_linked [OF assms(3)] assms(4,5) _ assms(7)])
    (use assms(4-6) in \<open>simp add: chain_tip_hash_def chain_tip_def\<close>)

theorem tip_hash_binds_history_witness:
  "\<exists>n n'. node_ok ones_ext demo_host 0 n \<and> node_ok ones_ext demo_host 0 n' \<and> nd_mempool n \<noteq> nd_mempool n'
     \<and> header_bytes ones_ext (nd_chain n) = header_bytes ones_ext (nd_chain n')"
proof -
  obtain n s where n: "open_local ones_ext demo_host 0 CHAIN_ID_REGTEST = Inr n" "nd_chain n = [first_block ones_ext]"
    and f: "n = (empty_node 0 CHAIN_ID_REGTEST True)\<lparr>nd_chain := [first_block ones_ext], nd_receipts := st_receipts s,
      nd_balances := from_state s, nd_total_work := nd_total_work n\<rparr>"
    using demo_open [OF ones_genesis_ok] by blast
  have p: "nd_mempool n = demo_pool" by (subst f) (simp add: empty_node_def demo_pool_def)
  obtain n' where n': "node_ok ones_ext demo_host 0 n'" "nd_chain n' = [first_block ones_ext]" "nd_mempool n' = ones_pool"
    using ones_node by metis
  have "get_pending demo_pool 1000 = []" by code_simp
  then have "nd_mempool n \<noteq> nd_mempool n'" using ones_pending by (auto simp: p n'(3))
  moreover have "header_bytes ones_ext (nd_chain n) = header_bytes ones_ext (nd_chain n')"
    by (rule tip_hash_binds_history [OF ones_laws(2) node_ok_open_local [OF n(1)] n'(1)])
      (simp_all add: n(2) n'(2) header_bytes_def collision_free_def chain_tip_hash_def chain_tip_def)
  ultimately show ?thesis using node_ok_open_local [OF n(1)] n'(1) by (intro exI [of _ n] exI [of _ n'] conjI)
qed

text \<open>C12: the coins a node accounts for never exceed those of its genesis block plus the cap of the
  halving schedule, compounded with the tail rate of 6 in 52560000 once per block.\<close>

theorem node_supply_bound:
  assumes "node_ok X H now n" and "nd_chain n = g # bs" and "length bs < 2 ^ 64"
  shows "coins (to_state (nd_balances n)) * 52560000 ^ length bs
    \<le> (tx_amounts (blk_transactions g) + unat MAX_SUPPLY_PRE_TAIL) * 52560006 ^ length bs"
  using assms by (rule node_supply)

theorem node_supply_bound_witness:
  "\<exists>n. node_ok ones_ext demo_host 0 n \<and> nd_chain n = [first_block ones_ext, ones_block]
     \<and> coins (to_state (nd_balances n)) * 52560000 \<le> (10000 + unat MAX_SUPPLY_PRE_TAIL) * 52560006"
proof -
  obtain n0 n out n' where n: "node_ok ones_ext demo_host 0 n" "nd_chain n = [first_block ones_ext]"
    "commit_block ones_ext demo_host 0 n ones_block = Inr n'" by (rule ones_accepted)
  note ok = node_ok_commit [OF n(1,3)]
  have ch: "nd_chain n' = [first_block ones_ext, ones_block]" using ok(2) n(2) by simp
  have "tx_amounts (blk_transactions (first_block ones_ext)) = 10000" by code_simp
  with node_supply_bound [OF ok(1) ch] ok(1) ch show ?thesis by auto
qed

section \<open>The pool\<close>

text \<open>C13: the table of the pool and its index by sender and nonce stay in step, with verified
  transactions of one network, bounded generations and size; the lookup of a conflicting transaction never
  panics.\<close>

theorem pool_stays_consistent:
  assumes "pool_ok X p"
  shows "mp_insert X p tx a \<noteq> Inl (EPanic e) \<and> (\<forall>q out. mp_insert X p tx a = Inr (q, out) \<longrightarrow> pool_ok X q)
    \<and> pool_ok X (mp_remove p i)"
  using insert_no_panic [OF assms] pool_ok_insert [OF assms] pool_ok_remove [OF assms] by blast

theorem pool_stays_consistent_witness:
  "\<exists>q out. mp_insert demo_ext demo_pool demo_payment (account_eoa 200 0) = Inr (q, out) \<and> pool_ok demo_ext q"
proof -
  obtain q out where q: "mp_insert demo_ext demo_pool demo_payment (account_eoa 200 0) = Inr (q, out)" by (rule demo_insert)
  with pool_stays_consistent [OF demo_pool_ok, of demo_ext demo_payment "account_eoa 200 0"] show ?thesis by blast
qed

text \<open>C14: an insertion keeps the pending transactions of the sender covered, also when others are replaced:
  their nonces follow the account without a gap, and their values and fees together do not exceed its
  balance. The other senders are not affected. The value and the fee of the inserted transaction are assumed
  to sum to less than \<open>2 ^ 64\<close>: the code adds them with wrap-around, and a transaction beyond that bound can
  pass the check of the pool without being covered.\<close>

theorem pending_stays_covered:
  assumes "pool_ok X p" and "mp_insert X p tx a = Inr (q, out)" and "covered p (tx_sender tx) a" and "cost tx < 2 ^ 64"
  shows "covered q (tx_sender tx) a \<and> (\<forall>s b. s \<noteq> tx_sender tx \<longrightarrow> covered p s b \<longrightarrow> covered q s b)"
  using covered_insert [OF assms] covered_insert_other [OF assms(1,2)] by blast

theorem pending_stays_covered_witness:
  "\<exists>q out. mp_insert demo_ext demo_pool demo_payment (account_eoa 200 0) = Inr (q, out)
     \<and> covered q payer (account_eoa 200 0)"
proof -
  obtain q out where q: "mp_insert demo_ext demo_pool demo_payment (account_eoa 200 0) = Inr (q, out)" by (rule demo_insert)
  have "cost demo_payment < 2 ^ 64" "tx_sender demo_payment = payer" by (simp_all add: cost_def demo_payment_def)
  with pending_stays_covered [OF demo_pool_ok q demo_pool_covered] q show ?thesis by auto
qed

section \<open>The database\<close>

text \<open>C15: contract storage survives being written to the database and read back, for slots of 32
  bytes.\<close>

theorem storage_json_roundtrip:
  assumes "hex_ok X" and "slots32 m"
  shows "contract_storage_from_json X (contract_storage_to_json X m) = Some m"
  using assms by (rule contract_storage_json_roundtrip)

theorem storage_json_roundtrip_witness:
  "contract_storage_from_json demo_ext (contract_storage_to_json demo_ext
     (fmap_of_list [(vault, fmap_of_list [(replicate 32 7, [1, 2]), (replicate 32 3, [])]), (bob, fmempty)]))
   = Some (fmap_of_list [(vault, fmap_of_list [(replicate 32 7, [1, 2]), (replicate 32 3, [])]), (bob, fmempty)])"
  by (rule storage_json_roundtrip [OF demo_hex_ok]) (auto simp: slots32_def fmap_of_list.rep_eq split: if_splits)

section \<open>Departures from the specification\<close>

text \<open>C16: execution does not look at the nonce of a transfer: a block that lists one signed transfer
  twice is executed and pays its receiver twice.\<close>

theorem transfer_replayed_in_block:
  assumes "blk_transactions b = [Transfer cb, Transfer t, Transfer t]" and "t_is_coinbase cb" and "t_amount cb = 0"
    and "t_chain_id cb = chain_id" and "t_chain_id t = chain_id"
    and "\<not> t_is_coinbase t" and "t_from t \<noteq> t_to t" and "2 * unat (t_amount t) \<le> unat (get_balance s (t_from t))"
    and "unat (get_balance s (t_to t)) + 2 * unat (t_amount t) < 2 ^ 64"
  shows "\<exists>s' rs. apply_non_genesis X V s b chain_id vm = Inr (s', vm, rs)
    \<and> unat (get_balance s' (t_to t)) = unat (get_balance s (t_to t)) + 2 * unat (t_amount t)"
  using assms by (rule transfer_applied_twice)

theorem transfer_replayed_in_block_witness:
  "\<exists>s' rs. apply_non_genesis demo_ext demo_vm demo_state (demo_block\<lparr>blk_transactions :=
       [tx_coinbase alice bob 0 CHAIN_ID_REGTEST, tx_transfer alice bob 50 1 CHAIN_ID_REGTEST,
        tx_transfer alice bob 50 1 CHAIN_ID_REGTEST]\<rparr>) CHAIN_ID_REGTEST (Some ()) = Inr (s', Some (), rs)
     \<and> unat (get_balance s' bob) = 105"
proof -
  let ?b = "demo_block\<lparr>blk_transactions := [tx_coinbase alice bob 0 CHAIN_ID_REGTEST,
    tx_transfer alice bob 50 1 CHAIN_ID_REGTEST, tx_transfer alice bob 50 1 CHAIN_ID_REGTEST]\<rparr>"
  have bal: "unat (get_balance demo_state alice) = 200" "unat (get_balance demo_state bob) = 5" by code_simp+
  obtain cb t where tx: "tx_coinbase alice bob 0 CHAIN_ID_REGTEST = Transfer cb" "tx_transfer alice bob 50 1 CHAIN_ID_REGTEST = Transfer t"
    and f: "t_is_coinbase cb" "t_amount cb = 0" "t_chain_id cb = CHAIN_ID_REGTEST" "t_chain_id t = CHAIN_ID_REGTEST"
    "\<not> t_is_coinbase t" "t_from t = alice" "t_to t = bob" "t_amount t = 50"
    by (simp add: tx_coinbase_def tx_transfer_def)
  have ab: "alice \<noteq> bob" by (simp add: alice_def bob_def)
  have "\<exists>s' rs. apply_non_genesis demo_ext demo_vm demo_state ?b CHAIN_ID_REGTEST (Some ()) = Inr (s', Some (), rs)
    \<and> unat (get_balance s' (t_to t)) = unat (get_balance demo_state (t_to t)) + 2 * unat (t_amount t)"
    by (rule transfer_replayed_in_block [of ?b cb t]) (simp_all add: tx f bal ab)
  then show ?thesis by (simp add: f bal)
qed

text \<open>C17: a deployment whose nonce is the one the pool asks for, the successor of the account's,
  creates its contract at an address where the registry of code has no entry for it, unless the two address
  inputs collide.\<close>

theorem deployed_code_not_registered:
  assumes "bech32_ok X" and "wf_state X s" and "vm_ok V"
    and "blk_transactions b = [Transfer cb, Create c]" and "c_nonce c \<noteq> get_nonce s (c_from c)"
    and "apply_create X V s c chain_id vm b i = Inr (s', vm', r)" and "rc_status r = TxSuccess"
    and "derive_contract_address X (c_from c) (get_nonce s (c_from c)) chain_id = Inr address"
    and "fmlookup (balances s) address = None" and "blake3 X (c_init_code c) \<noteq> zero32"
    and "collision_free X [contract_addr_input (c_from c) (get_nonce s (c_from c)), contract_addr_input (c_from c) (c_nonce c)]"
  shows "account_is_contract s' address \<and> fmlookup (collect_block_codes X chain_id codes b) address = fmlookup codes address"
  using deployed_contract [OF assms(2,3,6,7,8,9,10)] registered_elsewhere [OF assms(1,11,5,8,4)] by simp

theorem deployed_code_not_registered_witness:
  "\<exists>s v r address. apply_create demo_ext demo_vm demo_state demo_create CHAIN_ID_REGTEST () demo_deploys 1 = Inr (s, v, r)
     \<and> account_is_contract s address \<and> fmlookup (collect_block_codes demo_ext CHAIN_ID_REGTEST fmempty demo_deploys) address = None"
proof -
  obtain s v r where s: "apply_create demo_ext demo_vm demo_state demo_create CHAIN_ID_REGTEST () demo_deploys 1 = Inr (s, v, r)"
    "rc_status r = TxSuccess" using demo_deployed(2) by (auto split: sum.splits)
  obtain address where a: "derive_contract_address demo_ext alice 0 CHAIN_ID_REGTEST = Inr address"
    "fmlookup (balances demo_state) address = None" using demo_deployed(1) by (auto split: sum.splits)
  obtain cb where b: "blk_transactions demo_deploys = [Transfer cb, Create demo_create]"
    by (simp add: demo_deploys_def tx_coinbase_def)
  have "account_is_contract s address
      \<and> fmlookup (collect_block_codes demo_ext CHAIN_ID_REGTEST fmempty demo_deploys) address = fmlookup fmempty address"
    by (rule deployed_code_not_registered [OF demo_bech32_ok demo_state_wf demo_vm_ok b _ s])
      (simp_all only: demo_deployed a one_neq_zero not_False_eq_True)
  then show ?thesis using s(1) by (intro exI [of _ s] exI [of _ v] exI [of _ r] exI [of _ address]) simp
qed

text \<open>C18: a node that opens an empty database on the regtest network does not hold what its chain says. Its
  cache is empty, since the installation of the genesis block skips what \<open>genesis\<close> sends; a replay of its
  chain credits the initial holder with 1000000000; and validating the chain against the cache does not
  answer that it is valid.\<close>

theorem fresh_node_disagrees:
  assumes "open_blockchain X H base64 file now no_database CHAIN_ID_REGTEST = Inr n"
  shows "nd_balances n = state_cache_new \<and> validate_chain X H later n \<noteq> Inr True
    \<and> (\<forall>s. replay X H (params n later) (nd_chain n) = Inr s \<longrightarrow> get_balance s ''regtest_initial_holder'' = 1000000000)"
proof -
  have pays: "get_balance s ''regtest_initial_holder'' = 1000000000" if "replay X H (params n later) (nd_chain n) = Inr s" for s
    using fresh_open(2) [OF assms] replayed_regtest_holder that by fastforce
  then show ?thesis
    using fresh_open(1) [OF assms] fresh_rejected [OF fresh_open(1) [OF assms], of X H later "''regtest_initial_holder''"] by auto
qed

theorem fresh_node_disagrees_witness:
  "\<exists>n s. open_blockchain demo_ext demo_host (\<lambda>_. None) (Inl EIoError) 0 no_database CHAIN_ID_REGTEST = Inr n
     \<and> replay demo_ext demo_host (params n 0) (nd_chain n) = Inr s \<and> get_balance s ''regtest_initial_holder'' = 1000000000
     \<and> nd_balances n = state_cache_new \<and> validate_chain demo_ext demo_host 0 n \<noteq> Inr True"
proof -
  obtain n s where n: "open_blockchain demo_ext demo_host (\<lambda>_. None) (Inl EIoError) 0 no_database CHAIN_ID_REGTEST = Inr n"
    "replay demo_ext demo_host (params n 0) (nd_chain n) = Inr s" by (rule fresh_opened)
  from fresh_node_disagrees [OF n(1), of 0] n show ?thesis by blast
qed

section \<open>Commitments and stateless verification\<close>

text \<open>C19: an account proof that verifies against the root of a state shows the very account that state
  holds, or that the address has none; otherwise two of the hashed byte strings collide.\<close>

theorem account_proof_sound:
  assumes "hash32 X" and "blake3 X [] = EMPTY_HASH" and "all32 pf" and "acc_ok a"
    and "fmpred (\<lambda>_. acc_ok) accounts" and "verify_proof X (compute_root X accounts) addr a pf"
  shows "(case fmlookup accounts addr of
            Some b \<Rightarrow> a = b \<or> acc_is_empty a \<and> acc_is_empty b
          | None \<Rightarrow> acc_is_empty a)
         \<or> collides X (state_proof_inputs X accounts addr a pf)"
  using verify_proof_state_sound [OF assms(1-4) _ _ assms(6)] assms(5) by (auto simp: collides_iff fmpred_iff)

theorem account_proof_sound_witness:
  "\<exists>pf. verify_proof demo_ext (compute_root demo_ext (balances demo_state)) alice (account_eoa 200 0) pf
    \<and> ((case fmlookup (balances demo_state) alice of
            Some b \<Rightarrow> account_eoa 200 0 = b \<or> acc_is_empty (account_eoa 200 0) \<and> acc_is_empty b
          | None \<Rightarrow> acc_is_empty (account_eoa 200 0))
         \<or> collides demo_ext (state_proof_inputs demo_ext (balances demo_state) alice (account_eoa 200 0) pf))"
proof -
  have "account_or_default demo_state alice = account_eoa 200 0" by code_simp
  then obtain pf where pf: "all32 pf" "verify_proof demo_ext (compute_root demo_ext (balances demo_state)) alice (account_eoa 200 0) pf"
    using build_trie_prove [OF demo_hash32 demo_alice] by auto
  have "acc_ok (account_eoa 200 0)" by (simp add: account_eoa_def)
  from account_proof_sound [OF demo_hash32 demo_empty_hash pf(1) this demo_accounts_ok pf(2)] pf(2) show ?thesis by blast
qed

text \<open>C20: the trie built from a state proves every account, and every absence, and the proof verifies
  against the root of the state.\<close>

theorem account_proof_complete:
  assumes "hash32 X"
  shows "(\<exists>pf. prove X (build_trie X s) addr (account_or_default s addr) = Inr pf
            \<and> verify_proof X (compute_root X (balances s)) addr (account_or_default s addr) pf)
         \<or> collides X (map as_bytes (addr # addresses (balances s)))"
  using build_trie_prove [OF assms] by (auto simp: collides_iff simp del: list.map)

theorem account_proof_complete_witness:
  "\<exists>pf. prove demo_ext (build_trie demo_ext demo_state) alice (account_or_default demo_state alice) = Inr pf
     \<and> verify_proof demo_ext (compute_root demo_ext (balances demo_state)) alice (account_or_default demo_state alice) pf"
  using account_proof_complete [OF demo_hash32, of demo_state alice] demo_alice by (simp add: collides_iff)

text \<open>C21: recomputing the root from verified proofs of the replaced accounts gives the root computed
  from scratch over the updated accounts, however many leaves share ancestors.\<close>

theorem root_after_updates_recomputes:
  assumes "hash32 X" and "list_all (\<lambda>u. all32 (lu_proof u)) us"
    and "list_all (\<lambda>u. verify_proof X (compute_root X accounts) (lu_address u) (lu_pre u) (lu_proof u)) us"
  shows "root_after_updates X (compute_root X accounts) us
           = Inr (compute_root X (foldl (\<lambda>m u. fmupd (lu_address u) (lu_post u) m) accounts us))
         \<or> collides X (update_state_inputs X accounts us)"
  using root_after_updates_state [OF assms] by (auto simp: collides_iff)

theorem root_after_updates_recomputes_witness:
  "\<exists>pf. let us = [\<lparr> lu_address = alice, lu_pre = account_eoa 200 0, lu_proof = pf, lu_post = account_eoa 150 1 \<rparr>]
    in verify_proof demo_ext (compute_root demo_ext (balances demo_state)) alice (account_eoa 200 0) pf
      \<and> (root_after_updates demo_ext (compute_root demo_ext (balances demo_state)) us
            = Inr (compute_root demo_ext (foldl (\<lambda>m u. fmupd (lu_address u) (lu_post u) m) (balances demo_state) us))
          \<or> collides demo_ext (update_state_inputs demo_ext (balances demo_state) us))"
proof -
  have "account_or_default demo_state alice = account_eoa 200 0" by code_simp
  then obtain pf where pf: "all32 pf" "verify_proof demo_ext (compute_root demo_ext (balances demo_state)) alice (account_eoa 200 0) pf"
    using build_trie_prove [OF demo_hash32 demo_alice] by auto
  define us where "us = [\<lparr> lu_address = alice, lu_pre = account_eoa 200 0, lu_proof = pf, lu_post = account_eoa 150 1 \<rparr>]"
  from pf have "list_all (\<lambda>u. all32 (lu_proof u)) us"
    "list_all (\<lambda>u. verify_proof demo_ext (compute_root demo_ext (balances demo_state)) (lu_address u) (lu_pre u) (lu_proof u)) us"
    by (simp_all add: us_def)
  from root_after_updates_recomputes [OF demo_hash32 this] pf(2) show ?thesis unfolding Let_def us_def by blast
qed

text \<open>C22: stateless verification is sound for canonical witnesses: a block accepted from one executes on the
  whole state and leads to the root its header commits to, unless two of the hashed byte strings collide.
  A witness is canonical when its hashes have 32 bytes and no empty account is presented as a contract; the
  verifier does not check the latter, and the code departs from full execution there. The supply is assumed
  to be below \<open>2 ^ 64 / 6\<close>, so that the product in the tail reward does not wrap.\<close>

theorem stateless_sound:
  assumes "hash32 X" and "blake3 X [] = EMPTY_HASH" and "clean s" and "fmpred (\<lambda>_. acc_ok) (balances s)"
    and "coins s * 6 < 2 ^ 64" and "canonical_witness w" and "blk_index b \<noteq> 0"
    and "verify_block_stateless X (compute_root X (balances s)) b chain_id w = Inr ()"
  shows "(\<exists>t. apply_block X s b chain_id = Inr t \<and> blk_state_root b = compute_root X (balances t))
         \<or> collides X (stateless_inputs X s w)"
  using verify_block_stateless_sound [OF assms(1-6) _ assms(7,8)] by (auto simp: collides_iff)

theorem stateless_sound_witness:
  "\<exists>w. verify_block_stateless demo_ext (compute_root demo_ext (balances demo_state)) demo_commit CHAIN_ID_REGTEST w = Inr ()
     \<and> ((\<exists>t. apply_block demo_ext demo_state demo_commit CHAIN_ID_REGTEST = Inr t
              \<and> blk_state_root demo_commit = compute_root demo_ext (balances t))
         \<or> collides demo_ext (stateless_inputs demo_ext demo_state w))"
proof -
  obtain w where w: "verify_block_stateless demo_ext (compute_root demo_ext (balances demo_state)) demo_commit CHAIN_ID_REGTEST w = Inr ()"
    "canonical_witness w" by (rule demo_witness)
  from stateless_sound [OF demo_hash32 demo_empty_hash demo_clean demo_accounts_ok demo_coins w(2) demo_commit_height w(1)] w(1)
  show ?thesis by blast
qed

text \<open>C23: stateless verification is complete in the halving era: for a block that a full node accepts at a
  height where the halving reward is at least the tail reward of the supply, the witness the full node builds
  makes the stateless verifier accept, unless two addresses collide under the hash. Past that point the
  verifier computes the tail reward from the part of the supply in the witness and may reject such a block.
  The supply is again below \<open>2 ^ 64 / 6\<close>.\<close>

theorem stateless_complete:
  assumes "hash32 X" and "clean s" and "fmpred (\<lambda>_. acc_ok) (balances s)" and "coins s * 6 < 2 ^ 64"
    and "calculate_tail_reward (total_supply s) \<le> halving_schedule (blk_index b)" and "blk_index b \<noteq> 0"
    and "apply_block X s b chain_id = Inr t" and "blk_state_root b = compute_root X (balances t)"
  shows "(\<exists>w. build_witness X s b = Inr w
            \<and> verify_block_stateless X (compute_root X (balances s)) b chain_id w = Inr ())
         \<or> collides X (map as_bytes (collect_touched_addresses b @ addresses (balances s)))"
  using build_witness_complete [OF assms] by (auto simp: collides_iff simp del: map_append)

theorem stateless_complete_witness:
  "\<exists>w. build_witness demo_ext demo_state demo_commit = Inr w
     \<and> verify_block_stateless demo_ext (compute_root demo_ext (balances demo_state)) demo_commit CHAIN_ID_REGTEST w = Inr ()"
  using stateless_complete [OF demo_hash32 demo_clean demo_accounts_ok demo_coins demo_tail demo_commit_height
      demo_commit_ok demo_commit_root] demo_addresses
  by (simp add: collides_iff demo_commit_touched del: map_append)

section \<open>Wire formats\<close>

text \<open>C24: the signed encoding of a transaction in wire form decodes to the same transaction, for the three
  kinds of transaction. In wire form (\<open>wire_tx\<close>) the strings are UTF-8, every length fits its 32-bit field,
  and the parameters of a constructor have no name, which is not encoded, and a well-formed type whose name
  has no comma, since the code splits the list at every comma.\<close>

theorem signed_transaction_roundtrip:
  assumes "wire_tx tx"
  shows "deserialize_transaction_signed (serialize_transaction_signed tx) = Inr tx"
  using assms by (rule deserialize_serialize_signed)

theorem signed_transaction_roundtrip_witness:
  "list_all (\<lambda>tx. deserialize_transaction_signed (serialize_transaction_signed tx) = Inr tx) demo_txs"
  using signed_transaction_roundtrip demo_wire_txs by (auto simp: list_all_iff)

text \<open>C25: a byte string decodes to a header exactly when the header is in wire form and the byte string is
  its encoding, so encoding and decoding are inverse in both directions, and the decoded header carries the
  hash of those bytes. In wire form (\<open>wire_header\<close>) the roots have 32 bytes, the previous hash and the target
  are the canonical hexadecimal of 32 bytes, and the hash field is the hash of the header, which is not
  encoded but recomputed.\<close>

theorem header_roundtrip:
  assumes "hex_ok X"
  shows "(deserialize_header X bs = Inr h \<longleftrightarrow> wire_header X h \<and> serialize_header X h = Inr bs)
    \<and> (deserialize_header X bs = Inr h \<longrightarrow> length bs = HEADER_WIRE_LEN \<and> hdr_hash h = hex_encode X (blake3 X bs))"
  using serialize_deserialize_header [OF assms] deserialize_serialize_header by blast

theorem header_roundtrip_witness:
  "\<exists>bs. wire_header demo_ext demo_header \<and> serialize_header demo_ext demo_header = Inr bs
     \<and> deserialize_header demo_ext bs = Inr demo_header \<and> hdr_hash demo_header = hex_encode demo_ext (blake3 demo_ext bs)"
proof -
  obtain bs where bs: "serialize_header demo_ext demo_header = Inr bs" using demo_header_bytes by blast
  from header_roundtrip [OF demo_hex_ok, of bs demo_header] bs demo_header_wire show ?thesis by blast
qed

text \<open>C26: an encoded block in wire form decodes to the same block. In wire form (\<open>wire_block\<close>) the hash field
  is the hash of the header, which is not encoded but recomputed; the previous hash and the target are the
  canonical hexadecimal of 32 bytes and the roots have 32 bytes; every transaction is in wire form, and the
  number of transactions and the length of each encoding fit their 32-bit fields.\<close>

theorem block_roundtrip:
  assumes "wire_block X b" and "serialize_block X b = Inr bs"
  shows "deserialize_block X bs = Inr b"
  using assms by (rule deserialize_serialize_block)

theorem block_roundtrip_witness:
  "\<exists>bs. serialize_block demo_ext demo_wire = Inr bs \<and> deserialize_block demo_ext bs = Inr demo_wire"
proof -
  obtain bs where bs: "serialize_block demo_ext demo_wire = Inr bs" using demo_wire_ok(2) by (auto simp: is_ok_iff)
  with block_roundtrip [OF demo_wire_ok(1) bs] show ?thesis by blast
qed

text \<open>C27: the transaction root binds the transactions: two lists of transactions in wire form, of the same
  length and with the same root, are equal, or two of the hashed byte strings collide.\<close>

theorem tx_root_binding:
  assumes "hash32 X" and "list_all wire_tx xs" and "list_all wire_tx ys" and "length xs = length ys"
    and "compute_tx_root X xs = compute_tx_root X ys"
  shows "xs = ys \<or> collides X (tx_root_inputs X xs @ tx_root_inputs X ys)"
  using compute_tx_root_inj [OF assms(1-4) _ assms(5)] by (auto simp: collides_iff)

theorem tx_root_binding_witness:
  "compute_tx_root demo_ext demo_txs = compute_tx_root demo_ext (take 5 demo_txs)
     \<and> (demo_txs = take 5 demo_txs \<or> collides demo_ext (tx_root_inputs demo_ext demo_txs @ tx_root_inputs demo_ext (take 5 demo_txs)))"
proof -
  have t: "take 5 demo_txs = demo_txs" by (simp add: demo_txs_def)
  show ?thesis unfolding t using tx_root_binding [OF demo_hash32 demo_wire_txs demo_wire_txs refl refl] by blast
qed

text \<open>C28: a list of odd length and the same list with its last element repeated have the same Merkle root:
  the root does not fix the number of leaves.\<close>

theorem merkle_root_repeats_last:
  assumes "odd (length hs)"
  shows "merkle_root X (hs @ [last hs]) = merkle_root X hs"
  using assms by (rule merkle_root_dup_last)

theorem merkle_root_repeats_last_witness:
  "merkle_root demo_ext [replicate 32 1, replicate 32 2, replicate 32 3, replicate 32 3]
   = merkle_root demo_ext [replicate 32 1, replicate 32 2, replicate 32 3]"
  using merkle_root_repeats_last [of "[replicate 32 1, replicate 32 2, replicate 32 3]" demo_ext] by simp

text \<open>C29: parsing the canonical name of a well-formed ABI type gives the type back.\<close>

theorem abi_type_roundtrip:
  assumes "wf_abi t"
  shows "abi_parse (canonical_name t) = Inr t"
  using assms by (rule abi_parse_canonical_name)

theorem abi_type_roundtrip_witness:
  "abi_parse (canonical_name (ATuple [AUint 256, AArray (AFixedArray ABool 3), ATuple [AAddress, AString]]))
   = Inr (ATuple [AUint 256, AArray (AFixedArray ABool 3), ATuple [AAddress, AString]])"
  by (rule abi_type_roundtrip) code_simp

section \<open>ABI codec\<close>

text \<open>C30: for parameter types whose array elements take space (\<open>solid\<close>) and data of fewer than \<open>2 ^ 64\<close>
  bytes, calldata decodes to the values \<open>vs\<close> exactly when it is the encoding of \<open>vs\<close> and the values are well
  formed (words of 32 bytes, strings in UTF-8). So every accepted byte string is canonical: offsets, padding,
  sign extension and trailing data included. An array of elements without size encodes and does not decode,
  and is excluded.\<close>

theorem abi_codec_exact:
  assumes "list_all (\<lambda>p. solid (param_type p)) ps" and "length data < 2 ^ 64"
  shows "decode_args ps data = Inr vs \<longleftrightarrow> encode_args ps vs = Inr data \<and> list_all value_ok vs"
  using encode_decode_args [OF _ assms(2)] decode_encode_args [OF _ assms(1) _ assms(2)] by blast

theorem abi_codec_exact_witness:
  "decode_args demo_params demo_calldata = Inr demo_values"
proof -
  have "encode_args demo_params demo_values = Inr demo_calldata \<and> list_all value_ok demo_values" by code_simp
  moreover have "list_all (\<lambda>p. solid (param_type p)) demo_params" "length demo_calldata < 2 ^ 64" by code_simp+
  ultimately show ?thesis using abi_codec_exact [of demo_params demo_calldata demo_values] by blast
qed

text \<open>C31: decoding never panics on a slice: for types whose head can be measured in a \<open>usize\<close>, any calldata
  decodes to values or to one of the codec's errors, and no slice is out of range. Allocation is not
  modelled.\<close>

theorem abi_decode_never_panics:
  assumes "list_all (\<lambda>p. roomy (param_type p)) ps" and "head_sizes (map param_type ps) < 2 ^ 64" and "length data < 2 ^ 64"
  shows "decode_args ps data \<noteq> Inl (AbiPanic e)"
  using decode_args_calm [OF assms] by auto

theorem abi_decode_never_panics_witness:
  "decode_args demo_params (take 7 demo_calldata) \<noteq> Inl (AbiPanic ''slice'')"
  by (rule abi_decode_never_panics) code_simp+

text \<open>C32: in a document whose functions differ in name or input types, dispatching on the selector of a
  function finds that function, unless the selectors of two different signatures clash.\<close>

theorem selector_dispatch:
  assumes "f \<in> set (doc_functions doc)"
    and "\<And>g. g \<in> set (doc_functions doc) \<Longrightarrow> plain_name (fn_name g) \<and> list_all wf_abi (input_types g)"
    and "\<And>g. g \<in> set (doc_functions doc) \<Longrightarrow> fn_name g = fn_name f \<Longrightarrow> input_types g = input_types f \<Longrightarrow> g = f"
  shows "function_by_selector X doc (abi_function_selector X f) = Some f
    \<or> (\<exists>g \<in> set (doc_functions doc). selectors_clash X (method_signature (fn_name g) (fn_inputs g)) (method_signature (fn_name f) (fn_inputs f)))"
  using assms by (rule dispatch)

theorem selector_dispatch_witness:
  "function_by_selector demo_ext demo_document (abi_function_selector demo_ext demo_function) = Some demo_function
   \<or> (\<exists>g \<in> set (doc_functions demo_document). selectors_clash demo_ext (method_signature (fn_name g) (fn_inputs g))
        (method_signature (fn_name demo_function) (fn_inputs demo_function)))"
  by (rule selector_dispatch) (auto simp: demo_document_def demo_function_def demo_params_def abi_document_new_def plain_name_def validate_bits_def)

section \<open>Addresses\<close>

text \<open>C33: decoding an encoded address gives the key and the network back.\<close>

theorem address_roundtrip:
  assumes "bech32_ok X" and "valid_pk X pk" and "encode_address X pk n = Inr a"
  shows "decode_address X a = Inr (pk, n)"
  using assms by (rule decode_encode_address)

theorem address_roundtrip_witness:
  "\<exists>a. encode_address demo_ext (replicate 33 2) CHAIN_ID_MAINNET = Inr a \<and> decode_address demo_ext a = Inr (replicate 33 2, CHAIN_ID_MAINNET)"
proof -
  have "is_ok (encode_address demo_ext (replicate 33 2) CHAIN_ID_MAINNET)" by code_simp
  then obtain a where a: "encode_address demo_ext (replicate 33 2) CHAIN_ID_MAINNET = Inr a" by (auto simp: is_ok_iff)
  have "valid_pk demo_ext (replicate 33 2)" by code_simp
  from address_roundtrip [OF demo_bech32_ok this a] a show ?thesis by blast
qed

text \<open>C34: a contract address determines the creator, the nonce and the network of its deployment, unless two
  hashed byte strings collide, and never decodes as the address of a key.\<close>

theorem contract_address_unique:
  assumes "bech32_ok X" and "pk_slice_len X" and "hash32 X"
    and "derive_contract_address X c nonce n = Inr a" and "derive_contract_address X c' nonce' n' = Inr a"
  shows "(c = c' \<and> nonce = nonce' \<and> n = n' \<or> collides X [contract_addr_input c nonce, contract_addr_input c' nonce'])
         \<and> (\<exists>e. decode_address X a = Inl e)"
  using derive_contract_address_inj [OF assms(1) _ assms(4,5)] contract_address_not_eoa [OF assms(1-4)]
  by (auto simp: collides_iff)

theorem contract_address_unique_witness:
  "\<exists>a. derive_contract_address demo_ext alice 3 CHAIN_ID_REGTEST = Inr a \<and> (\<exists>e. decode_address demo_ext a = Inl e)"
proof -
  have "is_ok (derive_contract_address demo_ext alice 3 CHAIN_ID_REGTEST)" by code_simp
  then obtain a where a: "derive_contract_address demo_ext alice 3 CHAIN_ID_REGTEST = Inr a" by (auto simp: is_ok_iff)
  from contract_address_unique [OF demo_bech32_ok demo_pk_slice_len demo_hash32 a a] a show ?thesis by blast
qed

section \<open>Consensus\<close>

text \<open>C35: after a full period the target is computed exactly, for every old target. Its value is
  \<open>retarget_value\<close>: four times the old one (capped at the maximum) or a quarter of it when the elapsed time
  is out of range, else the product of target and time, reduced modulo \<open>2 ^ 256\<close>, over the expected time and
  clamped. Where the product of the old target and the clamped time does not reach \<open>2 ^ 256\<close>, this is the old
  target scaled by the clamped time over the expected time.\<close>

theorem retarget_scales:
  assumes "2016 \<le> length prev_blocks" and "target_array X (blk_target (last prev_blocks)) = Inr p"
  shows "\<exists>t. compute_target X prev_blocks = Inr t \<and> length t = 32
    \<and> be_val t = retarget_value (be_val p) (retarget_time prev_blocks)
    \<and> (be_val p * max 302250 (min (retarget_time prev_blocks) 4836000) < 2 ^ 256
        \<longrightarrow> be_val t = be_val p * max 302250 (min (retarget_time prev_blocks) 4836000) div 1209000)"
  using compute_target_value [OF assms] retarget_exact by metis

theorem retarget_scales_witness:
  "\<exists>t. compute_target demo_ext (replicate 2016 demo_work) = Inr t \<and> length t = 32
    \<and> be_val t = be_val (replicate 4 0 @ replicate 28 1) * max 302250 (min (retarget_time (replicate 2016 demo_work)) 4836000) div 1209000"
proof -
  let ?p = "replicate 4 0 @ replicate 28 1 :: bytes" and ?a = "max 302250 (min (retarget_time (replicate 2016 demo_work)) 4836000)"
  have p: "target_array demo_ext (blk_target (last (replicate 2016 demo_work))) = Inr ?p" by (simp add: demo_work_target)
  have "be_val ?p * ?a \<le> be_val ?p * 4836000" by (intro mult_le_mono) simp_all
  also have "\<dots> < 2 ^ 256" by code_simp
  finally show ?thesis using retarget_scales [OF _ p] by auto
qed

text \<open>C36: the retarget never leaves the range from a quarter to four times the old target, but the 256-bit
  product wraps: from the maximal target, a period that took exactly the expected time gives a quarter.\<close>

theorem retarget_wraps:
  assumes "2016 \<le> length prev_blocks" and "target_array X (blk_target (last prev_blocks)) = Inr p"
  shows "\<exists>t. compute_target X prev_blocks = Inr t \<and> be_val p div 4 \<le> be_val t \<and> be_val t \<le> be_val p * 4
    \<and> (be_val p = 2 ^ 256 - 1 \<and> retarget_time prev_blocks = 1209000 \<longrightarrow> be_val t = be_val p div 4)"
proof -
  obtain t where t: "compute_target X prev_blocks = Inr t" "be_val t = retarget_value (be_val p) (retarget_time prev_blocks)"
    by (rule compute_target_value [OF assms])
  have "length p = 32" using assms(2) by (auto simp: target_array_def split: if_splits)
  then have "be_val p < 2 ^ 256" using be_val_bound [of p] by simp
  note clamp = retarget_clamp [OF this, of "retarget_time prev_blocks"]
  have "retarget_value (2 ^ 256 - 1) 1209000 = (2 ^ 256 - 1) div 4" by (rule retarget_wrap)
  with t clamp show ?thesis by auto
qed

theorem retarget_wraps_witness:
  "\<exists>t. compute_target demo_ext demo_slow = Inr t \<and> be_val t = be_val (replicate 32 255) div 4"
proof -
  have len: "2016 \<le> length demo_slow" by (simp add: demo_slow_def)
  obtain t where t: "compute_target demo_ext demo_slow = Inr t"
    "be_val (replicate 32 255) = 2 ^ 256 - 1 \<and> retarget_time demo_slow = 1209000 \<longrightarrow> be_val t = be_val (replicate 32 255) div 4"
    using retarget_wraps [OF len demo_slow_target] by blast
  moreover have "be_val (replicate 32 255) = 2 ^ 256 - 1" by code_simp
  ultimately show ?thesis using demo_slow_time by blast
qed

text \<open>C37: a block that passes the timestamp check is later than the median time of its chain, and appending
  it does not lower the median.\<close>

theorem median_time_increases:
  assumes "unat (blk_index b) = length blocks" and "blocks \<noteq> []" and "Suc (length blocks) < 2 ^ 64"
    and "validate_timestamp b blocks now = Inr ()"
  shows "\<exists>t t'. median_time_past blocks (blk_index b) = Inr t
    \<and> median_time_past (blocks @ [b]) (blk_index b + 1) = Inr t' \<and> t < blk_timestamp b \<and> t \<le> t'"
  using median_time_past_mono [OF assms] by metis

theorem median_time_increases_witness:
  "\<exists>t t'. median_time_past [demo_genesis] (blk_index demo_late) = Inr t
    \<and> median_time_past ([demo_genesis] @ [demo_late]) (blk_index demo_late + 1) = Inr t' \<and> t < blk_timestamp demo_late \<and> t \<le> t'"
  by (rule median_time_increases [where now = 100]) (code_simp, simp, simp, code_simp)

text \<open>C38: a header passes the proof-of-work check exactly when its hash field is empty or right and its hash,
  read as a number, is at most its 32-byte target.\<close>

theorem header_pow_exact:
  assumes "hash32 X" and "header_hash X h = Inr hs"
  shows "validate_header_pow X h = Inr () \<longleftrightarrow>
    (hdr_hash h = [] \<or> hdr_hash h = hex_encode X hs)
    \<and> (\<exists>t. hex_decode X (hdr_target h) = Some t \<and> length t = 32 \<and> be_val hs \<le> be_val t)"
  using assms by (rule validate_header_pow_iff)

theorem header_pow_exact_witness:
  "\<exists>hs. header_hash demo_ext demo_header = Inr hs \<and>
    (validate_header_pow demo_ext demo_header = Inr () \<longleftrightarrow>
      (hdr_hash demo_header = [] \<or> hdr_hash demo_header = hex_encode demo_ext hs)
      \<and> (\<exists>t. hex_decode demo_ext (hdr_target demo_header) = Some t \<and> length t = 32 \<and> be_val hs \<le> be_val t))"
proof -
  obtain hs where hs: "header_hash demo_ext demo_header = Inr hs" by (rule demo_header_hash)
  from header_pow_exact [OF demo_hash32 hs] hs show ?thesis by blast
qed

text \<open>C39: the chain selection returns one of the candidates, and no candidate is better than it.\<close>

theorem selected_chain_is_best:
  assumes "list_all info_ok infos" and "select_best infos = Some r"
  shows "r \<in> set infos \<and> (\<forall>x\<in>set infos. \<not> is_better x r)"
  using select_best_correct [OF assms] by blast

theorem selected_chain_is_best_witness:
  "\<exists>r. select_best demo_infos = Some r \<and> r \<in> set demo_infos \<and> (\<forall>x\<in>set demo_infos. \<not> is_better x r)"
proof -
  have ok: "list_all info_ok demo_infos" by code_simp
  have "select_best demo_infos \<noteq> None" by code_simp
  then obtain r where r: "select_best demo_infos = Some r" by blast
  from selected_chain_is_best [OF ok r] r show ?thesis by blast
qed

text \<open>C40: extending a chain by blocks with positive work makes it preferred to the original.\<close>

theorem extension_is_better:
  assumes "chain \<noteq> []" and "chain_info_of X chain = Inr (Some i)" and "chain_info_of X (chain @ longer) = Inr (Some j)"
    and "longer \<noteq> []" and "list_all (\<lambda>b. 0 < target_work X (blk_target b)) longer"
    and "(\<Sum>b\<leftarrow>chain @ longer. target_work X (blk_target b)) < 2 ^ 256"
  shows "is_better j i"
  using chain_info_extend [OF assms(1-4) _ assms(6)] assms(5) by (simp add: list_all_iff)

theorem extension_is_better_witness:
  "\<exists>i j. chain_info_of demo_ext [demo_work] = Inr (Some i) \<and> chain_info_of demo_ext ([demo_work] @ [demo_work]) = Inr (Some j)
     \<and> is_better j i"
proof -
  obtain i j where ij: "chain_info_of demo_ext [demo_work] = Inr (Some i)"
    "chain_info_of demo_ext ([demo_work] @ [demo_work]) = Inr (Some j)"
    by (simp add: chain_info_of_def cumulative_work_def add_work_def demo_work_target)
  have "list_all (\<lambda>b. 0 < target_work demo_ext (blk_target b)) [demo_work]"
    and "(\<Sum>b\<leftarrow>[demo_work] @ [demo_work]. target_work demo_ext (blk_target b)) < 2 ^ 256"
    by code_simp+
  with extension_is_better [OF _ ij] ij show ?thesis by blast
qed

end
